(* ===== verification/Prelude.thy ===== *)
theory Prelude
  imports Main "HOL-Library.Word" "HOL-Library.List_Lexorder" "HOL-Library.Sublist" "HOL-Library.Multiset"
begin

section \<open>Shared types, errors and lemmas\<close>

text \<open>
  The vocabulary of the development. Machine integers are words of the width the Rust code
  gives them (\<open>i64\<close> is a 64-bit word read by \<open>sint\<close>), \<open>usize\<close> values are lengths and
  positions of in-memory buffers and are modelled by \<open>nat\<close>. A \<open>Bytes\<close> value is a list of
  bytes, ordered lexicographically as Rust orders byte slices. A fallible function returns
  \<open>Inl\<close> of an error; a panic (an \<open>assert!\<close>, an \<open>expect\<close>, an out-of-range slice) is the
  error \<open>Panic\<close>.
\<close>

type_synonym byte = "8 word"
type_synonym u8 = "8 word"
type_synonym u16 = "16 word"
type_synonym u32 = "32 word"
type_synonym u64 = "64 word"
type_synonym i64 = "64 word"
type_synonym bytes = "byte list"

datatype merge_operator_error = EmptyBatch | Callback string

datatype slatedb_error =
    EmptyBlock
  | EmptyKey
  | InvalidSegmentPrefix bytes bytes
  | EmptySegmentPrefix bytes
  | InvalidRowFlags u8 u8
  | MergeOperatorError merge_operator_error
  | MergeOperatorMissing
  | IncompatibleMergeTtls bytes "i64 option" "i64 option"
  | InvalidVersion u16
  | SeekNotSupportedForDescendingScan
  | SeekKeyOutOfRange bytes
  | SeekKeyLessThanLastReturnedKey
  | UnexpectedTombstone
  | InvalidSequenceNumber u64 u64
  | TransactionConflict
  | Closed
  | EmptyWriteBatch
  | IteratorNotInitialized
  | InvalidSequenceOrder u64 u64
  | DecodeError string
  | Panic string
  | NonTermination

type_synonym 'a result = "slatedb_error + 'a"

text \<open>The collections the component proofs draw on.\<close>

named_theorems result_simps "unfolding of results and errors"
named_theorems codec_simps "byte-level encoders and decoders"
named_theorems range_simps "membership in key ranges"

subsection \<open>Results\<close>

fun bind_result :: "'a result \<Rightarrow> ('a \<Rightarrow> 'b result) \<Rightarrow> 'b result" where
  "bind_result (Inl e) f = Inl e"
| "bind_result (Inr x) f = f x"

definition assert_or :: "bool \<Rightarrow> string \<Rightarrow> 'a result \<Rightarrow> 'a result" where
  "assert_or b msg k = (if b then k else Inl (Panic msg))"

lemma bind_result_eq_Inr [result_simps]:
  "bind_result m f = Inr y \<longleftrightarrow> (\<exists>x. m = Inr x \<and> f x = Inr y)"
  by (cases m) auto

text \<open>Continuations are simplified only once the bound computation has a value.\<close>

lemma bind_result_weak_cong [cong]: "m = m' \<Longrightarrow> bind_result m f = bind_result m' f"
  by simp

lemma assert_or_eq_Inr [result_simps]:
  "assert_or b msg k = Inr y \<longleftrightarrow> b \<and> k = Inr y"
  by (simp add: assert_or_def)

lemma assert_or_True [simp]: "assert_or True msg k = k"
  by (simp add: assert_or_def)

lemma assert_or_False [simp]: "assert_or False msg k = Inl (Panic msg)"
  by (simp add: assert_or_def)

subsection \<open>Lexicographic order of byte strings and prefixes\<close>

lemma lexorder_Cons_less [simp]:
  fixes x y :: "'a::linorder"
  shows "x # xs < y # ys \<longleftrightarrow> x < y \<or> (x = y \<and> xs < ys)"
  by (rule Cons_less_Cons)

lemma append_less_append_left [simp]:
  fixes p :: "'a::linorder list"
  shows "p @ xs < p @ ys \<longleftrightarrow> xs < ys"
  by (induction p) auto

lemma append_le_append_left [simp]:
  fixes p :: "'a::linorder list"
  shows "p @ xs \<le> p @ ys \<longleftrightarrow> xs \<le> ys"
  by (induction p) auto

lemma prefix_imp_le:
  fixes p :: "'a::linorder list"
  shows "prefix p k \<Longrightarrow> p \<le> k"
  by (induction p arbitrary: k) (auto simp: prefix_def)

text \<open>
  The keys that start with \<open>p\<close> form an interval: a key between two of them starts with
  \<open>p\<close> as well. Every argument about segments, prefix scans and index keys rests on this.
\<close>

lemma prefix_interval:
  fixes p :: "'a::linorder list"
  shows "p \<le> k \<Longrightarrow> k \<le> p @ s \<Longrightarrow> prefix p k"
proof (induction p arbitrary: k)
  case Nil
  then show ?case by simp
next
  case (Cons x p)
  then show ?case by (cases k) auto
qed

lemma prefix_between:
  fixes p :: "'a::linorder list"
  assumes "p \<le> k" "k \<le> q" "prefix p q"
  shows "prefix p k"
  using assms prefix_interval by (auto simp: prefix_def)

lemma not_prefix_cases:
  fixes p :: "'a::linorder list"
  shows "\<not> prefix p k \<Longrightarrow> p \<le> k \<Longrightarrow> p @ s < k"
  using prefix_interval not_le by blast

subsection \<open>Bytes\<close>

lemma unat_byte_less: "unat (b :: byte) < 256"
  using unsigned_less [of b] by simp

lemma byte_max: "255 \<le> c \<longleftrightarrow> c = (255 :: byte)" "\<not> 255 < (c :: byte)"
  using unat_byte_less [of c]
  by (auto simp: word_le_nat_alt word_less_nat_alt word_unat_eq_iff)

lemma byte_succ: "b \<noteq> (255 :: byte) \<Longrightarrow> c < b + 1 \<longleftrightarrow> c \<le> b"
  using unat_byte_less [of b]
  by (auto simp: word_le_nat_alt word_less_nat_alt word_unat_eq_iff unat_word_ariths)

subsection \<open>Lists\<close>

lemma dropWhile_filter:
  "sorted_wrt (\<lambda>a b. \<not> P a \<longrightarrow> \<not> P b) xs \<Longrightarrow> dropWhile P xs = filter (\<lambda>x. \<not> P x) xs"
proof (induction xs)
  case (Cons x xs)
  show ?case
  proof (cases "P x")
    case True
    with Cons show ?thesis by simp
  next
    case False
    with Cons.prems have "filter (\<lambda>x. \<not> P x) xs = xs" by (simp add: filter_id_conv)
    with False show ?thesis by simp
  qed
qed simp

end
