(* ===== verification/KeyRange.thy ===== *)
theory KeyRange
  imports Prelude
begin

section \<open>Key ranges: \<open>comparable_range.rs\<close> and \<open>bytes_range.rs\<close>\<close>

text \<open>
  Bounds, their two orders (as starts and as ends of a range), the range algebra
  (\<open>intersect\<close>, \<open>union\<close>, \<open>non_empty\<close>) and the ranges of byte strings the scans are built
  from. The lemmas relate every operation to the set of keys the range contains.
\<close>

subsection \<open>Bounds and their orders\<close>

datatype ordering = Less | Equal | Greater

definition cmp :: "'a::linorder \<Rightarrow> 'a \<Rightarrow> ordering" where
  "cmp a b = (if a < b then Less else if a = b then Equal else Greater)"

datatype 'a bound = Included 'a | Excluded 'a | Unbounded

fun cmp_bound :: "'a::linorder bound \<Rightarrow> 'a bound \<Rightarrow> bool \<Rightarrow> ordering" where
  "cmp_bound (Included a) (Included b) start = cmp a b"
| "cmp_bound (Excluded a) (Excluded b) start = cmp a b"
| "cmp_bound (Included a) (Excluded b) start =
     (case cmp a b of Equal \<Rightarrow> if start then Less else Greater | other \<Rightarrow> other)"
| "cmp_bound (Excluded a) (Included b) start =
     (case cmp a b of Equal \<Rightarrow> if start then Greater else Less | other \<Rightarrow> other)"
| "cmp_bound Unbounded Unbounded start = Equal"
| "cmp_bound Unbounded b start = (if start then Less else Greater)"
| "cmp_bound a Unbounded start = (if start then Greater else Less)"

datatype 'a start_bound = StartBound (start_inner: "'a bound")
datatype 'a end_bound = EndBound (end_inner: "'a bound")

lemma cmp_simps [simp]:
  "cmp a b = Less \<longleftrightarrow> a < b"
  "cmp a b = Equal \<longleftrightarrow> a = b"
  "cmp a b = Greater \<longleftrightarrow> b < a"
  by (auto simp: cmp_def)

lemma case_cmp:
  "(case cmp a b of Less \<Rightarrow> x | Equal \<Rightarrow> y | Greater \<Rightarrow> z) =
     (if a < b then x else if a = b then y else z)"
  by (simp add: cmp_def)

lemma cmp_bound_refl [simp]: "cmp_bound a a s = Equal"
  by (cases a) auto

lemma cmp_bound_Equal: "cmp_bound a b s = Equal \<longleftrightarrow> a = b"
  by (cases a; cases b) (auto simp: case_cmp split: if_splits)

lemma cmp_bound_flip: "cmp_bound a b s = Less \<longleftrightarrow> cmp_bound b a s = Greater"
  by (cases a; cases b) (auto simp: case_cmp)

lemma cmp_bound_Less_asym: "cmp_bound a b s = Less \<Longrightarrow> cmp_bound b a s \<noteq> Less"
  using cmp_bound_flip [of a b s] by simp

lemma cmp_bound_Less_trans:
  "cmp_bound a b s = Less \<Longrightarrow> cmp_bound b c s = Less \<Longrightarrow> cmp_bound a c s = Less"
  by (cases a; cases b; cases c) (auto simp: case_cmp split: if_splits)

lemma cmp_bound_not_Greater:
  "cmp_bound a b s \<noteq> Greater \<longleftrightarrow> cmp_bound a b s = Less \<or> a = b"
  using cmp_bound_Equal [of a b s] by (cases "cmp_bound a b s") auto

instantiation start_bound :: (linorder) linorder
begin

definition less_eq_start_bound :: "'a start_bound \<Rightarrow> 'a start_bound \<Rightarrow> bool" where
  "a \<le> b \<longleftrightarrow> cmp_bound (start_inner a) (start_inner b) True \<noteq> Greater"

definition less_start_bound :: "'a start_bound \<Rightarrow> 'a start_bound \<Rightarrow> bool" where
  "a < b \<longleftrightarrow> cmp_bound (start_inner a) (start_inner b) True = Less"

instance
proof
  fix x y z :: "'a start_bound"
  show "x < y \<longleftrightarrow> x \<le> y \<and> \<not> y \<le> x"
    by (auto simp: less_eq_start_bound_def less_start_bound_def cmp_bound_flip [symmetric] dest: cmp_bound_Less_asym)
  show "x \<le> x" by (simp add: less_eq_start_bound_def less_start_bound_def)
  show "x \<le> y \<Longrightarrow> y \<le> z \<Longrightarrow> x \<le> z"
    unfolding less_eq_start_bound_def less_start_bound_def cmp_bound_not_Greater by (auto dest: cmp_bound_Less_trans)
  show "x \<le> y \<Longrightarrow> y \<le> x \<Longrightarrow> x = y"
    unfolding less_eq_start_bound_def less_start_bound_def cmp_bound_not_Greater
    by (auto dest: cmp_bound_Less_asym intro: start_bound.expand)
  show "x \<le> y \<or> y \<le> x"
    by (auto simp: less_eq_start_bound_def less_start_bound_def cmp_bound_flip [symmetric] dest: cmp_bound_Less_asym)
qed

end

instantiation end_bound :: (linorder) linorder
begin

definition less_eq_end_bound :: "'a end_bound \<Rightarrow> 'a end_bound \<Rightarrow> bool" where
  "a \<le> b \<longleftrightarrow> cmp_bound (end_inner a) (end_inner b) False \<noteq> Greater"

definition less_end_bound :: "'a end_bound \<Rightarrow> 'a end_bound \<Rightarrow> bool" where
  "a < b \<longleftrightarrow> cmp_bound (end_inner a) (end_inner b) False = Less"

instance
proof
  fix x y z :: "'a end_bound"
  show "x < y \<longleftrightarrow> x \<le> y \<and> \<not> y \<le> x"
    by (auto simp: less_eq_end_bound_def less_end_bound_def cmp_bound_flip [symmetric] dest: cmp_bound_Less_asym)
  show "x \<le> x" by (simp add: less_eq_end_bound_def less_end_bound_def)
  show "x \<le> y \<Longrightarrow> y \<le> z \<Longrightarrow> x \<le> z"
    unfolding less_eq_end_bound_def less_end_bound_def cmp_bound_not_Greater by (auto dest: cmp_bound_Less_trans)
  show "x \<le> y \<Longrightarrow> y \<le> x \<Longrightarrow> x = y"
    unfolding less_eq_end_bound_def less_end_bound_def cmp_bound_not_Greater
    by (auto dest: cmp_bound_Less_asym intro: end_bound.expand)
  show "x \<le> y \<or> y \<le> x"
    by (auto simp: less_eq_end_bound_def less_end_bound_def cmp_bound_flip [symmetric] dest: cmp_bound_Less_asym)
qed

end

subsection \<open>Comparable ranges\<close>

record 'a comparable_range =
  cr_start :: "'a start_bound"
  cr_end :: "'a end_bound"

definition comparable_range_new :: "'a bound \<Rightarrow> 'a bound \<Rightarrow> 'a comparable_range" where
  "comparable_range_new s e = \<lparr>cr_start = StartBound s, cr_end = EndBound e\<rparr>"

fun bounds_non_empty :: "'a::linorder bound \<Rightarrow> 'a bound \<Rightarrow> bool" where
  "bounds_non_empty (Included a) (Included b) = (a \<le> b)"
| "bounds_non_empty (Included a) (Excluded b) = (a < b)"
| "bounds_non_empty (Excluded a) (Excluded b) = (a < b)"
| "bounds_non_empty (Excluded a) (Included b) = (a < b)"
| "bounds_non_empty Unbounded _ = True"
| "bounds_non_empty _ Unbounded = True"

definition non_empty :: "'a::linorder comparable_range \<Rightarrow> bool" where
  "non_empty r = bounds_non_empty (start_inner (cr_start r)) (end_inner (cr_end r))"

definition intersect ::
    "'a::linorder comparable_range \<Rightarrow> 'a comparable_range \<Rightarrow> 'a comparable_range option" where
  "intersect r s =
     (let i = \<lparr>cr_start = max (cr_start r) (cr_start s), cr_end = min (cr_end r) (cr_end s)\<rparr>
      in if non_empty i then Some i else None)"

definition range_less :: "'a::linorder comparable_range \<Rightarrow> 'a comparable_range \<Rightarrow> bool" where
  "range_less r s \<longleftrightarrow>
     cr_start r < cr_start s \<or> (cr_start r = cr_start s \<and> cr_end r < cr_end s)"

fun bounds_adjacent :: "'a bound \<Rightarrow> 'a bound \<Rightarrow> bool" where
  "bounds_adjacent (Included a) (Excluded b) = (a = b)"
| "bounds_adjacent (Excluded a) (Included b) = (a = b)"
| "bounds_adjacent _ _ = False"

definition are_adjacent :: "'a comparable_range \<Rightarrow> 'a comparable_range \<Rightarrow> bool" where
  "are_adjacent r s = bounds_adjacent (end_inner (cr_end r)) (start_inner (cr_start s))"

definition range_union ::
    "'a::linorder comparable_range \<Rightarrow> 'a comparable_range \<Rightarrow> 'a comparable_range option" where
  "range_union self other =
     (let (first, second) = (if range_less self other then (self, other) else (other, self))
      in if intersect first second = None \<and> \<not> are_adjacent first second then None
         else Some \<lparr>cr_start = min (cr_start first) (cr_start other),
                    cr_end = max (cr_end first) (cr_end second)\<rparr>)"

text \<open>Membership, as the standard library's \<open>RangeBounds::contains\<close> decides it.\<close>

fun above_start :: "'a::linorder bound \<Rightarrow> 'a \<Rightarrow> bool" where
  "above_start (Included s) k = (s \<le> k)"
| "above_start (Excluded s) k = (s < k)"
| "above_start Unbounded k = True"

fun below_end :: "'a::linorder bound \<Rightarrow> 'a \<Rightarrow> bool" where
  "below_end (Included e) k = (k \<le> e)"
| "below_end (Excluded e) k = (k < e)"
| "below_end Unbounded k = True"

definition contains :: "'a::linorder comparable_range \<Rightarrow> 'a \<Rightarrow> bool" where
  "contains r k \<longleftrightarrow>
     above_start (start_inner (cr_start r)) k \<and> below_end (end_inner (cr_end r)) k"

subsection \<open>Ranges of byte strings\<close>

type_synonym bytes_range = "bytes comparable_range"

definition bytes_range_new :: "bytes bound \<Rightarrow> bytes bound \<Rightarrow> bytes_range result" where
  "bytes_range_new s e =
     (let inner = comparable_range_new s e
      in assert_or (non_empty inner) ''Range must be non-empty'' (Inr inner))"

definition try_new :: "bytes bound \<Rightarrow> bytes bound \<Rightarrow> bytes_range option" where
  "try_new s e =
     (let inner = comparable_range_new s e in if non_empty inner then Some inner else None)"

definition unbounded_range :: "bytes_range result" where
  "unbounded_range = bytes_range_new Unbounded Unbounded"

definition new_empty :: bytes_range where
  "new_empty = comparable_range_new (Excluded [0]) (Excluded [0])"

fun increment_loop :: "nat \<Rightarrow> bytes \<Rightarrow> bytes option" where
  "increment_loop 0 upper_bound = None"
| "increment_loop (Suc i) upper_bound =
     (if upper_bound ! i \<noteq> 255
      then Some (take (i + 1) (upper_bound[i := upper_bound ! i + 1]))
      else increment_loop i upper_bound)"

definition increment_prefix :: "bytes \<Rightarrow> bytes option" where
  "increment_prefix p = increment_loop (length p) p"

definition prefix_end :: "bytes \<Rightarrow> bytes bound" where
  "prefix_end p = (case increment_prefix p of Some u \<Rightarrow> Excluded u | None \<Rightarrow> Unbounded)"

definition from_prefix :: "bytes \<Rightarrow> bytes_range result" where
  "from_prefix p =
     (if p = [] then bytes_range_new Unbounded Unbounded
      else bytes_range_new (Included p) (prefix_end p))"

definition from_prefix_and_subrange ::
    "bytes \<Rightarrow> bytes bound \<times> bytes bound \<Rightarrow> bytes_range result" where
  "from_prefix_and_subrange p subrange =
     (let start = (case fst subrange of
                     Included s \<Rightarrow> Included (p @ s)
                   | Excluded s \<Rightarrow> Excluded (p @ s)
                   | Unbounded \<Rightarrow> if p = [] then Unbounded else Included p);
          end' = (case snd subrange of
                    Included e \<Rightarrow> Included (p @ e)
                  | Excluded e \<Rightarrow> Excluded (p @ e)
                  | Unbounded \<Rightarrow> prefix_end p)
      in bytes_range_new start end')"

definition is_start_bound_included_or_unbounded :: "bytes_range \<Rightarrow> bool" where
  "is_start_bound_included_or_unbounded r =
     (case start_inner (cr_start r) of Excluded _ \<Rightarrow> False | _ \<Rightarrow> True)"

definition as_point :: "bytes_range \<Rightarrow> bytes option" where
  "as_point r =
     (case (start_inner (cr_start r), end_inner (cr_end r)) of
        (Included s, Included e) \<Rightarrow> if s = e then Some s else None
      | _ \<Rightarrow> None)"

subsection \<open>The range algebra on sets of keys\<close>

lemma above_start_antimono:
  "a \<le> b \<Longrightarrow> above_start (start_inner b) k \<Longrightarrow> above_start (start_inner a) k"
  by (cases "start_inner a"; cases "start_inner b")
    (auto simp: less_eq_start_bound_def case_cmp not_less split: if_splits)

lemma below_end_mono:
  "a \<le> b \<Longrightarrow> below_end (end_inner a) k \<Longrightarrow> below_end (end_inner b) k"
  by (cases "end_inner a"; cases "end_inner b")
    (auto simp: less_eq_end_bound_def case_cmp not_less split: if_splits)

lemma above_start_max [range_simps]:
  "above_start (start_inner (max a b)) k \<longleftrightarrow>
     above_start (start_inner a) k \<and> above_start (start_inner b) k"
  using above_start_antimono [of a b k] above_start_antimono [of b a k]
  by (auto simp: max_def not_le less_imp_le)

lemma above_start_min [range_simps]:
  "above_start (start_inner (min a b)) k \<longleftrightarrow>
     above_start (start_inner a) k \<or> above_start (start_inner b) k"
  using above_start_antimono [of a b k] above_start_antimono [of b a k]
  by (auto simp: min_def not_le less_imp_le)

lemma below_end_min [range_simps]:
  "below_end (end_inner (min a b)) k \<longleftrightarrow>
     below_end (end_inner a) k \<and> below_end (end_inner b) k"
  using below_end_mono [of a b k] below_end_mono [of b a k]
  by (auto simp: min_def not_le less_imp_le)

lemma below_end_max [range_simps]:
  "below_end (end_inner (max a b)) k \<longleftrightarrow>
     below_end (end_inner a) k \<or> below_end (end_inner b) k"
  using below_end_mono [of a b k] below_end_mono [of b a k]
  by (auto simp: max_def not_le less_imp_le)

lemma bounds_non_empty_if: "above_start s k \<Longrightarrow> below_end e k \<Longrightarrow> bounds_non_empty s e"
  by (cases s; cases e) auto

lemma contains_non_empty: "contains r k \<Longrightarrow> non_empty r"
  by (auto simp: contains_def non_empty_def intro: bounds_non_empty_if)

lemma bounds_non_empty_gap:
  "bounds_non_empty s e \<or> bounds_adjacent e s \<Longrightarrow> \<not> below_end e k \<Longrightarrow> above_start s k"
  by (cases s; cases e) auto

lemma contains_new [range_simps]:
  "contains (comparable_range_new s e) k \<longleftrightarrow> above_start s k \<and> below_end e k"
  by (simp add: contains_def comparable_range_new_def)

lemma non_empty_new [range_simps]:
  "non_empty (comparable_range_new s e) = bounds_non_empty s e"
  by (simp add: non_empty_def comparable_range_new_def)

lemma bounds_non_empty_min_end:
  "bounds_non_empty s (end_inner (min a b)) \<Longrightarrow> bounds_non_empty s (end_inner a)"
  by (cases s; cases "end_inner a"; cases "end_inner b")
    (auto simp: min_def less_eq_end_bound_def case_cmp split: if_splits)

lemma contains_intersection:
  "contains \<lparr>cr_start = max (cr_start r) (cr_start s), cr_end = min (cr_end r) (cr_end s)\<rparr> k
     \<longleftrightarrow> contains r k \<and> contains s k"
  by (auto simp: contains_def range_simps)

lemma intersect_None: "intersect r s = None \<Longrightarrow> \<not> (contains r k \<and> contains s k)"
  unfolding contains_intersection [symmetric]
  by (auto simp: intersect_def Let_def dest: contains_non_empty split: if_splits)

lemma intersect_Some:
  "intersect r s = Some t \<Longrightarrow> non_empty t \<and> (contains t k \<longleftrightarrow> contains r k \<and> contains s k)"
  unfolding contains_intersection [symmetric]
  by (auto simp: intersect_def Let_def split: if_splits)

text \<open>
  C34: \<open>ComparableRange::intersect\<close> computes the set intersection: when it returns a range, that
  range is non-empty and contains exactly the keys both operands contain, and when it returns
  \<open>None\<close> no key is in both.
\<close>
theorem intersect_exact:
  "case intersect r s of
     Some t \<Rightarrow> non_empty t \<and> (\<forall>k. contains t k \<longleftrightarrow> contains r k \<and> contains s k)
   | None \<Rightarrow> (\<nexists>k. contains r k \<and> contains s k)"
  using intersect_None [of r s] intersect_Some [of r s] by (cases "intersect r s") auto

lemma range_less_start: "range_less r s \<Longrightarrow> cr_start r \<le> cr_start s"
  by (auto simp: range_less_def)

lemma not_range_less_start: "\<not> range_less r s \<Longrightarrow> cr_start s \<le> cr_start r"
  by (auto simp: range_less_def)

lemma joined_contains:
  assumes le: "cr_start f \<le> cr_start g"
    and joined: "intersect f g \<noteq> None \<or> are_adjacent f g"
  shows "above_start (start_inner (cr_start f)) k
           \<and> (below_end (end_inner (cr_end f)) k \<or> below_end (end_inner (cr_end g)) k)
         \<longleftrightarrow> contains f k \<or> contains g k"
proof -
  have "bounds_non_empty (start_inner (cr_start g)) (end_inner (cr_end f))
          \<or> bounds_adjacent (end_inner (cr_end f)) (start_inner (cr_start g))"
    using joined le
    by (auto simp: intersect_def are_adjacent_def non_empty_def Let_def max_absorb2
        dest: bounds_non_empty_min_end split: if_splits)
  from bounds_non_empty_gap [OF this, of k] above_start_antimono [OF le, of k]
  show ?thesis by (auto simp: contains_def)
qed

lemma range_union_commute: "range_union r s = range_union s r"
proof (cases "range_less r s")
  case True
  moreover from this have "\<not> range_less s r" by (auto simp: range_less_def)
  ultimately show ?thesis
    using range_less_start [of r s] by (simp add: range_union_def min_absorb1)
next
  case False
  show ?thesis
  proof (cases "range_less s r")
    case True
    with False show ?thesis
      using range_less_start [of s r] by (simp add: range_union_def min_absorb1)
  next
    case False
    with \<open>\<not> range_less r s\<close> have "r = s" by (cases r; cases s) (auto simp: range_less_def)
    then show ?thesis by simp
  qed
qed

text \<open>
  C35: \<open>ComparableRange::union\<close> does not depend on the order of its operands, and a range it
  returns contains exactly the keys that one of the operands contains; no key outside both is
  swallowed by joining them.
\<close>
theorem range_union_exact:
  "range_union r s = range_union s r \<and>
   (case range_union r s of
      Some t \<Rightarrow> \<forall>k. contains t k \<longleftrightarrow> contains r k \<or> contains s k
    | None \<Rightarrow> (\<nexists>k. contains r k \<and> contains s k))"
proof -
  have "case range_union r s of
      Some t \<Rightarrow> \<forall>k. contains t k \<longleftrightarrow> contains r k \<or> contains s k
    | None \<Rightarrow> intersect r s = None \<or> intersect s r = None"
  proof (cases "range_less r s")
    case True
    with range_less_start [OF True] joined_contains [of r s] show ?thesis
      by (auto simp: range_union_def contains_def range_simps min_absorb1)
  next
    case False
    with not_range_less_start [OF False] joined_contains [of s r] show ?thesis
      by (auto simp: range_union_def contains_def range_simps min_absorb1)
  qed
  with intersect_None [of r s] intersect_None [of s r]
  have "case range_union r s of
      Some t \<Rightarrow> \<forall>k. contains t k \<longleftrightarrow> contains r k \<or> contains s k
    | None \<Rightarrow> (\<nexists>k. contains r k \<and> contains s k)"
    by (cases "range_union r s") auto
  with range_union_commute [of r s] show ?thesis by (rule conjI)
qed

subsection \<open>Prefix ranges\<close>

lemma increment_loop_Some:
  "increment_loop i p = Some u \<Longrightarrow> i \<le> length p \<Longrightarrow>
     \<exists>j<i. p ! j \<noteq> 255 \<and> (\<forall>l. j < l \<and> l < i \<longrightarrow> p ! l = 255) \<and> u = take j p @ [p ! j + 1]"
proof (induction i p rule: increment_loop.induct)
  case (2 i p)
  show ?case
  proof (cases "p ! i = 255")
    case True
    with 2 obtain j where "j < i" "p ! j \<noteq> 255" "\<forall>l. j < l \<and> l < i \<longrightarrow> p ! l = 255"
      "u = take j p @ [p ! j + 1]" by auto
    with True show ?thesis by (auto simp: less_Suc_eq)
  next
    case False
    with 2 have "u = take i p @ [p ! i + 1]"
      by (simp add: take_Suc_conv_app_nth take_update_cancel)
    with False show ?thesis by auto
  qed
qed simp

lemma increment_loop_None: "increment_loop i p = None \<Longrightarrow> l < i \<Longrightarrow> p ! l = 255"
  by (induction i p rule: increment_loop.induct) (auto simp: less_Suc_eq split: if_splits)

lemma increment_prefix_Some:
  assumes "increment_prefix p = Some u"
  obtains q b r where "p = q @ b # r" "b \<noteq> 255" "\<forall>x\<in>set r. x = 255" "u = q @ [b + 1]"
proof -
  from increment_loop_Some [OF assms [unfolded increment_prefix_def]] obtain j where
    j: "j < length p" "p ! j \<noteq> 255" "\<forall>l. j < l \<and> l < length p \<longrightarrow> p ! l = 255"
       "u = take j p @ [p ! j + 1]" by auto
  have "\<forall>x\<in>set (drop (Suc j) p). x = 255"
    using j(3) by (auto simp: in_set_conv_nth)
  with j show thesis by (intro that [of "take j p" "p ! j" "drop (Suc j) p"]) (simp_all add: id_take_nth_drop)
qed

lemma increment_prefix_None: "increment_prefix p = None \<Longrightarrow> \<forall>x\<in>set p. x = 255"
  by (auto simp: increment_prefix_def in_set_conv_nth dest: increment_loop_None)

lemma all_max_le_iff_prefix:
  "\<forall>x\<in>set r. x = (255 :: byte) \<Longrightarrow> r \<le> k \<longleftrightarrow> prefix r k"
proof (induction r arbitrary: k)
  case (Cons x r)
  then show ?case by (cases k) (auto simp: byte_max)
qed simp

lemma increment_prefix_interval:
  assumes "increment_prefix p = Some u"
  shows "p \<le> k \<and> k < u \<longleftrightarrow> prefix p k"
proof -
  from increment_prefix_Some [OF assms] obtain q b r where
    p: "p = q @ b # r" and b: "b \<noteq> 255" and r: "\<forall>x\<in>set r. x = 255" and u: "u = q @ [b + 1]" .
  show ?thesis
  proof
    assume k: "p \<le> k \<and> k < u"
    then have "q \<le> k" using p prefix_imp_le [of q p] by auto
    with k u have "prefix q k" using prefix_interval [of q k "[b + 1]"] by auto
    then obtain k' where k': "k = q @ k'" by (auto simp: prefix_def)
    with k p u have le: "b # r \<le> k'" and less: "k' < [b + 1]"
      by (auto simp: append_less_append_left append_le_append_left)
    from le obtain c k'' where c: "k' = c # k''" by (cases k') auto
    with le less b have "c = b" "r \<le> k''" by (auto simp: byte_succ)
    with r k' c p show "prefix p k" by (simp add: all_max_le_iff_prefix)
  next
    assume "prefix p k"
    with p u b show "p \<le> k \<and> k < u"
      by (auto simp: prefix_imp_le prefix_def append_less_append_left byte_succ)
  qed
qed

lemma prefix_interval_end:
  "p \<le> k \<and> below_end (prefix_end p) k \<longleftrightarrow> prefix p k"
proof (cases "increment_prefix p")
  case None
  then show ?thesis
    using all_max_le_iff_prefix [OF increment_prefix_None [OF None]] by (simp add: prefix_end_def)
next
  case (Some u)
  with increment_prefix_interval [OF Some] show ?thesis by (simp add: prefix_end_def)
qed

lemma prefix_end_Nil [simp]: "prefix_end [] = Unbounded"
  by (simp add: prefix_end_def increment_prefix_def)

lemma bytes_range_new_Inr:
  "above_start s k \<Longrightarrow> below_end e k \<Longrightarrow> bytes_range_new s e = Inr (comparable_range_new s e)"
  by (simp add: bytes_range_new_def range_simps bounds_non_empty_if)

text \<open>
  C33: \<open>BytesRange::increment_prefix\<close> returns the least byte string above every key that starts
  with the prefix, and returns \<open>None\<close> exactly when there is no such string, which is when every
  byte of the prefix is \<open>0xff\<close>.
\<close>
theorem increment_prefix_least:
  "case increment_prefix p of
     Some u \<Rightarrow> (\<forall>k. prefix p k \<longrightarrow> k < u) \<and> (\<forall>v. (\<forall>k. prefix p k \<longrightarrow> k < v) \<longrightarrow> u \<le> v)
   | None \<Rightarrow> set p \<subseteq> {255} \<and> (\<nexists>v. \<forall>k. prefix p k \<longrightarrow> k < v)"
proof (cases "increment_prefix p")
  case None
  from increment_prefix_None [OF None] have max: "\<forall>x\<in>set p. x = 255" .
  have "\<exists>k. prefix p k \<and> \<not> k < v" for v
    using all_max_le_iff_prefix [OF max, of v] by (cases "p \<le> v") auto
  with None max show ?thesis by auto
next
  case (Some u)
  note int = increment_prefix_interval [OF Some]
  have "u \<le> v" if "\<forall>k. prefix p k \<longrightarrow> k < v" for v
    using that int [of v] by (metis linorder_not_le order_less_imp_le prefix_order.refl order_less_irrefl)
  with Some int show ?thesis by auto
qed

text \<open>
  Witness of C33: the bound of the prefix \<open>[1, 255]\<close> is \<open>[2]\<close>, above the key \<open>[1, 255, 9]\<close> and
  at most any other bound, and the prefix \<open>[255]\<close> has none.
\<close>
theorem increment_prefix_least_witness:
  "increment_prefix [1, 255] = Some [2] \<and> [1, 255, 9] < ([2] :: bytes)
   \<and> (\<nexists>v :: bytes. \<forall>k. prefix [255] k \<longrightarrow> k < v)"
proof -
  have "increment_prefix [1, 255] = Some [2]" "increment_prefix [255] = None" by code_simp+
  then show ?thesis
    using increment_prefix_least [of "[1, 255]"] increment_prefix_least [of "[255]"] by auto
qed

text \<open>
  C32: \<open>BytesRange::from_prefix\<close> never fails its non-emptiness assertion, and the range it
  builds contains exactly the keys that start with the prefix (every key, for the empty prefix).
\<close>
theorem from_prefix_exact:
  "\<exists>r. from_prefix p = Inr r \<and> (\<forall>k. contains r k \<longleftrightarrow> prefix p k)"
proof (cases "p = []")
  case True
  then show ?thesis
    by (auto simp: from_prefix_def bytes_range_new_def range_simps)
next
  case False
  have "bytes_range_new (Included p) (prefix_end p)
          = Inr (comparable_range_new (Included p) (prefix_end p))"
    using prefix_interval_end [of p p] by (intro bytes_range_new_Inr [of _ p]) auto
  with False show ?thesis
    using prefix_interval_end [of p] by (simp add: from_prefix_def range_simps)
qed

lemma subrange_start_contains:
  "prefix p k \<Longrightarrow>
   above_start (case s of Included a \<Rightarrow> Included (p @ a) | Excluded a \<Rightarrow> Excluded (p @ a)
                | Unbounded \<Rightarrow> if p = [] then Unbounded else Included p) k
   \<longleftrightarrow> above_start s (drop (length p) k)"
  by (cases s) (auto simp: prefix_def prefix_imp_le)

lemma subrange_end_contains:
  "prefix p k \<Longrightarrow>
   below_end (case e of Included a \<Rightarrow> Included (p @ a) | Excluded a \<Rightarrow> Excluded (p @ a)
              | Unbounded \<Rightarrow> prefix_end p) k
   \<longleftrightarrow> below_end e (drop (length p) k)"
  using prefix_interval_end [of p k] by (cases e) (auto simp: prefix_def)

lemma subrange_contains_prefix:
  assumes "above_start (case s of Included a \<Rightarrow> Included (p @ a) | Excluded a \<Rightarrow> Excluded (p @ a)
                        | Unbounded \<Rightarrow> if p = [] then Unbounded else Included p) k"
    and "below_end (case e of Included a \<Rightarrow> Included (p @ a) | Excluded a \<Rightarrow> Excluded (p @ a)
                    | Unbounded \<Rightarrow> prefix_end p) k"
  shows "prefix p k"
proof -
  have "p \<le> p @ a" for a by (simp add: prefix_imp_le)
  with assms(1) have "p \<le> k"
    by (cases s) (auto split: if_splits intro: order_trans less_imp_le order_le_less_trans)
  with assms(2) prefix_interval_end [of p k] show ?thesis
    by (cases e) (auto intro: prefix_interval less_imp_le)
qed

text \<open>
  C31: Whenever \<open>BytesRange::from_prefix_and_subrange\<close> returns, its range contains exactly the
  keys \<open>prefix ++ suffix\<close> whose suffix lies in the subrange; and it returns for every subrange
  that contains at least one suffix, so only empty subranges fail the assertion.
\<close>
theorem from_prefix_and_subrange_exact:
  "(\<forall>r. from_prefix_and_subrange p (s, e) = Inr r \<longrightarrow>
      (\<forall>k. contains r k \<longleftrightarrow> (\<exists>x. k = p @ x \<and> above_start s x \<and> below_end e x)))
   \<and> ((\<exists>x. above_start s x \<and> below_end e x) \<longrightarrow> (\<exists>r. from_prefix_and_subrange p (s, e) = Inr r))"
proof -
  define s' where "s' = (case s of Included a \<Rightarrow> Included (p @ a) | Excluded a \<Rightarrow> Excluded (p @ a)
                         | Unbounded \<Rightarrow> if p = [] then Unbounded else Included p)"
  define e' where "e' = (case e of Included a \<Rightarrow> Included (p @ a) | Excluded a \<Rightarrow> Excluded (p @ a)
                         | Unbounded \<Rightarrow> prefix_end p)"
  have def: "from_prefix_and_subrange p (s, e) = bytes_range_new s' e'"
    by (simp add: from_prefix_and_subrange_def s'_def e'_def)
  have in': "above_start s' k \<and> below_end e' k \<longleftrightarrow> (\<exists>x. k = p @ x \<and> above_start s x \<and> below_end e x)" for k
    using subrange_start_contains [of p k s, folded s'_def]
      subrange_end_contains [of p k e, folded e'_def]
      subrange_contains_prefix [of p s k e, folded s'_def e'_def]
    by (auto simp: prefix_def)
  show ?thesis
    using in' bytes_range_new_Inr [of s' _ e']
    by (fastforce simp: def bytes_range_new_def range_simps result_simps)
qed

text \<open>Witness of C31: the subrange \<open>(1, 3]\<close> below the prefix \<open>[7]\<close>.\<close>
theorem from_prefix_and_subrange_exact_witness:
  "\<exists>r. from_prefix_and_subrange [7] (Excluded [1], Included [3]) = Inr r
       \<and> contains r [7, 2] \<and> \<not> contains r [7, 1] \<and> \<not> contains r [8]"
  using from_prefix_and_subrange_exact [of "[7]" "Excluded [1]" "Included [3]"]
  by (auto simp: from_prefix_and_subrange_def bytes_range_new_def range_simps)

end
