(* ===== verification/Types.thy ===== *)
theory Types
  imports Prelude
begin

section \<open>Rows: \<open>types.rs\<close>\<close>

text \<open>
  The row entry that every component passes on, its value (a value, a merge operand or a
  tombstone) and the two size functions the write path uses.
\<close>

datatype value_deletable = Value bytes | Merge bytes | Tombstone

fun value_len :: "value_deletable \<Rightarrow> nat" where
  "value_len (Value v) = length v"
| "value_len (Merge v) = length v"
| "value_len Tombstone = 0"

fun is_tombstone :: "value_deletable \<Rightarrow> bool" where
  "is_tombstone Tombstone = True"
| "is_tombstone _ = False"

fun as_bytes :: "value_deletable \<Rightarrow> bytes option" where
  "as_bytes (Value v) = Some v"
| "as_bytes (Merge v) = Some v"
| "as_bytes Tombstone = None"

record row_entry =
  re_key :: bytes
  re_value :: value_deletable
  re_seq :: u64
  re_create_ts :: "i64 option"
  re_expire_ts :: "i64 option"

record key_value =
  kv_key :: bytes
  kv_value :: bytes
  kv_seq :: u64
  kv_create_ts :: i64
  kv_expire_ts :: "i64 option"

definition row_entry_new ::
    "bytes \<Rightarrow> value_deletable \<Rightarrow> u64 \<Rightarrow> i64 option \<Rightarrow> i64 option \<Rightarrow> row_entry" where
  "row_entry_new key v seq create_ts expire_ts =
     \<lparr>re_key = key, re_value = v, re_seq = seq, re_create_ts = create_ts, re_expire_ts = expire_ts\<rparr>"

definition opt_size :: "i64 option \<Rightarrow> nat" where
  "opt_size ts = (if ts \<noteq> None then 8 else 0)"

definition estimated_size :: "row_entry \<Rightarrow> nat" where
  "estimated_size e =
     length (re_key e) + value_len (re_value e) + 8
       + opt_size (re_create_ts e) + opt_size (re_expire_ts e)"

definition encoded_size :: "row_entry \<Rightarrow> nat \<Rightarrow> nat" where
  "encoded_size e key_prefix_len =
     2 + 2 + (length (re_key e) - key_prefix_len) + 8 + 1
       + opt_size (re_expire_ts e) + opt_size (re_create_ts e)
       + (if is_tombstone (re_value e) then 0 else 4 + value_len (re_value e))"

definition key_value_from :: "row_entry \<Rightarrow> key_value result" where
  "key_value_from e =
     (case as_bytes (re_value e) of
        None \<Rightarrow> Inl (Panic ''RowEntry should have a value'')
      | Some v \<Rightarrow>
          Inr \<lparr>kv_key = re_key e, kv_value = v, kv_seq = re_seq e,
               kv_create_ts = (case re_create_ts e of Some t \<Rightarrow> t | None \<Rightarrow> 0),
               kv_expire_ts = re_expire_ts e\<rparr>)"

lemma as_bytes_None_iff: "as_bytes v = None \<longleftrightarrow> is_tombstone v"
  by (cases v) auto

lemma value_len_as_bytes: "value_len v = (case as_bytes v of Some b \<Rightarrow> length b | None \<Rightarrow> 0)"
  by (cases v) auto

lemma key_value_from_Inr: "(\<exists>kv. key_value_from e = Inr kv) \<longleftrightarrow> \<not> is_tombstone (re_value e)"
  by (cases "re_value e") (auto simp: key_value_from_def)

end
