(* ===== verification/RowCodec.thy ===== *)
theory RowCodec
  imports Types
begin

section \<open>Row codecs: \<open>format/row.rs\<close>, \<open>format/row_codec_v2.rs\<close> and the varints of \<open>utils.rs\<close>\<close>

text \<open>
  The byte encodings of a row. \<open>sst_row_codec_v0\<close> strips the prefix a key shares with the first
  key of its block; \<open>sst_row_codec_v2\<close> the prefix it shares with the previous key, with lengths
  as varints. A decoder takes the buffer and returns the row with the rest of the buffer; a read
  past the end of the buffer is the panic of the \<open>bytes\<close> accessors. The lemmas are the round
  trips and that the size functions predict the length of the encodings.
\<close>

subsection \<open>Big-endian accessors\<close>

fun be_bytes :: "nat \<Rightarrow> nat \<Rightarrow> bytes" where
  "be_bytes 0 x = []"
| "be_bytes (Suc n) x = be_bytes n (x div 256) @ [of_nat (x mod 256)]"

definition be_val :: "bytes \<Rightarrow> nat" where
  "be_val bs = foldl (\<lambda>acc b. acc * 256 + unat b) 0 bs"

definition put_u8 :: "u8 \<Rightarrow> bytes" where "put_u8 x = [x]"
definition put_u16 :: "u16 \<Rightarrow> bytes" where "put_u16 x = be_bytes 2 (unat x)"
definition put_u32 :: "u32 \<Rightarrow> bytes" where "put_u32 x = be_bytes 4 (unat x)"
definition put_u64 :: "u64 \<Rightarrow> bytes" where "put_u64 x = be_bytes 8 (unat x)"
definition put_i64 :: "i64 \<Rightarrow> bytes" where "put_i64 x = be_bytes 8 (unat x)"

definition copy_to_bytes :: "nat \<Rightarrow> bytes \<Rightarrow> (bytes \<times> bytes) result" where
  "copy_to_bytes n data =
     assert_or (n \<le> length data) ''advance out of bounds'' (Inr (take n data, drop n data))"

definition get_be :: "nat \<Rightarrow> bytes \<Rightarrow> ('a::len word \<times> bytes) result" where
  "get_be n data =
     bind_result (copy_to_bytes n data) (\<lambda>(bs, rest). Inr (of_nat (be_val bs), rest))"

definition get_u8 :: "bytes \<Rightarrow> (u8 \<times> bytes) result" where "get_u8 = get_be 1"
definition get_u16 :: "bytes \<Rightarrow> (u16 \<times> bytes) result" where "get_u16 = get_be 2"
definition get_u32 :: "bytes \<Rightarrow> (u32 \<times> bytes) result" where "get_u32 = get_be 4"
definition get_u64 :: "bytes \<Rightarrow> (u64 \<times> bytes) result" where "get_u64 = get_be 8"
definition get_i64 :: "bytes \<Rightarrow> (i64 \<times> bytes) result" where "get_i64 = get_be 8"

subsection \<open>Row flags\<close>

type_synonym row_flags = u8

unbundle bit_operations_syntax

definition TOMBSTONE :: row_flags where "TOMBSTONE = 0b00000001"
definition HAS_EXPIRE_TS :: row_flags where "HAS_EXPIRE_TS = 0b00000010"
definition HAS_CREATE_TS :: row_flags where "HAS_CREATE_TS = 0b00000100"
definition MERGE_OPERAND :: row_flags where "MERGE_OPERAND = 0b00001000"

definition all_flags :: row_flags where
  "all_flags = TOMBSTONE OR HAS_EXPIRE_TS OR HAS_CREATE_TS OR MERGE_OPERAND"

definition flags_contains :: "row_flags \<Rightarrow> row_flags \<Rightarrow> bool" where
  "flags_contains flags other \<longleftrightarrow> flags AND other = other"

definition row_flags_of :: "value_deletable \<Rightarrow> i64 option \<Rightarrow> i64 option \<Rightarrow> row_flags" where
  "row_flags_of v expire_ts create_ts =
     (let flags = (case v of Value _ \<Rightarrow> 0 | Merge _ \<Rightarrow> MERGE_OPERAND | Tombstone \<Rightarrow> TOMBSTONE);
          flags = (if expire_ts \<noteq> None then flags OR HAS_EXPIRE_TS else flags);
          flags = (if create_ts \<noteq> None then flags OR HAS_CREATE_TS else flags)
      in flags)"

definition decode_flags :: "u8 \<Rightarrow> row_flags result" where
  "decode_flags flags =
     (if flags AND NOT all_flags \<noteq> 0 then Inl (InvalidRowFlags flags all_flags)
      else if flags_contains flags (TOMBSTONE OR MERGE_OPERAND)
      then Inl (InvalidRowFlags flags all_flags)
      else Inr flags)"

definition get_timestamps :: "row_flags \<Rightarrow> bytes \<Rightarrow> ((i64 option \<times> i64 option) \<times> bytes) result" where
  "get_timestamps flags data =
     (if flags_contains flags (HAS_EXPIRE_TS OR HAS_CREATE_TS)
      then bind_result (get_i64 data) (\<lambda>(e, data).
           bind_result (get_i64 data) (\<lambda>(c, data). Inr ((Some e, Some c), data)))
      else if flags_contains flags HAS_EXPIRE_TS
      then bind_result (get_i64 data) (\<lambda>(e, data). Inr ((Some e, None), data))
      else if flags_contains flags HAS_CREATE_TS
      then bind_result (get_i64 data) (\<lambda>(c, data). Inr ((None, Some c), data))
      else Inr ((None, None), data))"

definition put_timestamps :: "row_flags \<Rightarrow> i64 option \<Rightarrow> i64 option \<Rightarrow> bytes result" where
  "put_timestamps flags expire_ts create_ts =
     bind_result
       (if flags_contains flags HAS_EXPIRE_TS
        then (case expire_ts of Some e \<Rightarrow> Inr (put_i64 e)
              | None \<Rightarrow> Inl (Panic ''expire_ts should be set with HAS_EXPIRE_TS''))
        else Inr []) (\<lambda>e.
     bind_result
       (if flags_contains flags HAS_CREATE_TS
        then (case create_ts of Some c \<Rightarrow> Inr (put_i64 c)
              | None \<Rightarrow> Inl (Panic ''create_ts should be set with HAS_CREATE_TS''))
        else Inr []) (\<lambda>c.
     Inr (e @ c)))"

subsection \<open>The V0 codec\<close>

record sst_row_entry =
  sre_key_prefix_len :: nat
  sre_key_suffix :: bytes
  sre_seq :: u64
  sre_expire_ts :: "i64 option"
  sre_create_ts :: "i64 option"
  sre_value :: value_deletable

definition sst_row_entry_new ::
    "nat \<Rightarrow> bytes \<Rightarrow> u64 \<Rightarrow> value_deletable \<Rightarrow> i64 option \<Rightarrow> i64 option \<Rightarrow> sst_row_entry result" where
  "sst_row_entry_new key_prefix_len key_suffix seq v create_ts expire_ts =
     assert_or (key_prefix_len \<le> 65535) ''key_prefix_len > u16''
     (assert_or (length key_suffix \<le> 65535) ''key_suffix.len() > u16''
     (assert_or (key_prefix_len + length key_suffix \<le> 65535)
        ''key_prefix_len + key_suffix.len() > u16''
     (assert_or (value_len v \<le> 4294967295) ''value.len() > u32''
     (Inr \<lparr>sre_key_prefix_len = key_prefix_len, sre_key_suffix = key_suffix, sre_seq = seq,
           sre_expire_ts = expire_ts, sre_create_ts = create_ts, sre_value = v\<rparr>))))"

definition sst_row_entry_flags :: "sst_row_entry \<Rightarrow> row_flags" where
  "sst_row_entry_flags row = row_flags_of (sre_value row) (sre_expire_ts row) (sre_create_ts row)"

definition sst_row_entry_size :: "sst_row_entry \<Rightarrow> nat" where
  "sst_row_entry_size row =
     2 + 2 + length (sre_key_suffix row) + 8 + 1
       + opt_size (sre_expire_ts row) + opt_size (sre_create_ts row)
       + (if is_tombstone (sre_value row) then 0 else 4 + value_len (sre_value row))"

definition restore_full_key :: "sst_row_entry \<Rightarrow> bytes \<Rightarrow> bytes result" where
  "restore_full_key row p =
     assert_or (sre_key_prefix_len row \<le> length p) ''range end index out of range for slice''
       (Inr (take (sre_key_prefix_len row) p @ sre_key_suffix row))"

definition estimate_encoded_size :: "nat \<Rightarrow> nat \<Rightarrow> nat" where
  "estimate_encoded_size entry_num estimated_entries_size =
     estimated_entries_size + (2 + 2 + 4 + 1) * entry_num"

definition sst_row_codec_v0_encode :: "bytes \<Rightarrow> sst_row_entry \<Rightarrow> bytes result" where
  "sst_row_codec_v0_encode output row =
     assert_or (sre_key_prefix_len row \<le> 65535) ''key_prefix_len > u16''
     (assert_or (length (sre_key_suffix row) \<le> 65535) ''key_suffix.len() > u16''
     (let flags = sst_row_entry_flags row;
          output = output @ put_u16 (of_nat (sre_key_prefix_len row))
                     @ put_u16 (of_nat (length (sre_key_suffix row)))
                     @ sre_key_suffix row @ put_u64 (sre_seq row) @ put_u8 flags
      in bind_result (put_timestamps flags (sre_expire_ts row) (sre_create_ts row)) (\<lambda>ts.
         case as_bytes (sre_value row) of
           Some v \<Rightarrow>
             assert_or (length v \<le> 4294967295) ''value len > u32''
               (Inr (output @ ts @ put_u32 (of_nat (length v)) @ v))
         | None \<Rightarrow> Inr (output @ ts))))"

definition sst_row_codec_v0_decode :: "bytes \<Rightarrow> (sst_row_entry \<times> bytes) result" where
  "sst_row_codec_v0_decode data =
     bind_result (get_u16 data) (\<lambda>(key_prefix_len, data).
     bind_result (get_u16 data) (\<lambda>(key_suffix_len, data).
     bind_result (copy_to_bytes (unat key_suffix_len) data) (\<lambda>(key_suffix, data).
     bind_result (get_u64 data) (\<lambda>(seq, data).
     bind_result (get_u8 data) (\<lambda>(flags, data).
     bind_result (decode_flags flags) (\<lambda>flags.
     bind_result (get_timestamps flags data) (\<lambda>((expire_ts, create_ts), data).
     if flags_contains flags TOMBSTONE
     then bind_result
            (sst_row_entry_new (unat key_prefix_len) key_suffix seq Tombstone create_ts None)
            (\<lambda>row. Inr (row, data))
     else bind_result (get_u32 data) (\<lambda>(value_len, data).
          bind_result (copy_to_bytes (unat value_len) data) (\<lambda>(v, _).
          Inr (\<lparr>sre_key_prefix_len = unat key_prefix_len, sre_key_suffix = key_suffix, sre_seq = seq,
                sre_expire_ts = expire_ts, sre_create_ts = create_ts,
                sre_value = (if flags_contains flags MERGE_OPERAND then Merge v else Value v)\<rparr>,
               data))))))))))"

subsection \<open>Varints\<close>

lemma drop_bit_7_less: "(0x80 :: u32) \<le> v \<Longrightarrow> unat (drop_bit 7 v) < unat v"
  by (simp add: word_le_nat_alt drop_bit_eq_div unat_div)

function encode_varint :: "u32 \<Rightarrow> bytes" where
  "encode_varint v =
     (if v \<ge> 0x80 then (ucast v OR 0x80) # encode_varint (drop_bit 7 v) else [ucast v])"
  by pat_completeness auto
termination
  by (relation "measure unat") (auto intro: drop_bit_7_less)

fun decode_varint_loop :: "u32 \<Rightarrow> nat \<Rightarrow> bytes \<Rightarrow> (u32 \<times> bytes) result" where
  "decode_varint_loop r shift [] = Inl (Panic ''advance out of bounds'')"
| "decode_varint_loop r shift (b # data) =
     (let r' = r OR push_bit (shift mod 32) (ucast (b AND 0x7F))
      in if b AND 0x80 = 0 then Inr (r', data) else decode_varint_loop r' (shift + 7) data)"

definition decode_varint :: "bytes \<Rightarrow> (u32 \<times> bytes) result" where
  "decode_varint data = decode_varint_loop 0 0 data"

function varint_len :: "u32 \<Rightarrow> nat" where
  "varint_len v = (if v \<ge> 0x80 then varint_len (drop_bit 7 v) + 1 else 1)"
  by pat_completeness auto
termination
  by (relation "measure unat") (auto intro: drop_bit_7_less)

declare encode_varint.simps [simp del] varint_len.simps [simp del]

subsection \<open>The V2 codec\<close>

record sst_row_entry_v2 =
  sre2_shared_bytes :: u32
  sre2_key_suffix :: bytes
  sre2_seq :: u64
  sre2_expire_ts :: "i64 option"
  sre2_create_ts :: "i64 option"
  sre2_value :: value_deletable

definition sst_row_entry_v2_new ::
    "u32 \<Rightarrow> bytes \<Rightarrow> u64 \<Rightarrow> value_deletable \<Rightarrow> i64 option \<Rightarrow> i64 option \<Rightarrow> sst_row_entry_v2" where
  "sst_row_entry_v2_new shared_bytes key_suffix seq v create_ts expire_ts =
     \<lparr>sre2_shared_bytes = shared_bytes, sre2_key_suffix = key_suffix, sre2_seq = seq,
      sre2_expire_ts = expire_ts, sre2_create_ts = create_ts, sre2_value = v\<rparr>"

definition sst_row_entry_v2_flags :: "sst_row_entry_v2 \<Rightarrow> row_flags" where
  "sst_row_entry_v2_flags row =
     row_flags_of (sre2_value row) (sre2_expire_ts row) (sre2_create_ts row)"

definition restore_full_key_v2 :: "sst_row_entry_v2 \<Rightarrow> bytes \<Rightarrow> bytes result" where
  "restore_full_key_v2 row previous_key =
     assert_or (unat (sre2_shared_bytes row) \<le> length previous_key)
       ''range end index out of range for slice''
       (Inr (take (unat (sre2_shared_bytes row)) previous_key @ sre2_key_suffix row))"

definition encoded_size_v2 :: "sst_row_entry_v2 \<Rightarrow> nat" where
  "encoded_size_v2 row =
     (let value_len = value_len (sre2_value row)
      in varint_len (sre2_shared_bytes row) + varint_len (of_nat (length (sre2_key_suffix row)))
           + varint_len (of_nat value_len) + length (sre2_key_suffix row) + value_len + 8 + 1
           + opt_size (sre2_expire_ts row) + opt_size (sre2_create_ts row))"

definition sst_row_codec_v2_encode :: "bytes \<Rightarrow> sst_row_entry_v2 \<Rightarrow> bytes result" where
  "sst_row_codec_v2_encode output row =
     (let flags = sst_row_entry_v2_flags row;
          output = output @ encode_varint (sre2_shared_bytes row)
                     @ encode_varint (of_nat (length (sre2_key_suffix row)))
                     @ encode_varint (of_nat (value_len (sre2_value row)))
                     @ sre2_key_suffix row
                     @ (case as_bytes (sre2_value row) of Some v \<Rightarrow> v | None \<Rightarrow> [])
                     @ put_u64 (sre2_seq row) @ put_u8 flags
      in bind_result (put_timestamps flags (sre2_expire_ts row) (sre2_create_ts row))
           (\<lambda>ts. Inr (output @ ts)))"

definition sst_row_codec_v2_decode :: "bytes \<Rightarrow> (sst_row_entry_v2 \<times> bytes) result" where
  "sst_row_codec_v2_decode data =
     bind_result (decode_varint data) (\<lambda>(shared_bytes, data).
     bind_result (decode_varint data) (\<lambda>(unshared_bytes, data).
     bind_result (decode_varint data) (\<lambda>(value_len, data).
     bind_result (copy_to_bytes (unat unshared_bytes) data) (\<lambda>(key_suffix, data).
     bind_result
       (if unat value_len > 0
        then bind_result (copy_to_bytes (unat value_len) data) (\<lambda>(v, data). Inr (Some v, data))
        else Inr (None, data)) (\<lambda>(value_bytes, data).
     bind_result (get_u64 data) (\<lambda>(seq, data).
     bind_result (get_u8 data) (\<lambda>(flags, data).
     bind_result (decode_flags flags) (\<lambda>flags.
     bind_result (get_timestamps flags data) (\<lambda>((expire_ts, create_ts), data).
     let bs = (case value_bytes of Some v \<Rightarrow> v | None \<Rightarrow> []);
         v = (if flags_contains flags TOMBSTONE then Tombstone
              else if flags_contains flags MERGE_OPERAND then Merge bs
              else Value bs)
     in Inr (\<lparr>sre2_shared_bytes = shared_bytes, sre2_key_suffix = key_suffix, sre2_seq = seq,
              sre2_expire_ts = expire_ts, sre2_create_ts = create_ts, sre2_value = v\<rparr>,
             data))))))))))"

definition decode_key_only :: "bytes \<Rightarrow> ((u32 \<times> bytes) \<times> bytes) result" where
  "decode_key_only data =
     bind_result (decode_varint data) (\<lambda>(shared_bytes, data).
     bind_result (decode_varint data) (\<lambda>(unshared_bytes, data).
     bind_result (decode_varint data) (\<lambda>(_, data).
     bind_result (copy_to_bytes (unat unshared_bytes) data) (\<lambda>(key_suffix, data).
     Inr ((shared_bytes, key_suffix), data)))))"

subsection \<open>Accessor lemmas\<close>

lemma length_be_bytes [simp]: "length (be_bytes n x) = n"
  by (induction n x rule: be_bytes.induct) auto

lemma be_val_snoc: "be_val (xs @ [b]) = be_val xs * 256 + unat b"
  by (simp add: be_val_def)

lemma be_val_be_bytes: "be_val (be_bytes n x) = x mod 256 ^ n"
proof (induction n x rule: be_bytes.induct)
  case (2 n x)
  have "unat (of_nat (x mod 256) :: byte) = x mod 256"
    by (simp add: unat_of_nat)
  with 2 show ?case
    by (simp add: be_val_snoc mod_mult2_eq)
qed (simp add: be_val_def)

lemma copy_to_bytes_append [simp]:
  "n = length bs \<Longrightarrow> copy_to_bytes n (bs @ rest) = Inr (bs, rest)"
  by (simp add: copy_to_bytes_def)

lemma get_be_put: "get_be n (be_bytes n x @ rest) = Inr (of_nat (x mod 256 ^ n), rest)"
  by (simp add: get_be_def be_val_be_bytes)

lemma unat_mod_word: "LENGTH('a) = 8 * n \<Longrightarrow> unat (x :: 'a::len word) mod 256 ^ n = unat x"
proof -
  assume "LENGTH('a) = 8 * n"
  then have "(256 :: nat) ^ n = 2 ^ LENGTH('a)" by (simp add: power_mult)
  then show ?thesis using unsigned_less [of x] by simp
qed

lemma get_put_words [simp]:
  "get_u8 (put_u8 a @ rest) = Inr (a, rest)"
  "get_u16 (put_u16 b @ rest) = Inr (b, rest)"
  "get_u32 (put_u32 c @ rest) = Inr (c, rest)"
  "get_u64 (put_u64 d @ rest) = Inr (d, rest)"
  "get_i64 (put_i64 e @ rest) = Inr (e, rest)"
proof -
  show "get_u8 (put_u8 a @ rest) = Inr (a, rest)"
    by (simp add: get_u8_def put_u8_def get_be_def copy_to_bytes_def be_val_def)
  show "get_u16 (put_u16 b @ rest) = Inr (b, rest)"
    using unat_mod_word [of 2 b] by (simp add: get_u16_def put_u16_def get_be_put)
  show "get_u32 (put_u32 c @ rest) = Inr (c, rest)"
    using unat_mod_word [of 4 c] by (simp add: get_u32_def put_u32_def get_be_put)
  show "get_u64 (put_u64 d @ rest) = Inr (d, rest)" "get_i64 (put_i64 e @ rest) = Inr (e, rest)"
    using unat_mod_word [of 8 d] unat_mod_word [of 8 e]
    by (simp_all add: get_u64_def put_u64_def get_i64_def put_i64_def get_be_put)
qed

lemma length_put [simp]:
  "length (put_u8 a) = 1" "length (put_u16 b) = 2" "length (put_u32 c) = 4"
  "length (put_u64 d) = 8" "length (put_i64 e) = 8"
  by (simp_all add: put_u8_def put_u16_def put_u32_def put_u64_def put_i64_def)

subsection \<open>Flags and timestamps\<close>

lemmas flag_defs = TOMBSTONE_def HAS_EXPIRE_TS_def HAS_CREATE_TS_def MERGE_OPERAND_def
  all_flags_def flags_contains_def

lemma row_flags_contains [codec_simps]:
  "flags_contains (row_flags_of v e c) TOMBSTONE \<longleftrightarrow> v = Tombstone"
  "flags_contains (row_flags_of v e c) MERGE_OPERAND \<longleftrightarrow> (\<exists>b. v = Merge b)"
  "flags_contains (row_flags_of v e c) HAS_EXPIRE_TS \<longleftrightarrow> e \<noteq> None"
  "flags_contains (row_flags_of v e c) HAS_CREATE_TS \<longleftrightarrow> c \<noteq> None"
  "flags_contains (row_flags_of v e c) (HAS_EXPIRE_TS OR HAS_CREATE_TS) \<longleftrightarrow> e \<noteq> None \<and> c \<noteq> None"
  by (cases v; cases e; cases c; simp add: row_flags_of_def flag_defs)+

lemma decode_flags_of [codec_simps]: "decode_flags (row_flags_of v e c) = Inr (row_flags_of v e c)"
  by (cases v; cases e; cases c; simp add: row_flags_of_def decode_flags_def flag_defs)

lemma put_timestamps_of [codec_simps]:
  "put_timestamps (row_flags_of v e c) e c =
     Inr ((case e of Some t \<Rightarrow> put_i64 t | None \<Rightarrow> []) @ (case c of Some t \<Rightarrow> put_i64 t | None \<Rightarrow> []))"
  by (cases e; cases c) (auto simp: put_timestamps_def codec_simps)

lemma get_timestamps_of [codec_simps]:
  "get_timestamps (row_flags_of v e c)
     ((case e of Some t \<Rightarrow> put_i64 t | None \<Rightarrow> []) @ (case c of Some t \<Rightarrow> put_i64 t | None \<Rightarrow> []) @ rest)
   = Inr ((e, c), rest)"
  by (cases e; cases c) (auto simp: get_timestamps_def codec_simps)

lemma length_opt_ts [codec_simps]:
  "length (case ts of Some t \<Rightarrow> put_i64 t | None \<Rightarrow> []) = opt_size ts"
  by (cases ts) (auto simp: opt_size_def)

subsection \<open>V0 round trip\<close>

definition v0_bytes :: "sst_row_entry \<Rightarrow> bytes" where
  "v0_bytes row =
     put_u16 (of_nat (sre_key_prefix_len row)) @ put_u16 (of_nat (length (sre_key_suffix row)))
       @ sre_key_suffix row @ put_u64 (sre_seq row) @ put_u8 (sst_row_entry_flags row)
       @ (case sre_expire_ts row of Some t \<Rightarrow> put_i64 t | None \<Rightarrow> [])
       @ (case sre_create_ts row of Some t \<Rightarrow> put_i64 t | None \<Rightarrow> [])
       @ (case as_bytes (sre_value row) of Some v \<Rightarrow> put_u32 (of_nat (length v)) @ v | None \<Rightarrow> [])"

definition v0_fits :: "sst_row_entry \<Rightarrow> bool" where
  "v0_fits row \<longleftrightarrow> sre_key_prefix_len row + length (sre_key_suffix row) \<le> 65535
     \<and> value_len (sre_value row) \<le> 4294967295"

definition v0_stored :: "sst_row_entry \<Rightarrow> sst_row_entry" where
  "v0_stored row =
     (if is_tombstone (sre_value row) then row\<lparr>sre_expire_ts := None\<rparr> else row)"

lemma sst_row_entry_new_Inr [result_simps]:
  "sst_row_entry_new pl ks seq v c e = Inr row \<longleftrightarrow>
     row = \<lparr>sre_key_prefix_len = pl, sre_key_suffix = ks, sre_seq = seq, sre_expire_ts = e,
            sre_create_ts = c, sre_value = v\<rparr> \<and> v0_fits row"
  by (auto simp: sst_row_entry_new_def assert_or_eq_Inr v0_fits_def)

lemma v0_encode:
  "v0_fits row \<Longrightarrow> sst_row_codec_v0_encode out row = Inr (out @ v0_bytes row)"
  by (cases "sre_value row")
    (auto simp: sst_row_codec_v0_encode_def v0_fits_def v0_bytes_def sst_row_entry_flags_def
      codec_simps Let_def)

lemma length_v0_bytes: "length (v0_bytes row) = sst_row_entry_size row"
  by (cases "sre_value row")
    (auto simp: v0_bytes_def sst_row_entry_size_def codec_simps)

lemma unat_of_nat_small [simp]:
  "n \<le> 65535 \<Longrightarrow> unat (of_nat n :: u16) = n"
  "n \<le> 4294967295 \<Longrightarrow> unat (of_nat n :: u32) = n"
  by (simp_all add: unat_of_nat)

lemma v0_decode:
  assumes "v0_fits row"
  shows "sst_row_codec_v0_decode (v0_bytes row @ rest) =
           Inr (v0_stored row, case as_bytes (sre_value row) of Some b \<Rightarrow> b @ rest | None \<Rightarrow> rest)"
proof (cases row)
  case (fields pl ks seq e c v)
  with assms have fits: "pl \<le> 65535" "length ks \<le> 65535" "pl + length ks \<le> 65535"
    "value_len v \<le> 4294967295"
    by (auto simp: v0_fits_def)
  note defs = sst_row_codec_v0_decode_def v0_bytes_def v0_stored_def sst_row_entry_flags_def fields
  show ?thesis
  proof (cases v)
    case Tombstone
    with fits show ?thesis by (simp add: defs codec_simps sst_row_entry_new_def)
  next
    case (Value b)
    with fits show ?thesis by (simp add: defs) (simp add: codec_simps)
  next
    case (Merge b)
    with fits show ?thesis by (simp add: defs) (simp add: codec_simps)
  qed
qed

text \<open>
  C15: Every row that \<open>SstRowEntry::new\<close> accepts is encoded by \<open>SstRowCodecV0::encode\<close> without a
  panic, in exactly \<open>size\<close> bytes appended to the output, and \<open>SstRowCodecV0::decode\<close> of these bytes,
  whatever follows them in the block, gives the row back, except that a tombstone comes back
  without its expiry.
\<close>
theorem sst_row_codec_v0_round_trip:
  assumes "sst_row_entry_new key_prefix_len key_suffix seq v create_ts expire_ts = Inr row"
  shows "\<exists>bs. (\<forall>out. sst_row_codec_v0_encode out row = Inr (out @ bs))
           \<and> length bs = sst_row_entry_size row
           \<and> (\<forall>rest. \<exists>d. sst_row_codec_v0_decode (bs @ rest)
                 = Inr (row\<lparr>sre_expire_ts := if is_tombstone v then None else expire_ts\<rparr>, d))"
proof -
  from assms have fits: "v0_fits row" and v: "sre_value row = v" "sre_expire_ts row = expire_ts"
    by (auto simp: result_simps)
  from v have "row\<lparr>sre_expire_ts := if is_tombstone v then None else expire_ts\<rparr> = v0_stored row"
    by (auto simp: v0_stored_def)
  with v0_decode [OF fits] v0_encode [OF fits] length_v0_bytes [of row] show ?thesis
    by (intro exI [of _ "v0_bytes row"]) simp
qed

text \<open>Witness of C15: a merge operand with both timestamps and a three byte shared prefix.\<close>
theorem sst_row_codec_v0_round_trip_witness:
  "\<exists>row bs. sst_row_entry_new 3 [1, 2] 7 (Merge [9]) (Some 5) (Some 6) = Inr row
     \<and> sst_row_codec_v0_encode [] row = Inr bs \<and> length bs = 36
     \<and> (\<exists>d. sst_row_codec_v0_decode bs = Inr (row, d))"
proof -
  define row where "row = \<lparr>sre_key_prefix_len = 3, sre_key_suffix = [1, 2], sre_seq = 7,
    sre_expire_ts = Some 6, sre_create_ts = Some 5, sre_value = Merge [9]\<rparr>"
  have new: "sst_row_entry_new 3 [1, 2] 7 (Merge [9]) (Some 5) (Some 6) = Inr row"
    by (simp add: sst_row_entry_new_def row_def)
  from sst_row_codec_v0_round_trip [OF new] obtain bs where
    enc: "\<forall>out. sst_row_codec_v0_encode out row = Inr (out @ bs)"
    and len: "length bs = sst_row_entry_size row"
    and dec: "\<forall>rest. \<exists>d. sst_row_codec_v0_decode (bs @ rest) =
                Inr (row\<lparr>sre_expire_ts := if is_tombstone (Merge [9]) then None else Some 6\<rparr>, d)"
    by blast
  have "row\<lparr>sre_expire_ts := if is_tombstone (Merge [9]) then None else Some 6\<rparr> = row"
    "sst_row_entry_size row = 36"
    by (simp_all add: row_def sst_row_entry_size_def opt_size_def)
  with new len spec [OF enc, of "[]"] spec [OF dec, of "[]"] show ?thesis by auto
qed

subsection \<open>Varint round trip\<close>

lemma bit_0x80: "bit (0x80 :: int) n \<longleftrightarrow> n = 7" "bit (0x80 :: nat) n \<longleftrightarrow> n = 7"
proof -
  have "(0x80 :: int) = 2 ^ 7" "(0x80 :: nat) = 2 ^ 7" by simp_all
  then show "bit (0x80 :: int) n \<longleftrightarrow> n = 7" "bit (0x80 :: nat) n \<longleftrightarrow> n = 7"
    by (simp_all only: bit_exp_iff) auto
qed

lemma bit_0x7F: "bit (0x7F :: int) n \<longleftrightarrow> n < 7" "bit (0x7F :: nat) n \<longleftrightarrow> n < 7"
proof -
  have "(0x7F :: int) = mask 7" "(0x7F :: nat) = mask 7" by (simp_all add: mask_eq_exp_minus_1)
  then show "bit (0x7F :: int) n \<longleftrightarrow> n < 7" "bit (0x7F :: nat) n \<longleftrightarrow> n < 7"
    by (simp_all only: bit_mask_iff) auto
qed

lemma low_bits_7: "ucast ((ucast v OR 0x80) AND 0x7F :: u8) = take_bit 7 (v :: u32)"
  by (rule bit_word_eqI) (auto simp: bit_0x80 bit_0x7F bit_simps)

lemma take_bit_7_small: "v < 0x80 \<Longrightarrow> take_bit 7 (v :: u32) = v"
  by (simp add: word_unat_eq_iff unsigned_take_bit_eq take_bit_eq_mod word_less_nat_alt unat_mod)

lemma low_bits_7_small: "v < 0x80 \<Longrightarrow> ucast (ucast v AND 0x7F :: u8) = (v :: u32)"
proof -
  assume "v < 0x80"
  moreover have "ucast (ucast v AND 0x7F :: u8) = take_bit 7 v"
    by (rule bit_word_eqI) (auto simp: bit_0x7F bit_simps)
  ultimately show ?thesis by (simp only: take_bit_7_small)
qed

lemma high_bit_set: "(ucast (v :: u32) OR 0x80 :: u8) AND 0x80 \<noteq> 0"
proof
  assume "(ucast v OR 0x80 :: u8) AND 0x80 = 0"
  then have "\<not> bit ((ucast v OR 0x80 :: u8) AND 0x80) 7" by simp
  then show False by (simp add: bit_0x80 bit_simps)
qed

lemma high_bit_clear: "v < 0x80 \<Longrightarrow> (ucast (v :: u32) :: u8) AND 0x80 = 0"
proof -
  assume "v < 0x80"
  then have "\<not> bit v 7" by (metis take_bit_7_small bit_take_bit_iff less_irrefl)
  then show ?thesis
    by (intro bit_word_eqI) (auto simp: bit_0x80 bit_simps)
qed

lemma push_bit_split:
  "push_bit s (take_bit 7 v) OR push_bit (s + 7) (drop_bit 7 v) = push_bit s (v :: u32)"
proof (rule bit_word_eqI)
  fix n
  have "n \<ge> s + 7 \<Longrightarrow> 7 + (n - (s + 7)) = n - s" by simp
  then show "bit (push_bit s (take_bit 7 v) OR push_bit (s + 7) (drop_bit 7 v)) n
             \<longleftrightarrow> bit (push_bit s v) n"
    by (cases "s + 7 \<le> n") (auto simp: bit_simps)
qed

lemma decode_varint_loop_encode:
  "s < 32 \<Longrightarrow> unat v < 2 ^ (32 - s) \<Longrightarrow>
   decode_varint_loop r s (encode_varint v @ rest) = Inr (r OR push_bit s v, rest)"
proof (induction v arbitrary: r s rule: encode_varint.induct)
  case (1 v)
  show ?case
  proof (cases "0x80 \<le> v")
    case True
    with 1 have "(2 :: nat) ^ 7 < 2 ^ (32 - s)" by (simp add: word_le_nat_alt)
    then have s: "s + 7 < 32"
      using power_strict_increasing_iff [of "2 :: nat" 7 "32 - s"] by simp
    then have "32 - s = 32 - (s + 7) + 7" by simp
    then have "(2 :: nat) ^ (32 - s) = 2 ^ (32 - (s + 7)) * 2 ^ 7"
      by (simp only: power_add)
    with 1 have "unat (drop_bit 7 v) < 2 ^ (32 - (s + 7))"
      by (simp add: drop_bit_eq_div unat_div less_mult_imp_div_less)
    note IH = "1.IH" [OF True s this]
    have "decode_varint_loop r s (encode_varint v @ rest) =
        decode_varint_loop (r OR push_bit s (take_bit 7 v)) (s + 7) (encode_varint (drop_bit 7 v) @ rest)"
      using True s by (subst encode_varint.simps) (simp add: low_bits_7 high_bit_set Let_def)
    also have "\<dots> = Inr (r OR push_bit s v, rest)"
      unfolding IH by (simp only: or.assoc push_bit_split)
    finally show ?thesis .
  next
    case False
    with "1.prems" show ?thesis
      by (simp add: encode_varint.simps [of v] low_bits_7_small high_bit_clear)
  qed
qed

lemma decode_encode_varint [simp]: "decode_varint (encode_varint v @ rest) = Inr (v, rest)"
proof -
  have "unat v < 2 ^ (32 - 0)" using unsigned_less [of v] by simp
  from decode_varint_loop_encode [OF _ this, of 0 rest] show ?thesis
    by (simp add: decode_varint_def)
qed

lemma length_encode_varint: "length (encode_varint v) = varint_len v"
proof (induction v rule: encode_varint.induct)
  case (1 v)
  then show ?case by (cases "0x80 \<le> v") (simp_all add: encode_varint.simps [of v] varint_len.simps [of v])
qed

subsection \<open>V2 round trip\<close>

definition v2_bytes :: "sst_row_entry_v2 \<Rightarrow> bytes" where
  "v2_bytes row =
     encode_varint (sre2_shared_bytes row) @ encode_varint (of_nat (length (sre2_key_suffix row)))
       @ encode_varint (of_nat (value_len (sre2_value row))) @ sre2_key_suffix row
       @ (case as_bytes (sre2_value row) of Some v \<Rightarrow> v | None \<Rightarrow> [])
       @ put_u64 (sre2_seq row) @ put_u8 (sst_row_entry_v2_flags row)
       @ (case sre2_expire_ts row of Some t \<Rightarrow> put_i64 t | None \<Rightarrow> [])
       @ (case sre2_create_ts row of Some t \<Rightarrow> put_i64 t | None \<Rightarrow> [])"

definition v2_fits :: "sst_row_entry_v2 \<Rightarrow> bool" where
  "v2_fits row \<longleftrightarrow> length (sre2_key_suffix row) \<le> 4294967295 \<and> value_len (sre2_value row) \<le> 4294967295"

lemma v2_encode: "sst_row_codec_v2_encode out row = Inr (out @ v2_bytes row)"
  by (simp add: sst_row_codec_v2_encode_def v2_bytes_def sst_row_entry_v2_flags_def codec_simps Let_def)

lemma length_v2_bytes: "length (v2_bytes row) = encoded_size_v2 row"
  by (cases "sre2_value row")
    (auto simp: v2_bytes_def encoded_size_v2_def codec_simps length_encode_varint Let_def)

lemma v2_decode:
  assumes "v2_fits row"
  shows "sst_row_codec_v2_decode (v2_bytes row @ rest) = Inr (row, rest)"
proof (cases row)
  case (fields sh ks seq e c v)
  with assms have fits: "length ks \<le> 4294967295" "value_len v \<le> 4294967295"
    by (auto simp: v2_fits_def)
  note defs = sst_row_codec_v2_decode_def v2_bytes_def sst_row_entry_v2_flags_def fields
  show ?thesis
  proof (cases v)
    case Tombstone
    with fits show ?thesis by (simp add: defs) (simp add: codec_simps)
  next
    case (Value b)
    with fits show ?thesis by (cases "b = []") (simp add: defs, simp add: codec_simps)+
  next
    case (Merge b)
    with fits show ?thesis by (cases "b = []") (simp add: defs, simp add: codec_simps)+
  qed
qed

lemma v2_decode_key_only:
  "v2_fits row \<Longrightarrow>
   \<exists>d. decode_key_only (v2_bytes row @ rest) = Inr ((sre2_shared_bytes row, sre2_key_suffix row), d)"
  by (simp add: decode_key_only_def v2_bytes_def v2_fits_def)

text \<open>
  C16: \<open>SstRowCodecV2\<close>: the encoding of a row has exactly \<open>encoded_size\<close> bytes and never fails;
  for key suffixes and values whose length fits a \<open>u32\<close>, \<open>decode\<close> returns the identical row and
  leaves the buffer at the first byte after it, and \<open>decode_key_only\<close> returns the shared length
  and the suffix that a full decode returns.
\<close>
theorem sst_row_codec_v2_round_trip:
  "\<exists>bs. (\<forall>out. sst_row_codec_v2_encode out row = Inr (out @ bs))
     \<and> length bs = encoded_size_v2 row
     \<and> (length (sre2_key_suffix row) < 2 ^ 32 \<and> value_len (sre2_value row) < 2 ^ 32 \<longrightarrow>
        (\<forall>rest. sst_row_codec_v2_decode (bs @ rest) = Inr (row, rest)
          \<and> (\<exists>d. decode_key_only (bs @ rest) = Inr ((sre2_shared_bytes row, sre2_key_suffix row), d))))"
proof (rule exI [of _ "v2_bytes row"], intro conjI impI allI)
  fix rest
  assume "length (sre2_key_suffix row) < 2 ^ 32 \<and> value_len (sre2_value row) < 2 ^ 32"
  then have fits: "v2_fits row" by (simp add: v2_fits_def)
  show "sst_row_codec_v2_decode (v2_bytes row @ rest) = Inr (row, rest)"
    "\<exists>d. decode_key_only (v2_bytes row @ rest) = Inr ((sre2_shared_bytes row, sre2_key_suffix row), d)"
    by (rule v2_decode [OF fits], rule v2_decode_key_only [OF fits])
qed (simp_all add: v2_encode length_v2_bytes)

text \<open>Witness of C16: a tombstone that shares 300 bytes with its predecessor and has an expiry.\<close>
theorem sst_row_codec_v2_round_trip_witness:
  "\<exists>bs. sst_row_codec_v2_encode [] (sst_row_entry_v2_new 300 [1, 2] 7 Tombstone None (Some 6)) = Inr bs
     \<and> sst_row_codec_v2_decode bs = Inr (sst_row_entry_v2_new 300 [1, 2] 7 Tombstone None (Some 6), [])"
proof -
  let ?row = "sst_row_entry_v2_new 300 [1, 2] 7 Tombstone None (Some 6)"
  have small: "length (sre2_key_suffix ?row) < 2 ^ 32 \<and> value_len (sre2_value ?row) < 2 ^ 32"
    by (simp add: sst_row_entry_v2_new_def)
  from sst_row_codec_v2_round_trip [of ?row] small obtain bs where
    enc: "\<forall>out. sst_row_codec_v2_encode out ?row = Inr (out @ bs)"
    and dec: "\<forall>rest. sst_row_codec_v2_decode (bs @ rest) = Inr (?row, rest)"
    by blast
  from spec [OF enc, of "[]"] spec [OF dec, of "[]"] show ?thesis by simp
qed

end
