(* ===== verification/Iter.thy ===== *)
theory Iter
  imports KeyRange Types
begin

section \<open>The iterator contract: \<open>iter.rs\<close>\<close>

text \<open>
  Every iterator of the read path implements the trait \<open>RowEntryIterator\<close>. An iterator is a state
  with a \<open>next\<close> (a row or the end, and the new state) and a \<open>seek\<close>. \<open>yields\<close> says which rows the
  calls of \<open>next\<close> return, in order, before the end. The locales state what a client may rely on;
  each iterator of the development interprets them.
\<close>

datatype iteration_order = Ascending | Descending

fun precedes :: "iteration_order \<Rightarrow> 'k::linorder \<Rightarrow> 'k \<Rightarrow> bool" where
  "precedes Ascending a b = (a < b)"
| "precedes Descending a b = (b < a)"

fun yields :: "('s \<Rightarrow> ('a option \<times> 's) result) \<Rightarrow> 's \<Rightarrow> 'a list \<Rightarrow> bool" where
  "yields nxt s [] = (case nxt s of Inr (None, _) \<Rightarrow> True | _ \<Rightarrow> False)"
| "yields nxt s (x # xs) =
     (case nxt s of Inr (Some y, s') \<Rightarrow> y = x \<and> yields nxt s' xs | _ \<Rightarrow> False)"

lemma yields_unique: "yields nxt s xs \<Longrightarrow> yields nxt s ys \<Longrightarrow> xs = ys"
proof (induction xs arbitrary: s ys)
  case Nil
  then show ?case by (cases ys) (auto split: sum.splits prod.splits option.splits)
next
  case (Cons x xs)
  from Cons.prems(1) obtain s' where s': "nxt s = Inr (Some x, s')" "yields nxt s' xs"
    by (auto split: sum.splits prod.splits option.splits)
  with Cons.prems(2) obtain zs where "ys = x # zs" "yields nxt s' zs"
    by (cases ys) auto
  with Cons.IH [OF s'(2)] show ?case by simp
qed

locale row_iterator =
  fixes inv :: "'s \<Rightarrow> bool"
    and rows :: "'s \<Rightarrow> 'a list"
    and nxt :: "'s \<Rightarrow> ('a option \<times> 's) result"
  assumes next_end: "inv s \<Longrightarrow> rows s = [] \<Longrightarrow> \<exists>s'. nxt s = Inr (None, s') \<and> inv s' \<and> rows s' = []"
    and next_row: "inv s \<Longrightarrow> rows s = x # xs \<Longrightarrow>
                     \<exists>s'. nxt s = Inr (Some x, s') \<and> inv s' \<and> rows s' = xs"
begin

lemma yields_rows: "inv s \<Longrightarrow> yields nxt s (rows s)"
proof (induction "rows s" arbitrary: s)
  case Nil
  with next_end [of s] obtain s' where "nxt s = Inr (None, s')" by auto
  then have "yields nxt s []" by simp
  then show ?case by (simp only: Nil.hyps)
next
  case (Cons x xs)
  from next_row [of s x xs] Cons.prems Cons.hyps(2) obtain s' where
    "nxt s = Inr (Some x, s')" "inv s'" "rows s' = xs" by auto
  moreover from this have "yields nxt s' xs" using Cons.hyps(1) [of s'] by simp
  ultimately have "yields nxt s (x # xs)" by simp
  then show ?case by (simp only: Cons.hyps(2))
qed

lemma yields_iff: "inv s \<Longrightarrow> yields nxt s xs \<longleftrightarrow> xs = rows s"
  by (rule iffI, erule yields_unique, erule yields_rows, simp add: yields_rows)

end

text \<open>
  \<open>seek\<close> repositions the iterator at the first row of \<open>base\<close> that does not come before the sought
  key; \<open>base\<close> is what is left of the iterator, or the whole block for the block iterators, which
  can be repositioned backwards.
\<close>

locale seekable_iterator = row_iterator inv rows nxt
  for inv :: "'s \<Rightarrow> bool" and rows :: "'s \<Rightarrow> 'a list" and nxt +
  fixes seek :: "'s \<Rightarrow> 'k::linorder \<Rightarrow> 's result"
    and key :: "'a \<Rightarrow> 'k"
    and order :: "'s \<Rightarrow> iteration_order"
    and base :: "'s \<Rightarrow> 'a list"
  assumes seek_rows: "inv s \<Longrightarrow>
    \<exists>s'. seek s k = Inr s' \<and> inv s' \<and> rows s' = dropWhile (\<lambda>e. precedes (order s) (key e) k) (base s)"
begin

lemma seek_yields:
  "inv s \<Longrightarrow> \<exists>s'. seek s k = Inr s'
     \<and> yields nxt s' (dropWhile (\<lambda>e. precedes (order s) (key e) k) (base s))"
proof -
  assume "inv s"
  from seek_rows [OF this, of k] obtain s' where "seek s k = Inr s'" "inv s'"
    and rows: "rows s' = dropWhile (\<lambda>e. precedes (order s) (key e) k) (base s)" by blast
  with yields_rows [of s'] show ?thesis unfolding rows by blast
qed

end

text \<open>
  What the merging iterator needs of its sources: rows in iteration order, newest version of a key
  first, and a \<open>seek\<close> that only moves forwards. \<open>behind s k\<close> says that every row already returned
  comes before \<open>k\<close>, the only situation in which a source is asked to seek to \<open>k\<close>. Descending
  scans are never asked to seek (\<open>DbIterator::seek\<close> refuses them).
\<close>

definition row_le :: "iteration_order \<Rightarrow> row_entry \<Rightarrow> row_entry \<Rightarrow> bool" where
  "row_le ord' a b \<longleftrightarrow>
     (if re_key a = re_key b then re_seq b \<le> re_seq a else precedes ord' (re_key a) (re_key b))"

lemma precedes_trans: "precedes ord' a b \<Longrightarrow> precedes ord' b c \<Longrightarrow> precedes ord' a c"
  by (cases ord') auto

lemma precedes_irrefl [simp]: "\<not> precedes ord' a a"
  by (cases ord') auto

lemma precedes_total: "precedes ord' a b \<or> a = b \<or> precedes ord' b a"
  by (cases ord') auto

lemma precedes_asym: "precedes ord' a b \<Longrightarrow> \<not> precedes ord' b a"
  by (cases ord') auto

lemma row_le_refl [simp]: "row_le ord' a a"
  by (simp add: row_le_def)

lemma row_le_trans: "row_le ord' a b \<Longrightarrow> row_le ord' b c \<Longrightarrow> row_le ord' a c"
  by (auto simp: row_le_def dest: precedes_trans precedes_asym split: if_splits)

lemma row_le_total: "row_le ord' a b \<or> row_le ord' b a"
  using precedes_total [of ord' "re_key a" "re_key b"] by (auto simp: row_le_def)

locale forward_iterator = row_iterator inv rows nxt
  for inv :: "'s \<Rightarrow> bool" and rows :: "'s \<Rightarrow> row_entry list" and nxt +
  fixes seek :: "'s \<Rightarrow> bytes \<Rightarrow> 's result"
    and ord' :: iteration_order
    and behind :: "'s \<Rightarrow> bytes \<Rightarrow> bool"
  assumes rows_sorted: "inv s \<Longrightarrow> sorted_wrt (row_le ord') (rows s)"
    and next_behind: "inv s \<Longrightarrow> rows s = x # xs \<Longrightarrow> nxt s = Inr (Some x, s') \<Longrightarrow>
                        precedes ord' (re_key x) k \<Longrightarrow> behind s' k"
    and seek_forward: "ord' = Ascending \<Longrightarrow> inv s \<Longrightarrow> behind s k \<Longrightarrow>
      \<exists>s'. seek s k = Inr s' \<and> inv s' \<and> rows s' = dropWhile (\<lambda>e. precedes ord' (re_key e) k) (rows s)"

text \<open>
  A source that is still to be initialised: \<open>init\<close> brings a \<open>ready\<close> source into a state from which
  it returns \<open>source_rows\<close>.
\<close>

locale row_source = forward_iterator inv rows nxt seek ord' behind
  for inv :: "'s \<Rightarrow> bool" and rows and nxt and seek and ord' and behind +
  fixes init :: "'s \<Rightarrow> 's result"
    and ready :: "'s \<Rightarrow> bool"
    and source_rows :: "'s \<Rightarrow> row_entry list"
  assumes init_ready: "ready s \<Longrightarrow> \<exists>s'. init s = Inr s' \<and> inv s' \<and> rows s' = source_rows s"

subsection \<open>Sorted rows\<close>

definition row_id :: "row_entry \<Rightarrow> bytes \<times> u64" where
  "row_id e = (re_key e, re_seq e)"

abbreviation distinct_rows :: "row_entry list \<Rightarrow> bool" where
  "distinct_rows rs \<equiv> distinct (map row_id rs)"

lemma sorted_dropWhile_filter:
  "sorted_wrt (row_le ord') xs \<Longrightarrow>
   dropWhile (\<lambda>e. precedes ord' (re_key e) k) xs = filter (\<lambda>e. \<not> precedes ord' (re_key e) k) xs"
proof (rule dropWhile_filter, erule sorted_wrt_mono_rel [rotated])
  fix x y assume "row_le ord' x y"
  then show "\<not> precedes ord' (re_key x) k \<longrightarrow> \<not> precedes ord' (re_key y) k"
    by (auto simp: row_le_def dest: precedes_trans split: if_splits)
qed

lemma row_le_antisym: "row_le ord' a b \<Longrightarrow> row_le ord' b a \<Longrightarrow> row_id a = row_id b"
  by (auto simp: row_le_def row_id_def dest: precedes_asym split: if_splits)

lemma sorted_rows_unique:
  "sorted_wrt (row_le ord') xs \<Longrightarrow> sorted_wrt (row_le ord') ys \<Longrightarrow> mset xs = mset ys \<Longrightarrow>
   distinct_rows xs \<Longrightarrow> xs = ys"
proof (induction xs arbitrary: ys)
  case Nil
  then show ?case by simp
next
  case (Cons x xs)
  then obtain y ys' where ys: "ys = y # ys'" by (cases ys) auto
  have sets: "set (x # xs) = set (y # ys')" using Cons.prems(3) ys by (metis set_mset_mset)
  have "x = y"
  proof (rule ccontr)
    assume "x \<noteq> y"
    with sets have mem: "x \<in> set ys'" "y \<in> set xs" by auto
    with Cons.prems(1,2) ys have "row_le ord' x y" "row_le ord' y x" by auto
    then have "row_id x = row_id y" by (rule row_le_antisym)
    with mem(2) Cons.prems(4) show False by (auto simp: image_iff)
  qed
  moreover have "xs = ys'"
    by (rule Cons.IH) (use Cons.prems ys \<open>x = y\<close> in auto)
  ultimately show ?case using ys by simp
qed

fun insort_row :: "iteration_order \<Rightarrow> row_entry \<Rightarrow> row_entry list \<Rightarrow> row_entry list" where
  "insort_row ord' x [] = [x]"
| "insort_row ord' x (y # ys) = (if row_le ord' x y then x # y # ys else y # insort_row ord' x ys)"

definition sort_rows :: "iteration_order \<Rightarrow> row_entry list \<Rightarrow> row_entry list" where
  "sort_rows ord' rs = foldr (insort_row ord') rs []"

lemma mset_insort_row [simp]: "mset (insort_row ord' x xs) = add_mset x (mset xs)"
  by (induction xs) auto

lemma mset_sort_rows [simp]: "mset (sort_rows ord' rs) = mset rs"
  by (induction rs) (auto simp: sort_rows_def)

lemma set_insort_row [simp]: "set (insort_row ord' x xs) = insert x (set xs)"
  by (induction xs) auto

lemma set_sort_rows [simp]: "set (sort_rows ord' rs) = set rs"
  by (metis mset_sort_rows set_mset_mset)

lemma sorted_insort_row:
  "sorted_wrt (row_le ord') xs \<Longrightarrow> sorted_wrt (row_le ord') (insort_row ord' x xs)"
proof (induction xs)
  case (Cons y ys)
  show ?case
  proof (cases "row_le ord' x y")
    case True
    then have "\<forall>z\<in>set ys. row_le ord' x z"
      using Cons.prems row_le_trans [OF True] by auto
    with True Cons.prems show ?thesis by simp
  next
    case False
    then have "row_le ord' y x" using row_le_total by blast
    with False Cons show ?thesis by simp
  qed
qed simp

lemma sorted_sort_rows: "sorted_wrt (row_le ord') (sort_rows ord' rs)"
  by (induction rs) (auto simp: sort_rows_def sorted_insort_row)

lemma distinct_rows_mset: "mset xs = mset ys \<Longrightarrow> distinct_rows xs \<longleftrightarrow> distinct_rows ys"
  by (metis mset_eq_imp_distinct_iff mset_map)

lemma sort_rows_eq:
  "sorted_wrt (row_le ord') xs \<Longrightarrow> mset xs = mset rs \<Longrightarrow> distinct_rows rs \<Longrightarrow> xs = sort_rows ord' rs"
  using distinct_rows_mset [of xs rs] by (intro sorted_rows_unique [OF _ sorted_sort_rows]) simp_all

end
