(* ===== verification/Block.thy ===== *)
theory Block
  imports RowCodec Iter
begin

section \<open>Data blocks, format V1: \<open>format/block.rs\<close> and \<open>block_iterator.rs\<close>\<close>

text \<open>
  A block is the concatenation of encoded rows with a table of their offsets. The builder strips
  from each key the prefix it shares with the first key of the block; the iterator decodes rows
  at the offsets, in either direction, and seeks by binary search. The lemmas show that iterating
  a built block returns what was added, that a seek positions where a linear search would, that
  the block survives its byte encoding, and how large a block can get.
\<close>

subsection \<open>Definitions\<close>

record block =
  blk_data :: bytes
  blk_offsets :: "u16 list"

definition block_encode :: "block \<Rightarrow> bytes" where
  "block_encode b =
     blk_data b @ concat (map put_u16 (blk_offsets b)) @ put_u16 (of_nat (length (blk_offsets b)))"

fun decode_offsets :: "bytes \<Rightarrow> u16 list result" where
  "decode_offsets [] = Inr []"
| "decode_offsets [x] = Inl (Panic ''advance out of bounds'')"
| "decode_offsets (x # y # rest) =
     bind_result (get_u16 [x, y]) (\<lambda>(off, _).
     bind_result (decode_offsets rest) (\<lambda>offs. Inr (off # offs)))"

definition block_decode :: "bytes \<Rightarrow> block result" where
  "block_decode data =
     assert_or (2 \<le> length data) ''attempt to subtract with overflow''
     (bind_result (get_u16 (drop (length data - 2) data)) (\<lambda>(n, _).
      let entry_offsets_len = unat n in
      assert_or (entry_offsets_len * 2 \<le> length data - 2) ''attempt to subtract with overflow''
      (let data_end = length data - 2 - entry_offsets_len * 2;
           offsets_raw = take (length data - 2 - data_end) (drop data_end data)
       in bind_result (decode_offsets offsets_raw) (\<lambda>offsets.
          Inr \<lparr>blk_data = take data_end data, blk_offsets = offsets\<rparr>))))"

definition block_size :: "block \<Rightarrow> nat" where
  "block_size b = length (blk_data b) + length (blk_offsets b) * 2 + 2"

definition estimate_size_in_sst :: "nat \<Rightarrow> nat \<Rightarrow> nat \<Rightarrow> nat \<Rightarrow> bool \<Rightarrow> nat result" where
  "estimate_size_in_sst entry_num entries_size_encoded number_of_blocks bs block_alignment =
     (let encoded_size = entries_size_encoded + 2 * entry_num + 4 * number_of_blocks
      in if \<not> block_alignment then Inr encoded_size
         else let d = max number_of_blocks 1;
                  average_block_size = (encoded_size + (d - 1)) div d
              in assert_or (bs \<noteq> 0) ''attempt to calculate the remainder with a divisor of zero''
                   (Inr (number_of_blocks * (((average_block_size + (bs - 1)) div bs) * bs))))"

record block_builder_v1 =
  bb1_offsets :: "u16 list"
  bb1_data :: bytes
  bb1_block_size :: nat
  bb1_first_key :: bytes

function chunks_exact :: "nat \<Rightarrow> 'a list \<Rightarrow> 'a list list" where
  "chunks_exact n xs =
     (if n = 0 \<or> length xs < n then [] else take n xs # chunks_exact n (drop n xs))"
  by pat_completeness auto
termination
  by (relation "measure (\<lambda>(n, xs). length xs)") auto

definition count_equal :: "'a list \<Rightarrow> 'a list \<Rightarrow> nat" where
  "count_equal xs ys = length (takeWhile (\<lambda>(a, b). a = b) (zip xs ys))"

definition compute_prefix_chunks :: "nat \<Rightarrow> bytes \<Rightarrow> bytes \<Rightarrow> nat" where
  "compute_prefix_chunks n lhs rhs =
     (let off = count_equal (chunks_exact n lhs) (chunks_exact n rhs) * n
      in off + count_equal (drop off lhs) (drop off rhs))"

definition compute_prefix :: "bytes \<Rightarrow> bytes \<Rightarrow> nat" where
  "compute_prefix lhs rhs = compute_prefix_chunks 128 lhs rhs"

definition block_builder_v1_new :: "nat \<Rightarrow> block_builder_v1" where
  "block_builder_v1_new bs =
     \<lparr>bb1_offsets = [], bb1_data = [], bb1_block_size = bs, bb1_first_key = []\<rparr>"

definition block_builder_v1_size :: "block_builder_v1 \<Rightarrow> nat" where
  "block_builder_v1_size b = 2 + length (bb1_offsets b) * 2 + length (bb1_data b)"

definition block_builder_v1_is_empty :: "block_builder_v1 \<Rightarrow> bool" where
  "block_builder_v1_is_empty b \<longleftrightarrow> bb1_offsets b = []"

definition block_builder_v1_would_fit :: "block_builder_v1 \<Rightarrow> row_entry \<Rightarrow> bool" where
  "block_builder_v1_would_fit b entry \<longleftrightarrow>
     (if block_builder_v1_is_empty b then True
      else let key_prefix_len = compute_prefix (bb1_first_key b) (re_key entry)
           in block_builder_v1_size b + encoded_size entry key_prefix_len \<le> bb1_block_size b)"

definition block_builder_v1_add ::
    "block_builder_v1 \<Rightarrow> row_entry \<Rightarrow> (bool \<times> block_builder_v1) result" where
  "block_builder_v1_add b entry =
     (if re_key entry = [] then Inl EmptyKey
      else if \<not> block_builder_v1_would_fit b entry then Inr (False, b)
      else let key_prefix_len = compute_prefix (bb1_first_key b) (re_key entry);
               key_suffix = drop key_prefix_len (re_key entry)
           in bind_result
                (sst_row_entry_new key_prefix_len key_suffix (re_seq entry) (re_value entry)
                   (re_create_ts entry) (re_expire_ts entry)) (\<lambda>row.
              bind_result (sst_row_codec_v0_encode (bb1_data b) row) (\<lambda>data.
              Inr (True,
                b\<lparr>bb1_offsets := bb1_offsets b @ [of_nat (length (bb1_data b))],
                  bb1_data := data,
                  bb1_first_key := (if bb1_first_key b = [] then re_key entry
                                    else bb1_first_key b)\<rparr>))))"

definition block_builder_v1_build :: "block_builder_v1 \<Rightarrow> block result" where
  "block_builder_v1_build b =
     (if block_builder_v1_is_empty b then Inl EmptyBlock
      else Inr \<lparr>blk_data = bb1_data b, blk_offsets = bb1_offsets b\<rparr>)"

record block_iterator =
  bi_block :: block
  bi_off_off :: nat
  bi_first_key :: bytes
  bi_ordering :: iteration_order

definition decode_first_key :: "block \<Rightarrow> bytes result" where
  "decode_first_key b =
     bind_result (get_u16 (blk_data b)) (\<lambda>(overlap_len, buf).
     assert_or (unat overlap_len = 0) ''first key overlap should be 0''
     (bind_result (get_u16 buf) (\<lambda>(key_len, buf).
      bind_result (copy_to_bytes (unat key_len) buf) (\<lambda>(first_key, _). Inr first_key))))"

definition block_iterator_new :: "block \<Rightarrow> iteration_order \<Rightarrow> block_iterator result" where
  "block_iterator_new b order =
     bind_result (decode_first_key b) (\<lambda>first_key.
     Inr \<lparr>bi_block = b, bi_off_off = 0, bi_first_key = first_key, bi_ordering = order\<rparr>)"

definition block_iterator_advance :: "block_iterator \<Rightarrow> block_iterator" where
  "block_iterator_advance it = it\<lparr>bi_off_off := bi_off_off it + 1\<rparr>"

definition block_iterator_is_empty :: "block_iterator \<Rightarrow> bool" where
  "block_iterator_is_empty it \<longleftrightarrow> bi_off_off it \<ge> length (blk_offsets (bi_block it))"

definition data_slice_from :: "bytes \<Rightarrow> nat \<Rightarrow> bytes result" where
  "data_slice_from data off =
     assert_or (off \<le> length data) ''range start must not be greater than end'' (Inr (drop off data))"

definition load_at_current_off :: "block_iterator \<Rightarrow> row_entry option result" where
  "load_at_current_off it =
     (if block_iterator_is_empty it then Inr None
      else let off_off = (case bi_ordering it of
                            Ascending \<Rightarrow> bi_off_off it
                          | Descending \<Rightarrow> length (blk_offsets (bi_block it)) - 1 - bi_off_off it);
               off = unat (blk_offsets (bi_block it) ! off_off)
           in bind_result (data_slice_from (blk_data (bi_block it)) off) (\<lambda>cursor.
              bind_result (sst_row_codec_v0_decode cursor) (\<lambda>(sst_row, _).
              bind_result (restore_full_key sst_row (bi_first_key it)) (\<lambda>key.
              Inr (Some (row_entry_new key (sre_value sst_row) (sre_seq sst_row)
                     (sre_create_ts sst_row) (sre_expire_ts sst_row)))))))"

definition block_iterator_next :: "block_iterator \<Rightarrow> (row_entry option \<times> block_iterator) result" where
  "block_iterator_next it =
     bind_result (load_at_current_off it) (\<lambda>r.
     case r of None \<Rightarrow> Inr (None, it) | Some e \<Rightarrow> Inr (Some e, block_iterator_advance it))"

definition decode_key_at_index :: "block_iterator \<Rightarrow> nat \<Rightarrow> bytes result" where
  "decode_key_at_index it index =
     assert_or (index < length (blk_offsets (bi_block it))) ''index out of bounds''
     (bind_result
        (data_slice_from (blk_data (bi_block it)) (unat (blk_offsets (bi_block it) ! index))) (\<lambda>cursor.
      bind_result (get_u16 cursor) (\<lambda>(key_prefix_len, cursor).
      bind_result (get_u16 cursor) (\<lambda>(key_suffix_len, cursor).
      bind_result (copy_to_bytes (unat key_suffix_len) cursor) (\<lambda>(key_suffix, _).
      assert_or (unat key_prefix_len \<le> length (bi_first_key it))
        ''range end index out of range for slice''
        (Inr (take (unat key_prefix_len) (bi_first_key it) @ key_suffix)))))))"

text \<open>The binary search loop of \<open>seek\<close>; \<open>goes_right\<close> is the comparison that moves \<open>low\<close> up.\<close>

function seek_loop :: "(nat \<Rightarrow> bytes result) \<Rightarrow> (bytes \<Rightarrow> bool) \<Rightarrow> nat \<Rightarrow> nat \<Rightarrow> nat result" where
  "seek_loop key_at goes_right low high =
     (if low < high
      then let mid = low + (high - low) div 2
           in bind_result (key_at mid) (\<lambda>mid_key.
              if goes_right mid_key then seek_loop key_at goes_right (mid + 1) high
              else seek_loop key_at goes_right low mid)
      else Inr low)"
  by pat_completeness auto
termination
  by (relation "measure (\<lambda>(_, _, low, high). high - low)") auto

definition block_iterator_seek :: "block_iterator \<Rightarrow> bytes \<Rightarrow> block_iterator result" where
  "block_iterator_seek it next_key =
     (let num_entries = length (blk_offsets (bi_block it))
      in if num_entries = 0 then Inr it
         else case bi_ordering it of
           Ascending \<Rightarrow>
             bind_result (seek_loop (decode_key_at_index it) (\<lambda>k. k < next_key) 0 num_entries) (\<lambda>low.
             Inr (it\<lparr>bi_off_off := low\<rparr>))
         | Descending \<Rightarrow>
             bind_result (seek_loop (decode_key_at_index it) (\<lambda>k. k \<le> next_key) 0 num_entries) (\<lambda>low.
             Inr (it\<lparr>bi_off_off := if low > 0 then num_entries - 1 - (low - 1) else num_entries\<rparr>)))"

declare chunks_exact.simps [simp del] seek_loop.simps [simp del]

subsection \<open>The common prefix of two keys\<close>

lemma count_equal_lcp: "count_equal xs ys = length (longest_common_prefix xs ys)"
  by (induction xs ys rule: longest_common_prefix.induct) (auto simp: count_equal_def)

lemma length_lcp_drop:
  "take n xs = take n ys \<Longrightarrow> n \<le> length xs \<Longrightarrow> n \<le> length ys \<Longrightarrow>
   length (longest_common_prefix xs ys) = n + length (longest_common_prefix (drop n xs) (drop n ys))"
proof (induction n arbitrary: xs ys)
  case (Suc n)
  then show ?case by (cases xs; cases ys) auto
qed simp

lemma equal_chunks_take:
  "c \<le> count_equal (chunks_exact n xs) (chunks_exact n ys) \<Longrightarrow>
   take (c * n) xs = take (c * n) ys \<and> c * n \<le> length xs \<and> c * n \<le> length ys"
proof (induction c arbitrary: xs ys)
  case (Suc c)
  from Suc.prems have "chunks_exact n xs \<noteq> []" "chunks_exact n ys \<noteq> []"
    by (auto simp: count_equal_def)
  then have len: "n \<noteq> 0" "n \<le> length xs" "n \<le> length ys"
    and xs: "chunks_exact n xs = take n xs # chunks_exact n (drop n xs)"
    and ys: "chunks_exact n ys = take n ys # chunks_exact n (drop n ys)"
    by (auto simp: chunks_exact.simps [of n xs] chunks_exact.simps [of n ys] split: if_splits)
  from Suc.prems have eq: "take n xs = take n ys"
    and "c \<le> count_equal (chunks_exact n (drop n xs)) (chunks_exact n (drop n ys))"
    unfolding xs ys by (auto simp: count_equal_def split: if_splits)
  with Suc.IH [of "drop n xs" "drop n ys"] len show ?case
    by (auto simp: take_add)
qed simp

lemma compute_prefix_chunks_lcp:
  "compute_prefix_chunks n lhs rhs = length (longest_common_prefix lhs rhs)"
proof -
  let ?off = "count_equal (chunks_exact n lhs) (chunks_exact n rhs) * n"
  from equal_chunks_take [OF order_refl, of n lhs rhs]
  have "length (longest_common_prefix lhs rhs)
          = ?off + length (longest_common_prefix (drop ?off lhs) (drop ?off rhs))"
    by (intro length_lcp_drop) auto
  then show ?thesis by (simp add: compute_prefix_chunks_def count_equal_lcp [where xs = "drop _ _"] Let_def)
qed

lemma compute_prefix_lcp: "compute_prefix lhs rhs = length (longest_common_prefix lhs rhs)"
  by (simp add: compute_prefix_def compute_prefix_chunks_lcp)

lemma compute_prefix_Nil [simp]: "compute_prefix [] ys = 0"
  by (simp add: compute_prefix_lcp)

lemma compute_prefix_le: "compute_prefix xs ys \<le> length xs" "compute_prefix xs ys \<le> length ys"
  by (simp_all add: compute_prefix_lcp prefix_length_le longest_common_prefix_prefix1
      longest_common_prefix_prefix2)

lemma take_compute_prefix: "take (compute_prefix xs ys) xs = take (compute_prefix xs ys) ys"
  by (metis compute_prefix_lcp longest_common_prefix_prefix1 longest_common_prefix_prefix2
      prefix_def append_eq_conv_conj)

lemma restore_compute_prefix:
  "take (compute_prefix fk k) fk @ drop (compute_prefix fk k) k = k"
  by (metis take_compute_prefix append_take_drop_id)

text \<open>
  C30: \<open>compute_prefix\<close>, which compares 128-byte chunks before single bytes, returns the length of
  the longest common prefix of the two keys: the prefixes of that length agree, and no longer ones do.
\<close>
theorem compute_prefix_longest:
  "take (compute_prefix lhs rhs) lhs = take (compute_prefix lhs rhs) rhs
   \<and> compute_prefix lhs rhs \<le> length lhs \<and> compute_prefix lhs rhs \<le> length rhs
   \<and> (\<forall>n. n \<le> length lhs \<and> n \<le> length rhs \<and> take n lhs = take n rhs \<longrightarrow> n \<le> compute_prefix lhs rhs)"
proof (intro conjI allI impI)
  fix n assume "n \<le> length lhs \<and> n \<le> length rhs \<and> take n lhs = take n rhs"
  then show "n \<le> compute_prefix lhs rhs"
    using length_lcp_drop [of n lhs rhs] by (simp add: compute_prefix_lcp)
qed (rule take_compute_prefix compute_prefix_le)+

text \<open>Witness of C30: two keys that differ in their third byte.\<close>
theorem compute_prefix_longest_witness:
  "compute_prefix [1, 2, 3, 4] [1, 2, 9] = 2 \<and> 1 \<le> compute_prefix [1, 2, 3, 4] [1, 2, 9]"
  using compute_prefix_longest [of "[1, 2, 3, 4]" "[1, 2, 9]"]
  by (auto simp: compute_prefix_def compute_prefix_chunks_def chunks_exact.simps count_equal_def)

subsection \<open>Binary search\<close>

lemma seek_loop_partition:
  assumes key_at: "\<And>i. i < length ks \<Longrightarrow> key_at i = Inr (ks ! i)"
    and mono: "\<And>i j. i \<le> j \<Longrightarrow> j < length ks \<Longrightarrow> P (ks ! j) \<Longrightarrow> P (ks ! i)"
  shows "low \<le> high \<Longrightarrow> high \<le> length ks \<Longrightarrow>
    (\<And>i. i < low \<Longrightarrow> P (ks ! i)) \<Longrightarrow> (high < length ks \<Longrightarrow> \<not> P (ks ! high)) \<Longrightarrow>
    seek_loop key_at P low high = Inr (length (takeWhile P ks))"
proof (induction "high - low" arbitrary: low high rule: less_induct)
  case less
  show ?case
  proof (cases "low < high")
    case True
    let ?mid = "low + (high - low) div 2"
    from True have mid: "low \<le> ?mid" "?mid < high" by auto
    with less.prems have "?mid < length ks" by simp
    with key_at have key: "key_at ?mid = Inr (ks ! ?mid)" by blast
    show ?thesis
    proof (cases "P (ks ! ?mid)")
      case True
      have "seek_loop key_at P (?mid + 1) high = Inr (length (takeWhile P ks))"
      proof (rule less.hyps)
        fix i assume "i < ?mid + 1"
        with True \<open>?mid < length ks\<close> show "P (ks ! i)" using mono [of i ?mid] by simp
      qed (use less.prems mid in auto)
      with True key \<open>low < high\<close> show ?thesis by (simp add: seek_loop.simps [of _ _ low high] Let_def)
    next
      case False
      have "seek_loop key_at P low ?mid = Inr (length (takeWhile P ks))"
        by (rule less.hyps) (use less.prems mid False in auto)
      with False key \<open>low < high\<close> show ?thesis by (simp add: seek_loop.simps [of _ _ low high] Let_def)
    qed
  next
    case False
    with less.prems have "low = high" by simp
    with less.prems have "takeWhile P ks = take low ks"
      by (intro takeWhile_eq_take_P_nth) auto
    with False \<open>low = high\<close> less.prems(2) show ?thesis
      by (simp add: seek_loop.simps [of key_at P high high])
  qed
qed

subsection \<open>The block iterator meets the iterator contract\<close>

text \<open>
  \<open>block_iterator_ok\<close>: every offset of the block decodes, and the key-only decode of the binary
  search agrees with the decoded row. \<open>block_iterator_entries\<close> are the rows in iteration order.
\<close>

definition num_entries :: "block_iterator \<Rightarrow> nat" where
  "num_entries it = length (blk_offsets (bi_block it))"

definition entry_at :: "block_iterator \<Rightarrow> nat \<Rightarrow> row_entry" where
  "entry_at it i = the (projr (load_at_current_off (it\<lparr>bi_ordering := Ascending, bi_off_off := i\<rparr>)))"

definition block_entries :: "block_iterator \<Rightarrow> row_entry list" where
  "block_entries it = map (entry_at it) [0..<num_entries it]"

definition block_iterator_entries :: "block_iterator \<Rightarrow> row_entry list" where
  "block_iterator_entries it =
     (case bi_ordering it of Ascending \<Rightarrow> block_entries it | Descending \<Rightarrow> rev (block_entries it))"

definition block_iterator_rows :: "block_iterator \<Rightarrow> row_entry list" where
  "block_iterator_rows it = drop (bi_off_off it) (block_iterator_entries it)"

definition block_iterator_ok :: "block_iterator \<Rightarrow> bool" where
  "block_iterator_ok it \<longleftrightarrow>
     (\<forall>i<num_entries it.
        load_at_current_off (it\<lparr>bi_ordering := Ascending, bi_off_off := i\<rparr>) = Inr (Some (entry_at it i))
        \<and> decode_key_at_index it i = Inr (re_key (entry_at it i)))"

definition block_iterator_sorted :: "block_iterator \<Rightarrow> bool" where
  "block_iterator_sorted it \<longleftrightarrow> block_iterator_ok it \<and> sorted (map re_key (block_entries it))"

lemma length_block_entries [simp]:
  "length (block_entries it) = num_entries it" "length (block_iterator_entries it) = num_entries it"
  by (auto simp: block_entries_def block_iterator_entries_def split: iteration_order.splits)

lemma entry_reposition [simp]:
  "num_entries (it\<lparr>bi_off_off := i\<rparr>) = num_entries it"
  "entry_at (it\<lparr>bi_off_off := i\<rparr>) = entry_at it"
  "decode_key_at_index (it\<lparr>bi_off_off := i\<rparr>) = decode_key_at_index it"
  by (simp_all add: fun_eq_iff num_entries_def entry_at_def decode_key_at_index_def
      cong del: bind_result_weak_cong)

lemma block_entries_reposition [simp]: "block_entries (it\<lparr>bi_off_off := i\<rparr>) = block_entries it"
  by (simp add: block_entries_def)

lemma block_iterator_reposition [simp]:
  "block_iterator_entries (it\<lparr>bi_off_off := i\<rparr>) = block_iterator_entries it"
  "block_iterator_ok (it\<lparr>bi_off_off := i\<rparr>) = block_iterator_ok it"
  by (simp_all add: block_iterator_entries_def block_iterator_ok_def split: iteration_order.split)

lemma block_iterator_sorted_reposition [simp]:
  "block_iterator_sorted (it\<lparr>bi_off_off := i\<rparr>) = block_iterator_sorted it"
  by (simp add: block_iterator_sorted_def)

lemma load_at_current_off_ordered:
  "bi_off_off it < num_entries it \<Longrightarrow>
   load_at_current_off it =
     load_at_current_off (it\<lparr>bi_ordering := Ascending, bi_off_off :=
       (case bi_ordering it of Ascending \<Rightarrow> bi_off_off it
        | Descending \<Rightarrow> num_entries it - 1 - bi_off_off it)\<rparr>)"
  by (cases "bi_ordering it")
    (auto simp: load_at_current_off_def block_iterator_is_empty_def num_entries_def Let_def
      cong del: bind_result_weak_cong)

lemma load_at_current_off_entry:
  assumes "block_iterator_ok it" "bi_off_off it < num_entries it"
  shows "load_at_current_off it = Inr (Some (block_iterator_entries it ! bi_off_off it))"
  using assms load_at_current_off_ordered [OF assms(2)]
  by (cases "bi_ordering it")
    (auto simp: block_iterator_ok_def block_iterator_entries_def block_entries_def rev_nth)

lemma block_iterator_next_end:
  "num_entries it \<le> bi_off_off it \<Longrightarrow> block_iterator_next it = Inr (None, it)"
  by (simp add: block_iterator_next_def load_at_current_off_def block_iterator_is_empty_def num_entries_def)

lemma block_iterator_next_entry:
  assumes "block_iterator_ok it" "block_iterator_rows it = x # xs"
  shows "block_iterator_next it = Inr (Some x, block_iterator_advance it)"
    and "block_iterator_rows (block_iterator_advance it) = xs"
proof -
  from assms(2) have off: "bi_off_off it < num_entries it"
    by (cases "bi_off_off it < num_entries it") (auto simp: block_iterator_rows_def)
  with assms(2) have "x = block_iterator_entries it ! bi_off_off it"
    and "xs = drop (Suc (bi_off_off it)) (block_iterator_entries it)"
    by (auto simp: block_iterator_rows_def Cons_nth_drop_Suc [symmetric])
  with load_at_current_off_entry [OF assms(1) off]
  show "block_iterator_next it = Inr (Some x, block_iterator_advance it)"
    "block_iterator_rows (block_iterator_advance it) = xs"
    by (simp_all add: block_iterator_next_def block_iterator_advance_def block_iterator_rows_def)
qed

interpretation bi: row_iterator block_iterator_ok block_iterator_rows block_iterator_next
proof
  fix it
  assume "block_iterator_ok it" "block_iterator_rows it = []"
  then show "\<exists>it'. block_iterator_next it = Inr (None, it') \<and> block_iterator_ok it'
               \<and> block_iterator_rows it' = []"
    by (auto simp: block_iterator_rows_def block_iterator_next_end)
next
  fix it x xs
  assume "block_iterator_ok it" "block_iterator_rows it = x # xs"
  from block_iterator_next_entry [OF this] this(1)
  show "\<exists>it'. block_iterator_next it = Inr (Some x, it') \<and> block_iterator_ok it'
          \<and> block_iterator_rows it' = xs"
    by (auto simp: block_iterator_advance_def)
qed

lemma seek_loop_block:
  assumes "block_iterator_ok it"
    and mono: "\<And>i j. i \<le> j \<Longrightarrow> j < num_entries it \<Longrightarrow> P (re_key (entry_at it j)) \<Longrightarrow> P (re_key (entry_at it i))"
  shows "seek_loop (decode_key_at_index it) P 0 (num_entries it)
           = Inr (length (takeWhile (\<lambda>e. P (re_key e)) (block_entries it)))"
proof -
  have "seek_loop (decode_key_at_index it) P 0 (length (map re_key (block_entries it)))
          = Inr (length (takeWhile P (map re_key (block_entries it))))"
    using assms
    by (intro seek_loop_partition) (auto simp: block_entries_def block_iterator_ok_def)
  then show ?thesis by (simp add: takeWhile_map comp_def)
qed

lemma dropWhile_rev_takeWhile:
  assumes "\<And>i j. i \<le> j \<Longrightarrow> j < length xs \<Longrightarrow> P (xs ! j) \<Longrightarrow> P (xs ! i)"
  shows "dropWhile (\<lambda>x. \<not> P x) (rev xs) = rev (takeWhile P xs)"
  using assms
proof (induction xs rule: rev_induct)
  case (snoc x xs)
  show ?case
  proof (cases "P x")
    case True
    have "\<forall>y\<in>set xs. P y"
    proof
      fix y assume "y \<in> set xs"
      then obtain i where "i < length xs" "y = xs ! i" by (auto simp: in_set_conv_nth)
      with snoc.prems [of i "length xs"] True show "P y" by (simp add: nth_append)
    qed
    with True show ?thesis by simp
  next
    case False
    have "dropWhile (\<lambda>x. \<not> P x) (rev xs) = rev (takeWhile P xs)"
    proof (rule snoc.IH)
      fix i j assume "i \<le> j" "j < length xs" "P (xs ! j)"
      with snoc.prems [of i j] show "P (xs ! i)" by (simp add: nth_append)
    qed
    with False show ?thesis by (simp add: takeWhile_append takeWhile_eq_all_conv)
  qed
qed simp

lemma block_iterator_seek_rows:
  assumes "block_iterator_sorted it"
  shows "\<exists>it'. block_iterator_seek it k = Inr it' \<and> block_iterator_sorted it'
     \<and> block_iterator_rows it' =
         dropWhile (\<lambda>e. precedes (bi_ordering it) (re_key e) k) (block_iterator_entries it)"
proof (cases "num_entries it = 0")
  case True
  then have "block_iterator_seek it k = Inr it" by (simp add: block_iterator_seek_def num_entries_def)
  moreover from True have "block_iterator_entries it = []" by (simp flip: length_0_conv)
  ultimately show ?thesis using assms True by (simp add: block_iterator_rows_def)
next
  case False
  from assms have ok: "block_iterator_ok it" and sorted: "sorted (map re_key (block_entries it))"
    by (simp_all add: block_iterator_sorted_def)
  have le: "re_key (entry_at it i) \<le> re_key (entry_at it j)" if "i \<le> j" "j < num_entries it" for i j
    using sorted_nth_mono [OF sorted, of i j] that by (simp add: block_entries_def)
  show ?thesis
  proof (cases "bi_ordering it")
    case Ascending
    have "seek_loop (decode_key_at_index it) (\<lambda>x. x < k) 0 (num_entries it)
            = Inr (length (takeWhile (\<lambda>e. re_key e < k) (block_entries it)))"
      by (rule seek_loop_block [OF ok]) (use le in \<open>blast intro: order_le_less_trans\<close>)
    with Ascending False assms show ?thesis
      by (auto simp: block_iterator_seek_def num_entries_def [symmetric] block_iterator_rows_def
          block_iterator_entries_def dropWhile_eq_drop)
  next
    case Descending
    let ?low = "length (takeWhile (\<lambda>e. re_key e \<le> k) (block_entries it))"
    have "seek_loop (decode_key_at_index it) (\<lambda>x. x \<le> k) 0 (num_entries it) = Inr ?low"
      by (rule seek_loop_block [OF ok]) (use le in \<open>blast intro: order_trans\<close>)
    moreover have low: "?low \<le> num_entries it"
      using length_takeWhile_le [of "\<lambda>e. re_key e \<le> k" "block_entries it"] by simp
    ultimately have seek: "block_iterator_seek it k = Inr (it\<lparr>bi_off_off := num_entries it - ?low\<rparr>)"
      using Descending False
      by (cases "takeWhile (\<lambda>e. re_key e \<le> k) (block_entries it)")
        (auto simp: block_iterator_seek_def num_entries_def [symmetric] Let_def)
    have "drop (num_entries it - ?low) (rev (block_entries it)) = rev (take ?low (block_entries it))"
      using low by (simp add: drop_rev)
    also have "take ?low (block_entries it) = takeWhile (\<lambda>e. re_key e \<le> k) (block_entries it)"
      by (metis takeWhile_eq_take)
    also have "rev \<dots> = dropWhile (\<lambda>e. \<not> re_key e \<le> k) (rev (block_entries it))"
      by (rule dropWhile_rev_takeWhile [symmetric])
        (use le in \<open>auto simp: block_entries_def intro: order_trans\<close>)
    finally show ?thesis
      using seek Descending assms by (simp add: block_iterator_rows_def block_iterator_entries_def not_le)
  qed
qed

interpretation bis: seekable_iterator block_iterator_sorted block_iterator_rows block_iterator_next
  block_iterator_seek re_key bi_ordering block_iterator_entries
proof
  fix it
  assume "block_iterator_sorted it" "block_iterator_rows it = []"
  then show "\<exists>it'. block_iterator_next it = Inr (None, it') \<and> block_iterator_sorted it'
               \<and> block_iterator_rows it' = []"
    by (auto simp: block_iterator_rows_def block_iterator_next_end)
next
  fix it x xs
  assume sorted: "block_iterator_sorted it" and rows: "block_iterator_rows it = x # xs"
  then have "block_iterator_ok it" by (simp add: block_iterator_sorted_def)
  from block_iterator_next_entry [OF this rows] sorted
  show "\<exists>it'. block_iterator_next it = Inr (Some x, it') \<and> block_iterator_sorted it'
          \<and> block_iterator_rows it' = xs"
    by (auto simp: block_iterator_advance_def)
qed (rule block_iterator_seek_rows)

subsection \<open>The builder\<close>

text \<open>
  \<open>v1_built n b es\<close>: \<open>b\<close> is a builder of block size \<open>n\<close> that has accepted exactly the entries \<open>es\<close>.
  A rejected entry leaves the builder as it was.
\<close>

inductive v1_built :: "nat \<Rightarrow> block_builder_v1 \<Rightarrow> row_entry list \<Rightarrow> bool" for n where
  v1_built_new: "v1_built n (block_builder_v1_new n) []"
| v1_built_add: "v1_built n b es \<Longrightarrow> block_builder_v1_add b e = Inr (True, b') \<Longrightarrow> v1_built n b' (es @ [e])"

definition v1_row :: "bytes \<Rightarrow> row_entry \<Rightarrow> sst_row_entry" where
  "v1_row fk e =
     \<lparr>sre_key_prefix_len = compute_prefix fk (re_key e),
      sre_key_suffix = drop (compute_prefix fk (re_key e)) (re_key e),
      sre_seq = re_seq e, sre_expire_ts = re_expire_ts e, sre_create_ts = re_create_ts e,
      sre_value = re_value e\<rparr>"

definition v1_rows :: "row_entry list \<Rightarrow> sst_row_entry list" where
  "v1_rows es = (case es of [] \<Rightarrow> [] | e # es' \<Rightarrow> v1_row [] e # map (v1_row (re_key e)) es')"

definition row_offset :: "('a \<Rightarrow> bytes) \<Rightarrow> 'a list \<Rightarrow> nat \<Rightarrow> nat" where
  "row_offset enc rs i = length (concat (map enc (take i rs)))"

text \<open>What a block stores of an entry: the V0 codec drops the expiry of a tombstone.\<close>

definition stored_entry :: "row_entry \<Rightarrow> row_entry" where
  "stored_entry e = (if is_tombstone (re_value e) then e\<lparr>re_expire_ts := None\<rparr> else e)"

lemma v1_rows_snoc:
  "v1_rows (es @ [e]) = v1_rows es @ [v1_row (if es = [] then [] else re_key (hd es)) e]"
  by (cases es) (auto simp: v1_rows_def)

lemma length_v1_rows [simp]: "length (v1_rows es) = length es"
  by (cases es) (auto simp: v1_rows_def)

lemma encoded_size_v1_row:
  "sst_row_entry_size (v1_row fk e) = encoded_size e (compute_prefix fk (re_key e))"
  by (simp add: v1_row_def sst_row_entry_size_def encoded_size_def)

definition v1_inv :: "nat \<Rightarrow> block_builder_v1 \<Rightarrow> row_entry list \<Rightarrow> bool" where
  "v1_inv n b es \<longleftrightarrow>
     bb1_block_size b = n
     \<and> bb1_first_key b = (if es = [] then [] else re_key (hd es))
     \<and> (\<forall>e\<in>set es. re_key e \<noteq> [])
     \<and> bb1_data b = concat (map v0_bytes (v1_rows es))
     \<and> list_all v0_fits (v1_rows es)
     \<and> bb1_offsets b = map (\<lambda>i. of_nat (row_offset v0_bytes (v1_rows es) i)) [0..<length es]
     \<and> (\<forall>i<length es. 0 < i \<longrightarrow> row_offset v0_bytes (v1_rows es) i + 17 \<le> n)
     \<and> (1 < length es \<longrightarrow> block_builder_v1_size b \<le> n + 2)"

lemma v1_add_Inr:
  "block_builder_v1_add b e = Inr (True, b') \<longleftrightarrow>
     re_key e \<noteq> [] \<and> block_builder_v1_would_fit b e \<and> v0_fits (v1_row (bb1_first_key b) e)
     \<and> b' = b\<lparr>bb1_offsets := bb1_offsets b @ [of_nat (length (bb1_data b))],
              bb1_data := bb1_data b @ v0_bytes (v1_row (bb1_first_key b) e),
              bb1_first_key := (if bb1_first_key b = [] then re_key e else bb1_first_key b)\<rparr>"
  by (auto simp: block_builder_v1_add_def bind_result_eq_Inr Let_def result_simps v1_row_def v0_encode)

lemma row_offset_simps [simp]:
  "row_offset enc rs 0 = 0"
  "i \<le> length rs \<Longrightarrow> row_offset enc (rs @ [r]) i = row_offset enc rs i"
  "row_offset enc rs (length rs) = length (concat (map enc rs))"
  by (simp_all add: row_offset_def)

lemma drop_row_offset:
  "i < length rs \<Longrightarrow>
   drop (row_offset enc rs i) (concat (map enc rs)) = enc (rs ! i) @ concat (map enc (drop (Suc i) rs))"
proof -
  assume "i < length rs"
  then have "rs = take i rs @ rs ! i # drop (Suc i) rs" by (rule id_take_nth_drop)
  then have "concat (map enc rs)
               = concat (map enc (take i rs)) @ enc (rs ! i) @ concat (map enc (drop (Suc i) rs))"
    by (metis concat.simps(2) concat_append list.simps(9) map_append)
  then show ?thesis by (simp add: row_offset_def)
qed

lemma row_offset_le: "row_offset enc rs i \<le> length (concat (map enc rs))"
proof -
  have "concat (map enc rs) = concat (map enc (take i rs)) @ concat (map enc (drop i rs))"
    by (metis append_take_drop_id concat_append map_append)
  then show ?thesis by (simp add: row_offset_def)
qed

lemma v1_size_bound:
  assumes "es \<noteq> []" "v1_inv n b es" "block_builder_v1_would_fit b e"
  shows "block_builder_v1_size b + length (v0_bytes (v1_row (bb1_first_key b) e)) \<le> n"
    and "length (bb1_data b) + 17 \<le> n"
proof -
  from assms have len: "length (bb1_offsets b) = length es"
    and "block_builder_v1_size b + encoded_size e (compute_prefix (bb1_first_key b) (re_key e)) \<le> n"
    by (auto simp: v1_inv_def block_builder_v1_would_fit_def block_builder_v1_is_empty_def Let_def)
  then show *: "block_builder_v1_size b + length (v0_bytes (v1_row (bb1_first_key b) e)) \<le> n"
    by (simp add: length_v0_bytes encoded_size_v1_row)
  have "13 \<le> length (v0_bytes (v1_row (bb1_first_key b) e))"
    by (simp add: length_v0_bytes sst_row_entry_size_def)
  moreover from assms(1) have "1 \<le> length es" by (cases es) auto
  ultimately show "length (bb1_data b) + 17 \<le> n"
    using * len by (simp add: block_builder_v1_size_def)
qed

lemma v1_inv_add:
  assumes inv: "v1_inv n b es" and add: "block_builder_v1_add b e = Inr (True, b')"
  shows "v1_inv n b' (es @ [e])"
proof -
  let ?fk = "bb1_first_key b" and ?rs = "v1_rows es"
  from add have e: "re_key e \<noteq> []" "block_builder_v1_would_fit b e" "v0_fits (v1_row ?fk e)"
    and b': "b' = b\<lparr>bb1_offsets := bb1_offsets b @ [of_nat (length (bb1_data b))],
              bb1_data := bb1_data b @ v0_bytes (v1_row ?fk e),
              bb1_first_key := (if ?fk = [] then re_key e else ?fk)\<rparr>"
    by (simp_all add: v1_add_Inr)
  from inv have fk: "?fk = (if es = [] then [] else re_key (hd es))"
    and fk_ne: "es \<noteq> [] \<Longrightarrow> ?fk \<noteq> []"
    and data: "bb1_data b = concat (map v0_bytes ?rs)"
    by (auto simp: v1_inv_def)
  have off: "row_offset v0_bytes (v1_rows (es @ [e])) i =
               (if i = length es then length (bb1_data b) else row_offset v0_bytes ?rs i)"
    if "i \<le> length es" for i
    using that row_offset_simps(3) [of v0_bytes ?rs] by (simp add: v1_rows_snoc data)
  have "i < length (es @ [e]) \<Longrightarrow> 0 < i \<Longrightarrow> row_offset v0_bytes (v1_rows (es @ [e])) i + 17 \<le> n" for i
    using inv v1_size_bound(2) [OF _ inv e(2)] off [of i]
    by (cases "i = length es") (auto simp: v1_inv_def)
  moreover have "1 < length (es @ [e]) \<Longrightarrow> block_builder_v1_size b' \<le> n + 2"
    using v1_size_bound(1) [OF _ inv e(2)] by (cases es) (auto simp: block_builder_v1_size_def b')
  moreover have "bb1_offsets b' = map (\<lambda>i. of_nat (row_offset v0_bytes (v1_rows (es @ [e])) i))
                   [0..<length (es @ [e])]"
    using inv by (simp add: b' off v1_inv_def)
  ultimately show ?thesis
    using inv e fk fk_ne by (auto simp: v1_inv_def v1_rows_snoc b')
qed

lemma v1_built_inv: "v1_built n b es \<Longrightarrow> v1_inv n b es"
proof (induction rule: v1_built.induct)
  case v1_built_new
  show ?case by (simp add: v1_inv_def block_builder_v1_new_def v1_rows_def)
qed (rule v1_inv_add)

lemma v1_rows_nth:
  "i < length es \<Longrightarrow> v1_rows es ! i = v1_row (if i = 0 then [] else re_key (hd es)) (es ! i)"
  by (cases es; cases i) (auto simp: v1_rows_def)

lemma restore_v1_row:
  "i < length es \<Longrightarrow>
   restore_full_key (v0_stored (v1_rows es ! i)) (re_key (hd es)) = Inr (re_key (es ! i))"
  using compute_prefix_le(1) [of "re_key (hd es)" "re_key (es ! i)"]
  by (auto simp: restore_full_key_def v0_stored_def v1_rows_nth v1_row_def restore_compute_prefix)

lemma v0_bytes_key:
  "v0_fits r \<Longrightarrow> \<exists>d d' d''.
     get_u16 (v0_bytes r @ rest) = Inr (of_nat (sre_key_prefix_len r), d)
     \<and> get_u16 d = Inr (of_nat (length (sre_key_suffix r)), d')
     \<and> copy_to_bytes (length (sre_key_suffix r)) d' = Inr (sre_key_suffix r, d'')"
  by (simp add: v0_bytes_def)

lemma v1_built_two:
  assumes "re_key e1 \<noteq> []" "re_key e2 \<noteq> []"
    and "length (re_key e1) \<le> 65535" "length (re_key e2) \<le> 65535"
    and "value_len (re_value e1) \<le> 4294967295" "value_len (re_value e2) \<le> 4294967295"
    and "4 + encoded_size e1 0 + encoded_size e2 (compute_prefix (re_key e1) (re_key e2)) \<le> n"
  shows "\<exists>b. v1_built n b [e1, e2]"
proof -
  let ?b0 = "block_builder_v1_new n"
  obtain b1 where b1: "block_builder_v1_add ?b0 e1 = Inr (True, b1)" and
    b1_def: "bb1_first_key b1 = re_key e1" "bb1_block_size b1 = n"
      "length (bb1_offsets b1) = 1" "length (bb1_data b1) = encoded_size e1 0"
    using assms length_v0_bytes [of "v1_row [] e1"] encoded_size_v1_row [of "[]" e1]
    by (auto simp: v1_add_Inr block_builder_v1_new_def block_builder_v1_would_fit_def
        block_builder_v1_is_empty_def v0_fits_def v1_row_def)
  from v1_built_add [OF v1_built_new b1] have "v1_built n b1 [e1]" by simp
  moreover have "\<exists>b2. block_builder_v1_add b1 e2 = Inr (True, b2)"
    using assms b1_def compute_prefix_le(2) [of "re_key e1" "re_key e2"]
    by (auto simp: v1_add_Inr block_builder_v1_would_fit_def block_builder_v1_size_def
        v0_fits_def v1_row_def)
  ultimately show ?thesis using v1_built_add [of n b1 "[e1]" e2] by auto
qed

subsection \<open>Iterating and seeking a built block\<close>

lemma v1_offset_exact:
  assumes "v1_inv n b es" "n \<le> 65536" "i < length es"
  shows "unat (bb1_offsets b ! i) = row_offset v0_bytes (v1_rows es) i"
proof -
  from assms have "row_offset v0_bytes (v1_rows es) i \<le> 65535"
    by (cases "i = 0") (auto simp: v1_inv_def)
  with assms show ?thesis by (simp add: v1_inv_def)
qed

lemma v1_slice:
  assumes "v1_inv n b es" "n \<le> 65536" "i < length es"
  shows "\<exists>rest. data_slice_from (bb1_data b) (unat (bb1_offsets b ! i)) = Inr (v0_bytes (v1_rows es ! i) @ rest)"
    and "v0_fits (v1_rows es ! i)"
  using assms row_offset_le [of v0_bytes "v1_rows es" i] drop_row_offset [of i "v1_rows es" v0_bytes]
  by (auto simp: v1_offset_exact data_slice_from_def v1_inv_def list_all_length)

lemma v1_decode_first_key:
  assumes "v1_inv n b es" "es \<noteq> []"
  shows "decode_first_key \<lparr>blk_data = bb1_data b, blk_offsets = offs\<rparr> = Inr (re_key (hd es))"
proof -
  obtain e es' where es: "es = e # es'" using assms(2) by (cases es) auto
  then have "bb1_data b = v0_bytes (v1_row [] e) @ concat (map v0_bytes (map (v1_row (re_key e)) es'))"
    "v0_fits (v1_row [] e)"
    using assms(1) by (auto simp: v1_inv_def v1_rows_def)
  then show ?thesis
    by (simp add: decode_first_key_def v0_bytes_def v1_row_def v0_fits_def es)
qed

lemma v1_load:
  assumes inv: "v1_inv n b es" and n: "n \<le> 65536" and i: "i < length es"
    and it: "bi_block it = \<lparr>blk_data = bb1_data b, blk_offsets = bb1_offsets b\<rparr>"
      "bi_first_key it = re_key (hd es)"
  shows "load_at_current_off (it\<lparr>bi_ordering := Ascending, bi_off_off := i\<rparr>) = Inr (Some (stored_entry (es ! i)))"
    and "decode_key_at_index it i = Inr (re_key (es ! i))"
proof -
  from v1_slice [OF inv n i] obtain rest where
    slice: "data_slice_from (bb1_data b) (unat (bb1_offsets b ! i)) = Inr (v0_bytes (v1_rows es ! i) @ rest)"
    and fits: "v0_fits (v1_rows es ! i)" by auto
  have len: "length (bb1_offsets b) = length es" using inv by (simp add: v1_inv_def)
  have "row_entry_new (re_key (es ! i)) (sre_value r) (sre_seq r) (sre_create_ts r) (sre_expire_ts r)
          = stored_entry (es ! i)" if "r = v0_stored (v1_rows es ! i)" for r
    using i that by (simp add: row_entry_new_def v0_stored_def v1_rows_nth v1_row_def stored_entry_def)
  then show "load_at_current_off (it\<lparr>bi_ordering := Ascending, bi_off_off := i\<rparr>) = Inr (Some (stored_entry (es ! i)))"
    using i slice it v0_decode [OF fits, of rest] restore_v1_row [OF i]
    by (simp add: load_at_current_off_def block_iterator_is_empty_def len)
  from v0_bytes_key [OF fits, of rest] obtain d d' d'' where
    key: "get_u16 (v0_bytes (v1_rows es ! i) @ rest) = Inr (of_nat (sre_key_prefix_len (v1_rows es ! i)), d)"
      "get_u16 d = Inr (of_nat (length (sre_key_suffix (v1_rows es ! i))), d')"
      "copy_to_bytes (length (sre_key_suffix (v1_rows es ! i))) d' = Inr (sre_key_suffix (v1_rows es ! i), d'')"
    by auto
  have small: "sre_key_prefix_len (v1_rows es ! i) \<le> 65535" "length (sre_key_suffix (v1_rows es ! i)) \<le> 65535"
    using fits by (auto simp: v0_fits_def)
  from restore_v1_row [OF i]
  have "sre_key_prefix_len (v1_rows es ! i) \<le> length (re_key (hd es))"
    "take (sre_key_prefix_len (v1_rows es ! i)) (re_key (hd es)) @ sre_key_suffix (v1_rows es ! i) = re_key (es ! i)"
    by (auto simp: restore_full_key_def v0_stored_def assert_or_eq_Inr split: if_splits)
  with slice key small i it show "decode_key_at_index it i = Inr (re_key (es ! i))"
    by (simp add: decode_key_at_index_def len)
qed

lemma v1_block_iterator:
  fixes ord' :: iteration_order
  assumes inv: "v1_inv n b es" and n: "n \<le> 65536" and es: "es \<noteq> []"
  defines "blk \<equiv> \<lparr>blk_data = bb1_data b, blk_offsets = bb1_offsets b\<rparr>"
  defines "it \<equiv> \<lparr>bi_block = blk, bi_off_off = 0, bi_first_key = re_key (hd es), bi_ordering = ord'\<rparr>"
  shows "block_builder_v1_build b = Inr blk" "block_iterator_new blk ord' = Inr it"
    and "block_iterator_ok it" "block_entries it = map stored_entry es"
proof -
  have len: "length (bb1_offsets b) = length es" using inv by (simp add: v1_inv_def)
  then show "block_builder_v1_build b = Inr blk"
    using es by (auto simp: block_builder_v1_build_def block_builder_v1_is_empty_def blk_def)
  show "block_iterator_new blk ord' = Inr it"
    using v1_decode_first_key [OF inv es] by (simp add: block_iterator_new_def it_def blk_def)
  have it: "bi_block it = \<lparr>blk_data = bb1_data b, blk_offsets = bb1_offsets b\<rparr>"
    "bi_first_key it = re_key (hd es)"
    by (simp_all add: it_def blk_def)
  have entry: "entry_at it i = stored_entry (es ! i)" if "i < length es" for i
    using v1_load(1) [OF inv n that it] by (simp add: entry_at_def)
  have "re_key (stored_entry e) = re_key e" for e by (simp add: stored_entry_def)
  then show "block_iterator_ok it"
    using v1_load [OF inv n _ it] entry by (simp add: block_iterator_ok_def num_entries_def it len)
  show "block_entries it = map stored_entry es"
    by (rule nth_equalityI) (simp_all add: block_entries_def num_entries_def it len entry)
qed

text \<open>
  C13: A block built by \<open>BlockBuilderV1\<close> from any accepted entries, for every block size the
  configuration offers, is iterated without an error, and the iterator returns exactly the added
  entries in order (in reverse order when descending); a tombstone comes back without its expiry.
\<close>
theorem block_v1_iterates:
  assumes "v1_built n b es" "es \<noteq> []" "n \<le> 65536"
  shows "\<exists>blk asc desc. block_builder_v1_build b = Inr blk
     \<and> block_iterator_new blk Ascending = Inr asc \<and> block_iterator_new blk Descending = Inr desc
     \<and> yields block_iterator_next asc (map stored_entry es)
     \<and> yields block_iterator_next desc (rev (map stored_entry es))"
proof -
  note inv = v1_built_inv [OF assms(1)]
  note block = v1_block_iterator [OF inv assms(3,2)]
  show ?thesis
    using block(1) block(2-4) [of Ascending] block(2-4) [of Descending]
      bi.yields_rows [OF block(3) [of Ascending]] bi.yields_rows [OF block(3) [of Descending]]
    by (simp add: block_iterator_rows_def block_iterator_entries_def)
qed

text \<open>Witness of C13: a block of two entries, the second a tombstone.\<close>
theorem block_v1_iterates_witness:
  "\<exists>b blk asc. v1_built 4096 b [row_entry_new [1, 2] (Value [7]) 1 None None,
                              row_entry_new [1, 3] Tombstone 2 (Some 5) None]
     \<and> block_builder_v1_build b = Inr blk \<and> block_iterator_new blk Ascending = Inr asc
     \<and> yields block_iterator_next asc [row_entry_new [1, 2] (Value [7]) 1 None None,
                                     row_entry_new [1, 3] Tombstone 2 (Some 5) None]"
proof -
  let ?e1 = "row_entry_new [1, 2] (Value [7]) 1 None None"
  let ?e2 = "row_entry_new [1, 3] Tombstone 2 (Some 5) None"
  from v1_built_two [of ?e1 ?e2 4096] obtain b where b: "v1_built 4096 b [?e1, ?e2]"
    by (auto simp: row_entry_new_def encoded_size_def opt_size_def compute_prefix_lcp)
  from block_v1_iterates [OF b] show ?thesis
    using b by (auto simp: stored_entry_def row_entry_new_def)
qed

text \<open>
  C14: Seeking in a built block whose keys are in order (the entries may repeat a key) positions
  exactly as a linear search would: an ascending iterator continues at the first entry with a key
  at or after the sought key, a descending one at the last entry with a key at or before it.
\<close>
theorem block_v1_seeks:
  assumes "v1_built n b es" "es \<noteq> []" "n \<le> 65536" "sorted (map re_key es)"
  shows "\<exists>blk asc desc asc' desc'. block_builder_v1_build b = Inr blk
     \<and> block_iterator_new blk Ascending = Inr asc \<and> block_iterator_new blk Descending = Inr desc
     \<and> block_iterator_seek asc k = Inr asc' \<and> block_iterator_seek desc k = Inr desc'
     \<and> yields block_iterator_next asc' (dropWhile (\<lambda>e. re_key e < k) (map stored_entry es))
     \<and> yields block_iterator_next desc' (dropWhile (\<lambda>e. k < re_key e) (rev (map stored_entry es)))"
proof -
  note inv = v1_built_inv [OF assms(1)]
  note block = v1_block_iterator [OF inv assms(3,2)]
  have "map re_key (map stored_entry es) = map re_key es" by (simp add: stored_entry_def)
  with assms(4) block(3,4) have sorted: "block_iterator_sorted
      \<lparr>bi_block = \<lparr>blk_data = bb1_data b, blk_offsets = bb1_offsets b\<rparr>, bi_off_off = 0,
       bi_first_key = re_key (hd es), bi_ordering = ord'\<rparr>" for ord'
    by (simp only: block_iterator_sorted_def)
  from bis.seek_yields [OF sorted [of Ascending], of k] bis.seek_yields [OF sorted [of Descending], of k]
  show ?thesis
    using block(1) block(2,4) [of Ascending] block(2,4) [of Descending]
    by (auto simp: block_iterator_entries_def)
qed

text \<open>Witness of C14: seeking between the keys of a block of two entries.\<close>
theorem block_v1_seeks_witness:
  "\<exists>b blk asc asc'. v1_built 4096 b [row_entry_new [1] (Value [7]) 1 None None,
                                    row_entry_new [3] (Merge [8]) 2 None None]
     \<and> block_builder_v1_build b = Inr blk \<and> block_iterator_new blk Ascending = Inr asc
     \<and> block_iterator_seek asc [2] = Inr asc'
     \<and> yields block_iterator_next asc' [row_entry_new [3] (Merge [8]) 2 None None]"
proof -
  let ?e1 = "row_entry_new [1] (Value [7]) 1 None None"
  let ?e2 = "row_entry_new [3] (Merge [8]) 2 None None"
  from v1_built_two [of ?e1 ?e2 4096] obtain b where b: "v1_built 4096 b [?e1, ?e2]"
    by (auto simp: row_entry_new_def encoded_size_def opt_size_def compute_prefix_lcp)
  from block_v1_seeks [OF b, of "[2]"] show ?thesis
    using b by (auto simp: stored_entry_def row_entry_new_def)
qed

subsection \<open>Block encoding and size\<close>

lemma decode_offsets_encode: "decode_offsets (concat (map put_u16 offs)) = Inr offs"
proof (induction offs)
  case (Cons off offs)
  obtain x y where xy: "put_u16 off = [x, y]"
  proof -
    have "length (put_u16 off) = Suc (Suc 0)" by simp
    then show ?thesis using that by (auto simp: length_Suc_conv simp del: length_put)
  qed
  with get_put_words(2) [of off "[]"] Cons show ?case by simp
qed simp

lemma length_concat_put_u16: "length (concat (map put_u16 offs)) = 2 * length offs"
  by (induction offs) auto

text \<open>
  C28: \<open>Block::decode\<close> of \<open>Block::encode\<close> is the identity for every block with at most 65535
  offsets, and \<open>Block::size\<close> is the number of bytes of the encoding.
\<close>
theorem block_encode_decode:
  assumes "length (blk_offsets b) \<le> 65535"
  shows "block_decode (block_encode b) = Inr b \<and> length (block_encode b) = block_size b"
proof
  let ?offs = "concat (map put_u16 (blk_offsets b))"
  let ?n = "put_u16 (of_nat (length (blk_offsets b)))"
  have enc: "block_encode b = blk_data b @ ?offs @ ?n" by (simp add: block_encode_def)
  have len: "length (block_encode b) = length (blk_data b) + 2 * length (blk_offsets b) + 2"
    by (simp add: enc length_concat_put_u16)
  then show "length (block_encode b) = block_size b" by (simp add: block_size_def)
  have "drop (length (block_encode b) - 2) (block_encode b) = ?n @ []"
    by (simp add: enc length_concat_put_u16)
  then have "get_u16 (drop (length (block_encode b) - 2) (block_encode b))
               = Inr (of_nat (length (blk_offsets b)), [])"
    by (simp only: get_put_words)
  then show "block_decode (block_encode b) = Inr b"
    using assms len
    by (simp add: block_decode_def) (simp add: enc length_concat_put_u16 decode_offsets_encode)
qed

text \<open>Witness of C28: a block of two rows.\<close>
theorem block_encode_decode_witness:
  "block_decode (block_encode \<lparr>blk_data = [1, 2, 3], blk_offsets = [0, 2]\<rparr>)
     = Inr \<lparr>blk_data = [1, 2, 3], blk_offsets = [0, 2]\<rparr>"
  using block_encode_decode [of "\<lparr>blk_data = [1, 2, 3], blk_offsets = [0, 2]\<rparr>"] by simp

lemma v1_built_block_size:
  "v1_built n b es \<Longrightarrow> es \<noteq> [] \<Longrightarrow>
   block_builder_v1_size b \<le> max (n + 2) (4 + encoded_size (hd es) 0)"
proof (cases "length es = 1")
  case True
  assume "v1_built n b es"
  from True obtain e where "es = [e]" by (auto simp: length_Suc_conv)
  with v1_built_inv [OF \<open>v1_built n b es\<close>] encoded_size_v1_row [of "[]" e] show ?thesis
    by (simp add: v1_inv_def block_builder_v1_size_def v1_rows_def length_v0_bytes)
next
  case False
  assume "v1_built n b es" "es \<noteq> []"
  with False have "1 < length es" by (cases es) (auto simp: neq_Nil_conv)
  with v1_built_inv [OF \<open>v1_built n b es\<close>] show ?thesis
    by (simp add: v1_inv_def le_max_iff_disj)
qed

text \<open>
  C29: The encoded size of a block built with target size \<open>n\<close> is at most \<open>n + 2\<close> bytes, or that of
  a single oversized first entry; \<open>would_fit\<close> leaves out the two bytes of the new entry's offset,
  so the target can be exceeded by exactly these two bytes.
\<close>
theorem block_v1_size_bound:
  assumes "v1_built n b es" "block_builder_v1_build b = Inr blk"
  shows "block_size blk \<le> max (n + 2) (4 + encoded_size (hd es) 0)"
proof -
  have "length (bb1_offsets b) = length es"
    using v1_built_inv [OF assms(1)] by (simp add: v1_inv_def)
  with assms(2) have "es \<noteq> []" "block_size blk = block_builder_v1_size b"
    by (auto simp: block_builder_v1_build_def block_builder_v1_is_empty_def block_size_def
        block_builder_v1_size_def split: if_splits)
  with v1_built_block_size [OF assms(1)] show ?thesis by simp
qed

text \<open>Witness of C29: two entries that fill a block of target size 42 to 44 bytes.\<close>
theorem block_v1_size_bound_witness:
  "\<exists>b blk. v1_built 42 b [row_entry_new [1] (Value [7]) 1 None None,
                         row_entry_new [3] (Value [8]) 2 None None]
     \<and> block_builder_v1_build b = Inr blk \<and> block_size blk \<le> 44 \<and> block_size blk = 44"
proof -
  let ?e1 = "row_entry_new [1] (Value [7]) 1 None None"
  let ?e2 = "row_entry_new [3] (Value [8]) 2 None None"
  from v1_built_two [of ?e1 ?e2 42] obtain b where b: "v1_built 42 b [?e1, ?e2]"
    by (auto simp: row_entry_new_def encoded_size_def opt_size_def compute_prefix_lcp)
  from v1_block_iterator(1) [OF v1_built_inv [OF b]] obtain blk where
    blk: "block_builder_v1_build b = Inr blk"
      "blk = \<lparr>blk_data = bb1_data b, blk_offsets = bb1_offsets b\<rparr>" by auto
  have "block_size blk = 44"
    using v1_built_inv [OF b] encoded_size_v1_row [of "[]" ?e1] encoded_size_v1_row [of "[1]" ?e2]
    by (simp add: blk block_size_def v1_inv_def v1_rows_def length_v0_bytes row_entry_new_def
        encoded_size_def opt_size_def compute_prefix_lcp)
  with b blk(1) block_v1_size_bound [OF b blk(1)] show ?thesis
    by (auto simp: row_entry_new_def encoded_size_def opt_size_def)
qed

end
