(* ===== verification/PartitionedKeyspace.thy ===== *)
theory PartitionedKeyspace
  imports KeyRange
begin

section \<open>Locating blocks and tables: \<open>partitioned_keyspace.rs\<close> and the index keys of \<open>utils.rs\<close>\<close>

text \<open>
  A sorted run is partitioned into tables and a table into blocks, and the index holds one first
  key per partition. The keyspace is the list of these first keys; reading one past the end is a
  panic. The lemmas relate the binary search and the ranges of partitions it gives to the keys the
  partitions hold.
\<close>

subsection \<open>Definitions\<close>

type_synonym keyspace = "bytes list"

definition partition_first_key :: "keyspace \<Rightarrow> nat \<Rightarrow> bytes result" where
  "partition_first_key ks i = assert_or (i < length ks) ''index out of bounds'' (Inr (ks ! i))"

function partition_point_loop ::
    "keyspace \<Rightarrow> (bytes \<Rightarrow> bool) \<Rightarrow> nat \<Rightarrow> nat \<Rightarrow> nat \<Rightarrow> nat result" where
  "partition_point_loop ks pred low high part_point =
     (if low \<le> high
      then let mid = low + (high - low) div 2
           in bind_result (partition_first_key ks mid) (\<lambda>mid_part_first_key.
              if pred mid_part_first_key then partition_point_loop ks pred (mid + 1) high (mid + 1)
              else if mid > low then partition_point_loop ks pred low (mid - 1) part_point
              else Inr part_point)
      else Inr part_point)"
  by pat_completeness auto
termination
  by (relation "measure (\<lambda>(_, _, low, high, _). high + 1 - low)") auto

definition partition_point :: "keyspace \<Rightarrow> (bytes \<Rightarrow> bool) \<Rightarrow> nat result" where
  "partition_point ks pred =
     (if length ks = 0 then Inr 0 else partition_point_loop ks pred 0 (length ks - 1) 0)"

definition first_partition_including_key :: "keyspace \<Rightarrow> bytes \<Rightarrow> nat option result" where
  "first_partition_including_key ks key =
     bind_result (partition_point ks (\<lambda>first_key. first_key < key)) (\<lambda>part_point.
     if part_point > 0 then Inr (Some (part_point - 1))
     else bind_result (partition_first_key ks 0) (\<lambda>first_key.
          if first_key = key then Inr (Some 0) else Inr None))"

definition first_partition_including_or_after_key :: "keyspace \<Rightarrow> bytes \<Rightarrow> nat result" where
  "first_partition_including_or_after_key ks key =
     bind_result (first_partition_including_key ks key) (\<lambda>p.
     Inr (case p of Some i \<Rightarrow> i | None \<Rightarrow> 0))"

definition last_partition_including_key :: "keyspace \<Rightarrow> bytes \<Rightarrow> nat option result" where
  "last_partition_including_key ks key =
     bind_result (partition_point ks (\<lambda>first_key. first_key \<le> key)) (\<lambda>part_point.
     if part_point = 0 then Inr None else Inr (Some (part_point - 1)))"

fun step_back_equal :: "keyspace \<Rightarrow> bytes \<Rightarrow> nat \<Rightarrow> nat result" where
  "step_back_equal ks key 0 = Inr 0"
| "step_back_equal ks key (Suc n) =
     bind_result (partition_first_key ks n) (\<lambda>first_key.
     if first_key = key then step_back_equal ks key n else Inr (Suc n))"

definition partitions_covering_key :: "keyspace \<Rightarrow> bytes \<Rightarrow> (nat \<times> nat) result" where
  "partitions_covering_key ks key =
     bind_result (partition_point ks (\<lambda>first_key. first_key \<le> key)) (\<lambda>end'.
     bind_result (step_back_equal ks key end') (\<lambda>first_equal.
     Inr (first_equal - 1, end')))"

definition partitions_covering_bounds ::
    "keyspace \<Rightarrow> bytes bound \<Rightarrow> bytes bound \<Rightarrow> (nat \<times> nat) result" where
  "partitions_covering_bounds ks start end' =
     bind_result
       (case start of
          Included k \<Rightarrow> first_partition_including_or_after_key ks k
        | Excluded k \<Rightarrow> first_partition_including_or_after_key ks k
        | Unbounded \<Rightarrow> Inr 0) (\<lambda>start_idx.
     bind_result
       (case end' of
          Included k \<Rightarrow>
            bind_result (last_partition_including_key ks k) (\<lambda>p.
            Inr (case p of Some p \<Rightarrow> p + 1 | None \<Rightarrow> start_idx))
        | Excluded k \<Rightarrow>
            bind_result (last_partition_including_key ks k) (\<lambda>p.
            case p of
              None \<Rightarrow> Inr start_idx
            | Some p \<Rightarrow> bind_result (partition_first_key ks p) (\<lambda>first_key.
                         Inr (if k = first_key then p else p + 1)))
        | Unbounded \<Rightarrow> Inr (length ks)) (\<lambda>end_idx_exclusive.
     Inr (start_idx, end_idx_exclusive)))"

definition partitions_covering_range ::
    "keyspace \<Rightarrow> bytes bound \<Rightarrow> bytes bound \<Rightarrow> (nat \<times> nat) result" where
  "partitions_covering_range ks start end' =
     (case (start, end') of
        (Included s, Included e) \<Rightarrow>
          if s = e then partitions_covering_key ks s else partitions_covering_bounds ks start end'
      | _ \<Rightarrow> partitions_covering_bounds ks start end')"

fun lower_bound_loop :: "nat \<Rightarrow> nat \<Rightarrow> bytes \<Rightarrow> bytes \<Rightarrow> bytes option result" where
  "lower_bound_loop i 0 prev this = Inr None"
| "lower_bound_loop i (Suc n) prev this =
     assert_or (i < length this) ''index out of bounds''
       (if prev ! i \<noteq> this ! i then Inr (Some (take (i + 1) this))
        else lower_bound_loop (i + 1) n prev this)"

definition compute_lower_bound :: "bytes \<Rightarrow> bytes \<Rightarrow> bytes result" where
  "compute_lower_bound prev_block_last_key this_block_first_key =
     assert_or (prev_block_last_key \<noteq> [] \<and> this_block_first_key \<noteq> []) ''assertion failed''
     (bind_result
        (lower_bound_loop 0 (length prev_block_last_key) prev_block_last_key this_block_first_key) (\<lambda>r.
      case r of
        Some b \<Rightarrow> Inr b
      | None \<Rightarrow>
          if length prev_block_last_key = length this_block_first_key then Inr this_block_first_key
          else assert_or (length prev_block_last_key + 1 \<le> length this_block_first_key)
                 ''range end out of bounds''
                 (Inr (take (length prev_block_last_key + 1) this_block_first_key))))"

definition compute_index_key :: "bytes option \<Rightarrow> bytes \<Rightarrow> bytes result" where
  "compute_index_key prev_block_last_key this_block_first_key =
     (case prev_block_last_key of
        Some prev_key \<Rightarrow> compute_lower_bound prev_key this_block_first_key
      | None \<Rightarrow> Inr [])"

declare partition_point_loop.simps [simp del]

subsection \<open>The partition point\<close>

lemma partition_first_key_nth [simp]: "i < length ks \<Longrightarrow> partition_first_key ks i = Inr (ks ! i)"
  by (simp add: partition_first_key_def)

lemma partition_point_loop_takeWhile:
  assumes mono: "\<And>i j. i \<le> j \<Longrightarrow> j < length ks \<Longrightarrow> P (ks ! j) \<Longrightarrow> P (ks ! i)"
  shows "low \<le> high + 1 \<Longrightarrow> high < length ks \<Longrightarrow> (\<And>i. i < low \<Longrightarrow> P (ks ! i)) \<Longrightarrow>
    (high + 1 < length ks \<Longrightarrow> \<not> P (ks ! (high + 1))) \<Longrightarrow>
    partition_point_loop ks P low high low = Inr (length (takeWhile P ks))"
proof (induction "high + 1 - low" arbitrary: low high rule: less_induct)
  case less
  have stop: "takeWhile P ks = take low ks" if "low < length ks \<Longrightarrow> \<not> P (ks ! low)"
    using less.prems(3) that by (intro takeWhile_eq_take_P_nth) auto
  show ?case
  proof (cases "low \<le> high")
    case True
    let ?mid = "low + (high - low) div 2"
    from True have mid: "low \<le> ?mid" "?mid \<le> high" by auto
    with less.prems have key: "partition_first_key ks ?mid = Inr (ks ! ?mid)" by simp
    show ?thesis
    proof (cases "P (ks ! ?mid)")
      case True
      have "partition_point_loop ks P (?mid + 1) high (?mid + 1) = Inr (length (takeWhile P ks))"
      proof (rule less.hyps)
        fix i assume "i < ?mid + 1"
        then show "P (ks ! i)" using True mono [of i ?mid] mid less.prems(2) by simp
      qed (use less.prems mid in auto)
      with True key \<open>low \<le> high\<close> show ?thesis by (simp add: partition_point_loop.simps [of ks P low] Let_def)
    next
      case False
      show ?thesis
      proof (cases "?mid > low")
        case True
        have "partition_point_loop ks P low (?mid - 1) low = Inr (length (takeWhile P ks))"
          by (rule less.hyps) (use less.prems mid True False in auto)
        with True False key \<open>low \<le> high\<close> show ?thesis
          by (simp add: partition_point_loop.simps [of ks P low high] Let_def)
      next
        case mid_low: False
        with mid have "?mid = low" by simp
        with False have "\<not> P (ks ! low)" by simp
        with stop have "takeWhile P ks = take low ks" by simp
        moreover have "partition_point_loop ks P low high low = Inr low"
          using \<open>?mid = low\<close> \<open>\<not> P (ks ! low)\<close> key \<open>low \<le> high\<close>
          by (simp add: partition_point_loop.simps [of ks P low high] Let_def)
        ultimately show ?thesis using mid less.prems(2) by simp
      qed
    qed
  next
    case False
    with less.prems have "low = high + 1" by simp
    with less.prems(4) stop have "takeWhile P ks = take low ks" by simp
    with False \<open>low = high + 1\<close> less.prems(2) show ?thesis
      by (simp add: partition_point_loop.simps [of ks P "Suc high" high])
  qed
qed

lemma partition_point_takeWhile:
  assumes "\<And>i j. i \<le> j \<Longrightarrow> j < length ks \<Longrightarrow> P (ks ! j) \<Longrightarrow> P (ks ! i)"
  shows "partition_point ks P = Inr (length (takeWhile P ks))"
proof (cases "ks = []")
  case False
  then show ?thesis
    using partition_point_loop_takeWhile [of ks P 0 "length ks - 1"] assms by (simp add: partition_point_def)
qed (simp add: partition_point_def)

text \<open>The number of partitions whose first key is below, and at most, a key.\<close>

definition count_lt :: "keyspace \<Rightarrow> bytes \<Rightarrow> nat" where
  "count_lt ks k = length (takeWhile (\<lambda>x. x < k) ks)"

definition count_le :: "keyspace \<Rightarrow> bytes \<Rightarrow> nat" where
  "count_le ks k = length (takeWhile (\<lambda>x. x \<le> k) ks)"

lemma index_takeWhile:
  assumes "\<And>i j. i \<le> j \<Longrightarrow> j < length ks \<Longrightarrow> P (ks ! j) \<Longrightarrow> P (ks ! i)" "i < length ks"
  shows "i < length (takeWhile P ks) \<longleftrightarrow> P (ks ! i)"
proof
  assume "i < length (takeWhile P ks)"
  then show "P (ks ! i)" by (metis nth_mem set_takeWhileD takeWhile_nth)
next
  assume "P (ks ! i)"
  show "i < length (takeWhile P ks)"
  proof (rule ccontr)
    assume "\<not> ?thesis"
    moreover from this assms(2) have "\<not> P (ks ! length (takeWhile P ks))"
      by (intro nth_length_takeWhile) simp
    ultimately show False using assms \<open>P (ks ! i)\<close> by (meson not_less)
  qed
qed

lemma count_lt_iff: "sorted ks \<Longrightarrow> i < length ks \<Longrightarrow> i < count_lt ks k \<longleftrightarrow> ks ! i < k"
  unfolding count_lt_def
  by (rule index_takeWhile) (use sorted_nth_mono [of ks] in \<open>blast intro: order_le_less_trans\<close>)+

lemma count_le_iff: "sorted ks \<Longrightarrow> i < length ks \<Longrightarrow> i < count_le ks k \<longleftrightarrow> ks ! i \<le> k"
  unfolding count_le_def
  by (rule index_takeWhile) (use sorted_nth_mono [of ks] in \<open>blast intro: order_trans\<close>)+

lemma count_length: "count_lt ks k \<le> length ks" "count_le ks k \<le> length ks"
  by (simp_all add: count_lt_def count_le_def length_takeWhile_le)

lemma count_lt_le: "sorted ks \<Longrightarrow> count_lt ks k \<le> count_le ks k"
  using count_length [of ks k] count_lt_iff [of ks "count_le ks k" k] count_le_iff [of ks "count_le ks k" k]
  by (meson less_imp_le not_le order_less_le_trans order_less_irrefl)

lemma partition_point_counts:
  assumes "sorted ks"
  shows "partition_point ks (\<lambda>x. x < k) = Inr (count_lt ks k)"
    "partition_point ks (\<lambda>x. x \<le> k) = Inr (count_le ks k)"
  unfolding count_lt_def count_le_def
  by (rule partition_point_takeWhile,
      use sorted_nth_mono [OF assms] in \<open>blast intro: order_le_less_trans order_trans\<close>)+

lemma first_partition_or_after:
  "sorted ks \<Longrightarrow> ks \<noteq> [] \<Longrightarrow>
   first_partition_including_or_after_key ks k = Inr (count_lt ks k - 1)"
  by (simp add: first_partition_including_or_after_key_def first_partition_including_key_def
      partition_point_counts)

lemma last_partition_including:
  "sorted ks \<Longrightarrow>
   last_partition_including_key ks k
     = Inr (if count_le ks k = 0 then None else Some (count_le ks k - 1))"
  by (simp add: last_partition_including_key_def partition_point_counts)

definition start_index :: "keyspace \<Rightarrow> bytes bound \<Rightarrow> nat" where
  "start_index ks s = (case s of Included k \<Rightarrow> count_lt ks k - 1 | Excluded k \<Rightarrow> count_lt ks k - 1 | Unbounded \<Rightarrow> 0)"

definition end_index :: "keyspace \<Rightarrow> bytes bound \<Rightarrow> nat \<Rightarrow> nat" where
  "end_index ks e start =
     (case e of
        Included k \<Rightarrow> if count_le ks k = 0 then start else count_le ks k
      | Excluded k \<Rightarrow> if count_le ks k = 0 then start
                      else if ks ! (count_le ks k - 1) = k then count_le ks k - 1 else count_le ks k
      | Unbounded \<Rightarrow> length ks)"

lemma partitions_covering_bounds_eq:
  assumes "sorted ks" "ks \<noteq> []"
  shows "partitions_covering_bounds ks s e = Inr (start_index ks s, end_index ks e (start_index ks s))"
proof -
  have "count_le ks k \<noteq> 0 \<Longrightarrow> count_le ks k - 1 < length ks" for k
    using count_length(2) [of ks k] by simp
  then show ?thesis
    using assms
    by (cases s; cases e)
      (auto simp: partitions_covering_bounds_def start_index_def end_index_def
        first_partition_or_after last_partition_including)
qed

lemma step_back_equal_count:
  assumes "sorted ks"
  shows "count_lt ks k \<le> n \<Longrightarrow> n \<le> count_le ks k \<Longrightarrow> step_back_equal ks k n = Inr (count_lt ks k)"
proof (induction n)
  case (Suc n)
  have n: "n < length ks" using Suc.prems count_length(2) [of ks k] by simp
  show ?case
  proof (cases "count_lt ks k = Suc n")
    case True
    with count_lt_iff [OF assms n, of k] n show ?thesis by auto
  next
    case False
    with Suc.prems have "count_lt ks k \<le> n" by simp
    with count_lt_iff [OF assms n, of k] count_le_iff [OF assms n, of k] Suc.prems
    have "ks ! n = k" by (auto simp: not_less)
    with Suc n \<open>count_lt ks k \<le> n\<close> show ?thesis by simp
  qed
qed simp

lemma partitions_covering_key_eq:
  "sorted ks \<Longrightarrow> partitions_covering_key ks k = Inr (count_lt ks k - 1, count_le ks k)"
  by (simp add: partitions_covering_key_def partition_point_counts step_back_equal_count count_lt_le)

lemma point_bounds_index:
  "sorted ks \<Longrightarrow> start_index ks (Included k) = count_lt ks k - 1"
  "sorted ks \<Longrightarrow> end_index ks (Included k) (count_lt ks k - 1) = count_le ks k"
  using count_lt_le [of ks k] by (simp_all add: start_index_def end_index_def)

text \<open>
  C26: The single binary search of \<open>partitions_covering_key\<close> gives, on every non-empty keyspace,
  the same range of partitions as the general two-search path \<open>partitions_covering_bounds\<close> gives
  for the point range, also when several partitions start with the key.
\<close>
theorem covering_key_is_covering_bounds:
  assumes "sorted ks" "ks \<noteq> []"
  shows "partitions_covering_key ks k = partitions_covering_bounds ks (Included k) (Included k)"
  using partitions_covering_key_eq [OF assms(1)] point_bounds_index [OF assms(1)]
  by (simp add: partitions_covering_bounds_eq [OF assms])

text \<open>Witness of C26: three partitions, two of which start with the key.\<close>
theorem covering_key_is_covering_bounds_witness:
  "partitions_covering_bounds [[], [5], [5]] (Included [5]) (Included [5]) = Inr (0, 3)
   \<and> partitions_covering_key [[], [5], [5]] [5] = Inr (0, 3)"
proof -
  have "partitions_covering_bounds [[], [5], [5]] (Included [5]) (Included [5]) = Inr (0, 3)"
    by (simp add: partitions_covering_bounds_eq start_index_def end_index_def count_lt_def count_le_def)
  with covering_key_is_covering_bounds [of "[[], [5], [5]]" "[5]"] show ?thesis by simp
qed

text \<open>
  \<open>partitioned ks parts\<close>: the first keys \<open>ks\<close> describe the partitions \<open>parts\<close>, as the trait demands:
  a first key is at most every key of its partition, and at least every key of the one before.
\<close>

definition partitioned :: "keyspace \<Rightarrow> bytes list list \<Rightarrow> bool" where
  "partitioned ks parts \<longleftrightarrow>
     sorted ks \<and> length parts = length ks
     \<and> (\<forall>i<length ks. \<forall>x\<in>set (parts ! i). ks ! i \<le> x \<and> (i + 1 < length ks \<longrightarrow> x \<le> ks ! (i + 1)))"

lemma start_index_le:
  assumes "partitioned ks parts" "i < length ks" "x \<in> set (parts ! i)" "above_start s x"
  shows "start_index ks s \<le> i"
proof -
  have "count_lt ks k - 1 \<le> i" if "k \<le> x" for k
  proof (rule ccontr)
    assume "\<not> ?thesis"
    then have "i + 1 < count_lt ks k" by simp
    moreover from this have "i + 1 < length ks" using count_length(1) [of ks k] by simp
    ultimately have "ks ! (i + 1) < k" using assms(1) count_lt_iff [of ks "i + 1" k]
      by (simp add: partitioned_def)
    moreover from assms \<open>i + 1 < length ks\<close> have "x \<le> ks ! (i + 1)" by (simp add: partitioned_def)
    ultimately show False using \<open>k \<le> x\<close> by simp
  qed
  with assms(4) show ?thesis by (cases s) (auto simp: start_index_def intro: less_imp_le)
qed

lemma less_end_index:
  assumes "partitioned ks parts" "i < length ks" "x \<in> set (parts ! i)" "below_end e x"
  shows "i < end_index ks e start"
proof -
  from assms have x: "ks ! i \<le> x" and sorted: "sorted ks" by (auto simp: partitioned_def)
  have le: "i < count_le ks k" if "x \<le> k" for k
    using count_le_iff [OF sorted assms(2)] x that by (auto intro: order_trans)
  have lt: "i < count_le ks k - 1" if "x < k" "ks ! (count_le ks k - 1) = k" for k
  proof -
    have "i < count_lt ks k" using count_lt_iff [OF sorted assms(2)] x that(1) by auto
    moreover have "count_le ks k - 1 < length ks"
      using le [OF less_imp_le [OF that(1)]] count_length(2) [of ks k] by linarith
    ultimately show ?thesis
      using count_lt_iff [OF sorted, of "count_le ks k - 1" k] that(2) by force
  qed
  show ?thesis
  proof (cases e)
    case (Included k)
    with le [of k] assms(4) show ?thesis by (simp add: end_index_def)
  next
    case (Excluded k)
    with le [OF less_imp_le, of k] lt [of k] assms(4) show ?thesis by (auto simp: end_index_def)
  next
    case Unbounded
    with assms(2) show ?thesis by (simp add: end_index_def)
  qed
qed

text \<open>
  C25: \<open>partitions_covering_range\<close> returns, for every range over a non-empty keyspace, an interval
  of partitions of the keyspace that misses nothing: each partition holding a key in the range is
  in the interval.
\<close>
theorem partitions_covering_range_complete:
  assumes "partitioned ks parts" "ks \<noteq> []"
  shows "\<exists>lo hi. partitions_covering_range ks s e = Inr (lo, hi)
     \<and> (\<forall>i<length ks. \<forall>x\<in>set (parts ! i). above_start s x \<and> below_end e x \<longrightarrow> lo \<le> i \<and> i < hi)"
proof -
  from assms(1) have sorted: "sorted ks" by (simp add: partitioned_def)
  have "partitions_covering_range ks s e = Inr (start_index ks s, end_index ks e (start_index ks s))"
    using partitions_covering_bounds_eq [OF sorted assms(2)] partitions_covering_key_eq [OF sorted]
      point_bounds_index [OF sorted]
    by (cases s; cases e) (simp_all add: partitions_covering_range_def)
  with start_index_le [OF assms(1)] less_end_index [OF assms(1)] show ?thesis by blast
qed

text \<open>Witness of C25: the key \<open>[5]\<close> ends the first and begins the second partition.\<close>
theorem partitions_covering_range_complete_witness:
  "\<exists>lo hi. partitions_covering_range [[], [5]] (Included [5]) (Excluded [9]) = Inr (lo, hi)
     \<and> lo = 0 \<and> 1 < hi"
proof -
  have "partitioned [[], [5]] [[[1], [5]], [[5], [8]]]"
    by (auto simp: partitioned_def less_Suc_eq)
  from partitions_covering_range_complete [OF this, of "Included [5]" "Excluded [9]"]
  obtain lo hi where r: "partitions_covering_range [[], [5]] (Included [5]) (Excluded [9]) = Inr (lo, hi)"
    and all: "\<forall>i<length [[], [5 :: byte]]. \<forall>x\<in>set ([[[1], [5]], [[5], [8 :: byte]]] ! i).
           above_start (Included [5]) x \<and> below_end (Excluded [9]) x \<longrightarrow> lo \<le> i \<and> i < hi"
    by blast
  from all [rule_format, of 0 "[5]"] all [rule_format, of 1 "[5]"] have "lo = 0" "1 < hi" by simp_all
  with r show ?thesis by auto
qed

subsection \<open>Index keys\<close>

lemma lower_bound_loop_mismatch:
  "a \<noteq> b \<Longrightarrow> i + n = length (q @ a # r) \<Longrightarrow> i \<le> length q \<Longrightarrow>
   lower_bound_loop i n (q @ a # r) (q @ b # s) = Inr (Some (q @ [b]))"
proof (induction n arbitrary: i)
  case (Suc n)
  show ?case
  proof (cases "i = length q")
    case False
    with Suc have "i < length q" by simp
    with Suc.IH [of "i + 1"] Suc.prems show ?thesis by (simp add: nth_append)
  qed (use Suc.prems in simp)
qed simp

lemma lower_bound_loop_prefix: "i + n = length p \<Longrightarrow> lower_bound_loop i n p (p @ z) = Inr None"
  by (induction n arbitrary: i) (auto simp: nth_append)

lemma le_split:
  fixes p t :: "'a::linorder list"
  shows "p \<le> t \<Longrightarrow>
    (\<exists>z. t = p @ z) \<or> (\<exists>q a r b s. p = q @ a # r \<and> t = q @ b # s \<and> a < b)"
proof (induction p arbitrary: t)
  case (Cons x p)
  from Cons.prems obtain y t' where t: "t = y # t'" by (cases t) auto
  show ?case
  proof (cases "x = y")
    case True
    with Cons.prems t have "p \<le> t'" by simp
    from Cons.IH [OF this] show ?thesis
    proof (elim disjE exE conjE)
      fix q a r b s assume "p = q @ a # r" "t' = q @ b # s" "a < b"
      with True t have "x # p = (x # q) @ a # r" "t = (x # q) @ b # s" by simp_all
      with \<open>a < b\<close> show ?thesis by blast
    qed (use True t in simp)
  next
    case False
    with Cons.prems t have "x < y" by auto
    moreover have "x # p = [] @ x # p" "t = [] @ y # t'" using t by simp_all
    ultimately show ?thesis by blast
  qed
qed simp

lemma self_less_append [simp]: "(p :: 'a::linorder list) < p @ x # xs"
  by (induction p) auto

lemma compute_lower_bound_cases:
  assumes "prev \<noteq> []"
  shows "compute_lower_bound prev prev = Inr prev"
    and "compute_lower_bound prev (prev @ b # s) = Inr (prev @ [b])"
    and "prev = q @ a # r \<Longrightarrow> a \<noteq> b \<Longrightarrow> compute_lower_bound prev (q @ b # s) = Inr (q @ [b])"
  using assms lower_bound_loop_prefix [of 0 "length prev" prev "[]"]
    lower_bound_loop_prefix [of 0 "length prev" prev "b # s"]
    lower_bound_loop_mismatch [of a b 0 "length (q @ a # r)" q r s]
  by (auto simp: compute_lower_bound_def)

lemma prefix_short: "prefix p (q @ z) \<Longrightarrow> length p \<le> length q \<Longrightarrow> prefix p q"
  by (metis prefix_length_prefix prefixI)

text \<open>
  C27: The index key of a block, for a previous block whose last key is at most the first key of
  this block, separates the two blocks: it is at least the previous last key, and above it
  whenever the two keys differ, it is at most the first key of this block, and it is the shortest
  prefix of that first key above the previous last key.
\<close>
theorem compute_index_key_separates:
  assumes "prev \<noteq> []" "prev \<le> this"
  shows "\<exists>k. compute_index_key (Some prev) this = Inr k \<and> prev \<le> k \<and> k \<le> this \<and> prefix k this
     \<and> (prev < this \<longrightarrow> prev < k)
     \<and> (\<forall>p. prefix p this \<and> prev < p \<longrightarrow> length k \<le> length p)"
  using le_split [OF assms(2)]
proof (elim disjE exE conjE)
  fix z assume 1: "this = prev @ z"
  show ?thesis
  proof (cases z)
    case Nil
    with 1 assms compute_lower_bound_cases(1) [of prev] show ?thesis
      by (auto simp: compute_index_key_def dest: prefix_imp_le)
  next
    case (Cons b s)
    have "length (prev @ [b]) \<le> length p" if "prefix p this" "prev < p" for p
    proof (rule ccontr)
      assume "\<not> ?thesis"
      with that 1 have "prefix p prev" by (intro prefix_short [of p prev z]) simp_all
      with that(2) prefix_imp_le show False by (metis not_le)
    qed
    with 1 Cons assms compute_lower_bound_cases(2) [of prev b s] show ?thesis
      by (auto simp: compute_index_key_def prefix_imp_le)
  qed
next
  fix q a r b s assume 2: "prev = q @ a # r" "this = q @ b # s" "a < b"
  have "length (q @ [b]) \<le> length p" if "prefix p this" "prev < p" for p
  proof (rule ccontr)
    assume "\<not> ?thesis"
    with that 2 have "prefix p q" by (intro prefix_short [of p q "b # s"]) simp_all
    with 2 have "prefix p prev" by simp
    with that(2) prefix_imp_le show False by (metis not_le)
  qed
  with 2 assms(1) compute_lower_bound_cases(3) [of prev q a r b s] show ?thesis
    by (auto simp: compute_index_key_def prefix_imp_le)
qed

text \<open>Witness of C27: the separator of \<open>[1, 2, 9]\<close> and \<open>[1, 4, 0]\<close> is \<open>[1, 4]\<close>.\<close>
theorem compute_index_key_separates_witness:
  "compute_index_key (Some [1, 2, 9]) [1, 4, 0] = Inr [1, 4] \<and> [1, 2, 9] < ([1, 4] :: bytes)"
  using compute_index_key_separates [of "[1, 2, 9]" "[1, 4, 0]"]
  by (auto simp: compute_index_key_def compute_lower_bound_def numeral_3_eq_3)

end
