(* ===== verification/MergeIterator.thy ===== *)
theory MergeIterator
  imports Iter
begin

section \<open>The merging iterator: \<open>merge_iterator.rs\<close>\<close>

text \<open>
  A k-way merge over boxed iterators. The operations take the calls that go through the box
  (\<open>init\<close>, \<open>next\<close>, \<open>seek\<close> of the source) as arguments, and the \<open>pop\<close> of the standard library's
  \<open>BinaryHeap\<close>, whose choice among equal entries is not specified: of \<open>pop\<close> only the law of a
  priority queue is used. The heap is the list of its entries in no particular order. The loop that
  skips the older versions of a key may run forever on a source that never ends; not returning is
  the error \<open>NonTermination\<close>.
\<close>

subsection \<open>Definitions\<close>

record 's heap_entry =
  he_next_kv :: row_entry
  he_index :: nat
  he_iterator :: 's
  he_order :: iteration_order

type_synonym 's heap = "'s heap_entry list"
type_synonym 's heap_pop = "'s heap \<Rightarrow> ('s heap_entry \<times> 's heap) option"
type_synonym 's next_fn = "'s \<Rightarrow> (row_entry option \<times> 's) result"
type_synonym 's seek_fn = "'s \<Rightarrow> bytes \<Rightarrow> 's result"

definition heap_entry_cmp :: "'s heap_entry \<Rightarrow> 's heap_entry \<Rightarrow> ordering" where
  "heap_entry_cmp self other =
     (let key_ord = (case he_order self of
                       Ascending \<Rightarrow> cmp (re_key (he_next_kv self)) (re_key (he_next_kv other))
                     | Descending \<Rightarrow> cmp (re_key (he_next_kv other)) (re_key (he_next_kv self)))
      in case key_ord of
           Equal \<Rightarrow> cmp (re_seq (he_next_kv other)) (re_seq (he_next_kv self))
         | ord \<Rightarrow> ord)"

definition heap_entry_seek ::
    "'s next_fn \<Rightarrow> 's seek_fn \<Rightarrow> 's heap_entry \<Rightarrow> bytes \<Rightarrow> 's heap_entry option result" where
  "heap_entry_seek nxt seek self next_key =
     (if re_key (he_next_kv self) \<ge> next_key then Inr (Some self)
      else bind_result (seek (he_iterator self) next_key) (\<lambda>iterator.
           bind_result (nxt iterator) (\<lambda>(r, iterator).
           Inr (case r of
                  Some next_kv \<Rightarrow> Some \<lparr>he_next_kv = next_kv, he_index = he_index self,
                                        he_iterator = iterator, he_order = he_order self\<rparr>
                | None \<Rightarrow> None))))"

record 's merge_iterator =
  mi_current :: "'s heap_entry option"
  mi_iterators :: "'s heap"
  mi_pending_iterators :: "(nat \<times> 's) list"
  mi_dedup :: bool
  mi_initialized :: bool
  mi_bytes_processed :: u64
  mi_order :: iteration_order

definition merge_iterator_new_with_order :: "'s list \<Rightarrow> iteration_order \<Rightarrow> 's merge_iterator" where
  "merge_iterator_new_with_order iterators order =
     \<lparr>mi_current = None, mi_iterators = [], mi_pending_iterators = enumerate 0 iterators,
      mi_dedup = True, mi_initialized = False, mi_bytes_processed = 0, mi_order = order\<rparr>"

definition with_dedup :: "bool \<Rightarrow> 's merge_iterator \<Rightarrow> 's merge_iterator" where
  "with_dedup dedup it = it\<lparr>mi_dedup := dedup\<rparr>"

definition heap_push :: "'s heap_entry \<Rightarrow> 's heap \<Rightarrow> 's heap" where
  "heap_push e h = e # h"

definition pop_current :: "'s heap_pop \<Rightarrow> 's merge_iterator \<Rightarrow> 's merge_iterator" where
  "pop_current pop it =
     (case pop (mi_iterators it) of
        Some (e, h) \<Rightarrow> it\<lparr>mi_current := Some e, mi_iterators := h\<rparr>
      | None \<Rightarrow> it\<lparr>mi_current := None\<rparr>)"

fun seed_heap ::
    "('s \<Rightarrow> 's result) \<Rightarrow> 's next_fn \<Rightarrow> iteration_order \<Rightarrow> (nat \<times> 's) list \<Rightarrow> 's heap \<Rightarrow> 's heap result" where
  "seed_heap init nxt order [] h = Inr h"
| "seed_heap init nxt order ((index, iterator) # pending) h =
     bind_result (init iterator) (\<lambda>iterator.
     bind_result (nxt iterator) (\<lambda>(r, iterator).
     seed_heap init nxt order pending
       (case r of
          Some next_kv \<Rightarrow> heap_push \<lparr>he_next_kv = next_kv, he_index = index,
                                      he_iterator = iterator, he_order = order\<rparr> h
        | None \<Rightarrow> h)))"

definition merge_initialize ::
    "'s heap_pop \<Rightarrow> ('s \<Rightarrow> 's result) \<Rightarrow> 's next_fn \<Rightarrow> 's merge_iterator \<Rightarrow> 's merge_iterator result" where
  "merge_initialize pop init nxt it =
     (if mi_initialized it then Inr it
      else bind_result
             (seed_heap init nxt (mi_order it) (mi_pending_iterators it) (mi_iterators it)) (\<lambda>h.
           Inr ((pop_current pop (it\<lparr>mi_iterators := h, mi_pending_iterators := []\<rparr>))
                  \<lparr>mi_initialized := True\<rparr>)))"

definition merge_peek :: "'s merge_iterator \<Rightarrow> row_entry option" where
  "merge_peek it = map_option he_next_kv (mi_current it)"

definition merge_advance ::
    "'s heap_pop \<Rightarrow> 's next_fn \<Rightarrow> 's merge_iterator \<Rightarrow> (row_entry option \<times> 's merge_iterator) result" where
  "merge_advance pop nxt it =
     (case mi_current it of
        Some iterator_state \<Rightarrow>
          let current_kv = he_next_kv iterator_state
          in bind_result (nxt (he_iterator iterator_state)) (\<lambda>(r, iterator).
             let h = (case r of
                        Some kv \<Rightarrow> heap_push (iterator_state\<lparr>he_next_kv := kv, he_iterator := iterator\<rparr>)
                                     (mi_iterators it)
                      | None \<Rightarrow> mi_iterators it);
                 it' = pop_current pop (it\<lparr>mi_iterators := h\<rparr>);
                 entry_bytes = of_nat (length (re_key current_kv)) + of_nat (value_len (re_value current_kv))
             in Inr (Some current_kv, it'\<lparr>mi_bytes_processed := mi_bytes_processed it + entry_bytes\<rparr>))
      | None \<Rightarrow> Inr (None, it))"

partial_function (option) skip_versions ::
    "'s heap_pop \<Rightarrow> 's next_fn \<Rightarrow> bytes \<Rightarrow> 's merge_iterator \<Rightarrow> 's merge_iterator result option" where
  "skip_versions pop nxt key it =
     (case merge_peek it of
        None \<Rightarrow> Some (Inr it)
      | Some peeked_entry \<Rightarrow>
          if re_key peeked_entry \<noteq> key then Some (Inr it)
          else (case merge_advance pop nxt it of
                  Inl e \<Rightarrow> Some (Inl e)
                | Inr (_, it') \<Rightarrow> skip_versions pop nxt key it'))"

fun is_merge :: "value_deletable \<Rightarrow> bool" where
  "is_merge (Merge _) = True"
| "is_merge _ = False"

definition merge_next ::
    "'s heap_pop \<Rightarrow> 's next_fn \<Rightarrow> 's merge_iterator \<Rightarrow> (row_entry option \<times> 's merge_iterator) result" where
  "merge_next pop nxt it =
     (if \<not> mi_initialized it then Inl IteratorNotInitialized
      else if \<not> mi_dedup it then merge_advance pop nxt it
      else bind_result (merge_advance pop nxt it) (\<lambda>(r, it).
           case r of
             None \<Rightarrow> Inr (None, it)
           | Some current_kv \<Rightarrow>
               if \<not> is_merge (re_value current_kv)
               then (case skip_versions pop nxt (re_key current_kv) it of
                       None \<Rightarrow> Inl NonTermination
                     | Some s \<Rightarrow> bind_result s (\<lambda>it. Inr (Some current_kv, it)))
               else Inr (Some current_kv, it)))"

fun seek_entries ::
    "'s next_fn \<Rightarrow> 's seek_fn \<Rightarrow> bytes \<Rightarrow> 's heap_entry list \<Rightarrow> 's heap \<Rightarrow> 's heap result" where
  "seek_entries nxt seek next_key [] h = Inr h"
| "seek_entries nxt seek next_key (e # es) h =
     bind_result (heap_entry_seek nxt seek e next_key) (\<lambda>r.
     seek_entries nxt seek next_key es (case r of Some e' \<Rightarrow> heap_push e' h | None \<Rightarrow> h))"

definition merge_entries :: "'s merge_iterator \<Rightarrow> 's heap_entry list" where
  "merge_entries it = (case mi_current it of Some c \<Rightarrow> [c] | None \<Rightarrow> []) @ mi_iterators it"

definition merge_seek ::
    "'s heap_pop \<Rightarrow> 's next_fn \<Rightarrow> 's seek_fn \<Rightarrow> 's merge_iterator \<Rightarrow> bytes \<Rightarrow> 's merge_iterator result" where
  "merge_seek pop nxt seek it next_key =
     (if \<not> mi_initialized it then Inl IteratorNotInitialized
      else bind_result (seek_entries nxt seek next_key (merge_entries it) []) (\<lambda>h.
           Inr (pop_current pop (it\<lparr>mi_current := None, mi_iterators := h\<rparr>))))"

subsection \<open>What the merge returns\<close>

text \<open>
  A priority queue law for \<open>pop\<close> on the entries of one iterator (which all have its order), a
  \<open>pop\<close> that satisfies it, and the deduplicated form of an ordered list of versions: the
  versions of a key up to and including the newest one that is not a merge operand.
\<close>

definition heap_law :: "'s heap_pop \<Rightarrow> bool" where
  "heap_law pop \<longleftrightarrow>
     (\<forall>h order. (\<forall>e\<in>set h. he_order e = order) \<longrightarrow>
          (case pop h of
            None \<Rightarrow> h = []
          | Some (e, h') \<Rightarrow> mset h = add_mset e (mset h') \<and> (\<forall>x\<in>set h. heap_entry_cmp e x \<noteq> Greater)))"

fun pop_min :: "'s heap_pop" where
  "pop_min [] = None"
| "pop_min (e # es) =
     (case pop_min es of
        None \<Rightarrow> Some (e, [])
      | Some (m, rest) \<Rightarrow> if heap_entry_cmp m e = Less then Some (m, e # rest) else Some (e, es))"

function dedup_rows :: "row_entry list \<Rightarrow> row_entry list" where
  "dedup_rows [] = []"
| "dedup_rows (x # xs) =
     x # dedup_rows (if is_merge (re_value x) then xs else dropWhile (\<lambda>y. re_key y = re_key x) xs)"
  by pat_completeness auto
termination
  by (relation "measure length") (auto simp: le_imp_less_Suc length_dropWhile_le)

lemma heap_entry_cmp_row_le:
  "heap_entry_cmp a b \<noteq> Greater \<longleftrightarrow> row_le (he_order a) (he_next_kv a) (he_next_kv b)"
  by (cases "he_order a")
    (auto simp: heap_entry_cmp_def row_le_def case_cmp not_less Let_def split: if_splits)

lemma pop_min_law: "heap_law pop_min"
  unfolding heap_law_def
proof (intro allI impI)
  fix h :: "'a heap" and order
  assume "\<forall>e\<in>set h. he_order e = order"
  then show "case pop_min h of
            None \<Rightarrow> h = []
          | Some (e, h') \<Rightarrow> mset h = add_mset e (mset h') \<and> (\<forall>x\<in>set h. heap_entry_cmp e x \<noteq> Greater)"
  proof (induction h)
    case (Cons e es)
    show ?case
    proof (cases "pop_min es")
      case None
      with Cons show ?thesis by (auto simp: heap_entry_cmp_row_le)
    next
      case (Some r)
      obtain m rest where r: "r = (m, rest)" by (cases r)
      with Some Cons have m: "mset es = add_mset m (mset rest)"
        "\<forall>x\<in>set es. row_le order (he_next_kv m) (he_next_kv x)" "he_order m = order" "he_order e = order"
        by (auto simp: heap_entry_cmp_row_le dest: union_single_eq_member [OF sym])
      show ?thesis
      proof (cases "heap_entry_cmp m e = Less")
        case True
        then have "row_le order (he_next_kv m) (he_next_kv e)"
          using heap_entry_cmp_row_le [of m e] m(3) by simp
        with True Some r m show ?thesis by (simp add: heap_entry_cmp_row_le)
      next
        case False
        then have "row_le order (he_next_kv e) (he_next_kv m)"
          using m(3) by (cases order)
            (auto simp: heap_entry_cmp_def row_le_def case_cmp not_less Let_def split: if_splits)
        then have "\<forall>x\<in>set es. row_le order (he_next_kv e) (he_next_kv x)"
          using m(2) by (blast intro: row_le_trans)
        with False Some r m(4) show ?thesis by (simp add: heap_entry_cmp_row_le)
      qed
    qed
  qed simp
qed

locale merge_sources = row_source inv rows nxt seek ord' behind init ready source_rows
  for inv :: "'s \<Rightarrow> bool" and rows and nxt and seek and ord' and behind and init and ready and source_rows +
  fixes pop :: "'s heap_pop"
  assumes pop_law: "heap_law pop"
begin

definition entry_rows :: "'s heap_entry \<Rightarrow> row_entry list" where
  "entry_rows e = he_next_kv e # rows (he_iterator e)"

definition entry_ok :: "'s heap_entry \<Rightarrow> bool" where
  "entry_ok e \<longleftrightarrow> inv (he_iterator e) \<and> he_order e = ord' \<and> sorted_wrt (row_le ord') (entry_rows e)
     \<and> (\<forall>k. precedes ord' (re_key (he_next_kv e)) k \<longrightarrow> behind (he_iterator e) k)"

definition heap_rows :: "'s heap_entry list \<Rightarrow> row_entry multiset" where
  "heap_rows es = (\<Sum>e\<in>#mset es. mset (entry_rows e))"

definition merge_ok :: "'s merge_iterator \<Rightarrow> bool" where
  "merge_ok it \<longleftrightarrow> mi_initialized it \<and> mi_order it = ord' \<and> list_all entry_ok (merge_entries it)
     \<and> (case mi_current it of
           None \<Rightarrow> mi_iterators it = []
         | Some c \<Rightarrow> \<forall>e\<in>set (mi_iterators it). row_le ord' (he_next_kv c) (he_next_kv e))"

lemma heap_rows_simps [simp]:
  "heap_rows [] = {#}"
  "heap_rows (e # es) = mset (entry_rows e) + heap_rows es"
  by (simp_all add: heap_rows_def)

lemma heap_rows_mset: "mset es = mset es' \<Longrightarrow> heap_rows es = heap_rows es'"
  by (simp add: heap_rows_def)

lemma pop_current_props:
  assumes "list_all entry_ok (mi_iterators it)" "mi_initialized it" "mi_order it = ord'"
  shows "merge_ok (pop_current pop it)"
    and "heap_rows (merge_entries (pop_current pop it)) = heap_rows (mi_iterators it)"
    and "mi_dedup (pop_current pop it) = mi_dedup it"
    and "merge_ok (pop_current pop (it\<lparr>mi_bytes_processed := b\<rparr>))"
proof -
  have law: "case pop (mi_iterators it) of
            None \<Rightarrow> mi_iterators it = []
          | Some (e, h') \<Rightarrow> mset (mi_iterators it) = add_mset e (mset h')
              \<and> (\<forall>x\<in>set (mi_iterators it). heap_entry_cmp e x \<noteq> Greater)"
    using pop_law assms(1) unfolding heap_law_def
    by (auto simp: list_all_iff entry_ok_def)
  show "merge_ok (pop_current pop it)"
    "heap_rows (merge_entries (pop_current pop it)) = heap_rows (mi_iterators it)"
    "mi_dedup (pop_current pop it) = mi_dedup it"
    "merge_ok (pop_current pop (it\<lparr>mi_bytes_processed := b\<rparr>))"
  proof (atomize (full), cases "pop (mi_iterators it)", goal_cases)
    case 1
    with law assms show ?case by (auto simp: pop_current_def merge_ok_def merge_entries_def heap_rows_def)
  next
    case (2 r)
    obtain e h where r: "r = (e, h)" by (cases r)
    with 2 law have m: "mset (mi_iterators it) = add_mset e (mset h)"
      and min: "\<forall>x\<in>set (mi_iterators it). heap_entry_cmp e x \<noteq> Greater" by auto
    then have set: "set (mi_iterators it) = insert e (set h)"
      by (metis set_mset_add_mset_insert set_mset_mset)
    with assms(1) have ok: "entry_ok e" "list_all entry_ok h" by (auto simp: list_all_iff)
    from min set ok(1) have "\<forall>x\<in>set h. row_le ord' (he_next_kv e) (he_next_kv x)"
      by (auto simp: heap_entry_cmp_row_le entry_ok_def)
    moreover have "heap_rows (e # h) = heap_rows (mi_iterators it)"
      by (rule heap_rows_mset) (simp add: m)
    ultimately show ?case
      using 2 r ok assms by (simp add: pop_current_def merge_ok_def merge_entries_def)
  qed
qed

lemma pop_current_bytes [simp]:
  "(pop_current pop it)\<lparr>mi_bytes_processed := b\<rparr> = pop_current pop (it\<lparr>mi_bytes_processed := b\<rparr>)"
  by (auto simp: pop_current_def split: option.splits)

lemma merge_entries_bytes [simp]: "merge_entries (it\<lparr>mi_bytes_processed := b\<rparr>) = merge_entries it"
  by (simp add: merge_entries_def)

lemma heap_rows_min:
  assumes "merge_ok it" "mi_current it = Some c" "x \<in># heap_rows (merge_entries it)"
  shows "row_le ord' (he_next_kv c) x"
proof -
  from assms(3) obtain e where e: "e \<in> set (merge_entries it)" "x \<in> set (entry_rows e)"
    by (auto simp: heap_rows_def)
  with assms(1) have "entry_ok e" by (auto simp: merge_ok_def list_all_iff)
  then have "row_le ord' (he_next_kv e) x"
    using e(2) by (auto simp: entry_ok_def entry_rows_def)
  moreover have "row_le ord' (he_next_kv c) (he_next_kv e)"
    using assms(1,2) e(1) by (auto simp: merge_ok_def merge_entries_def)
  ultimately show ?thesis by (rule row_le_trans [rotated])
qed

lemma entry_next:
  assumes "entry_ok c"
  shows "\<exists>r s'. nxt (he_iterator c) = Inr (r, s')
    \<and> (case r of
         None \<Rightarrow> entry_rows c = [he_next_kv c]
       | Some kv \<Rightarrow> entry_rows c = he_next_kv c # entry_rows (c\<lparr>he_next_kv := kv, he_iterator := s'\<rparr>)
                     \<and> entry_ok (c\<lparr>he_next_kv := kv, he_iterator := s'\<rparr>))"
proof (cases "rows (he_iterator c)")
  case Nil
  with assms next_end [of "he_iterator c"] show ?thesis by (auto simp: entry_ok_def entry_rows_def)
next
  case (Cons x xs)
  with assms next_row [of "he_iterator c" x xs] obtain s' where
    s': "nxt (he_iterator c) = Inr (Some x, s')" "inv s'" "rows s' = xs"
    by (auto simp: entry_ok_def)
  moreover have "precedes ord' (re_key x) k \<Longrightarrow> behind s' k" for k
    using next_behind [of "he_iterator c" x xs s' k] Cons s' assms by (simp add: entry_ok_def)
  ultimately show ?thesis using assms Cons by (auto simp: entry_ok_def entry_rows_def)
qed

lemma advance_some:
  assumes "merge_ok it" "mi_current it = Some c"
  shows "\<exists>it'. merge_advance pop nxt it = Inr (Some (he_next_kv c), it') \<and> merge_ok it'
    \<and> mi_dedup it' = mi_dedup it
    \<and> heap_rows (merge_entries it) = add_mset (he_next_kv c) (heap_rows (merge_entries it'))"
proof -
  from assms have c: "entry_ok c" and heap: "list_all entry_ok (mi_iterators it)"
    and flags: "mi_initialized it" "mi_order it = ord'"
    by (auto simp: merge_ok_def merge_entries_def)
  from entry_next [OF c] obtain r s' where r: "nxt (he_iterator c) = Inr (r, s')"
    "case r of
         None \<Rightarrow> entry_rows c = [he_next_kv c]
       | Some kv \<Rightarrow> entry_rows c = he_next_kv c # entry_rows (c\<lparr>he_next_kv := kv, he_iterator := s'\<rparr>)
                     \<and> entry_ok (c\<lparr>he_next_kv := kv, he_iterator := s'\<rparr>)" by blast
  define h where "h = (case r of
      Some kv \<Rightarrow> heap_push (c\<lparr>he_next_kv := kv, he_iterator := s'\<rparr>) (mi_iterators it)
    | None \<Rightarrow> mi_iterators it)"
  have h: "list_all entry_ok h" "heap_rows (merge_entries it) = add_mset (he_next_kv c) (heap_rows h)"
    using r(2) heap assms(2) by (auto simp: h_def heap_push_def merge_entries_def split: option.splits)
  define it1 where "it1 = it\<lparr>mi_iterators := h,
    mi_bytes_processed := mi_bytes_processed it
      + (of_nat (length (re_key (he_next_kv c))) + of_nat (value_len (re_value (he_next_kv c))))\<rparr>"
  have "merge_advance pop nxt it = Inr (Some (he_next_kv c), pop_current pop it1)"
    using assms(2) r(1) by (simp add: merge_advance_def h_def it1_def Let_def)
  moreover have "mi_iterators it1 = h" "mi_initialized it1" "mi_order it1 = ord'" "mi_dedup it1 = mi_dedup it"
    using flags by (simp_all add: it1_def)
  ultimately show ?thesis
    using pop_current_props [of it1] h by simp
qed

lemma advance_none:
  assumes "merge_ok it" "mi_current it = None"
  shows "merge_advance pop nxt it = Inr (None, it)" "heap_rows (merge_entries it) = {#}"
  using assms by (auto simp: merge_advance_def merge_ok_def merge_entries_def)

lemma advance_yields:
  assumes "merge_ok it"
  shows "\<exists>out. yields (merge_advance pop nxt) it out \<and> sorted_wrt (row_le ord') out
    \<and> mset out = heap_rows (merge_entries it)"
  using assms
proof (induction "size (heap_rows (merge_entries it))" arbitrary: it rule: less_induct)
  case less
  show ?case
  proof (cases "mi_current it")
    case None
    with advance_none [OF less.prems] show ?thesis by (intro exI [of _ "[]"]) simp
  next
    case (Some c)
    from advance_some [OF less.prems Some] obtain it' where
      it': "merge_advance pop nxt it = Inr (Some (he_next_kv c), it')" "merge_ok it'"
        "heap_rows (merge_entries it) = add_mset (he_next_kv c) (heap_rows (merge_entries it'))" by blast
    from less.hyps [OF _ it'(2)] it'(3) obtain out where
      out: "yields (merge_advance pop nxt) it' out" "sorted_wrt (row_le ord') out"
        "mset out = heap_rows (merge_entries it')" by auto
    have "\<forall>x\<in>set out. row_le ord' (he_next_kv c) x"
      using heap_rows_min [OF less.prems Some] it'(3) out(3) by (metis in_multiset_in_set insert_iff set_mset_add_mset_insert)
    with it' out show ?thesis by (intro exI [of _ "he_next_kv c # out"]) simp
  qed
qed

lemma advance_step:
  assumes "merge_ok it" "yields (merge_advance pop nxt) it (x # out)"
  obtains c it' where "mi_current it = Some c" "x = he_next_kv c"
    "merge_advance pop nxt it = Inr (Some x, it')" "merge_ok it'" "mi_dedup it' = mi_dedup it"
    "yields (merge_advance pop nxt) it' out"
proof (cases "mi_current it")
  case None
  with advance_none [OF assms(1)] assms(2) show thesis by simp
next
  case (Some c)
  from advance_some [OF assms(1) Some] assms(2) that [OF Some] show thesis by auto
qed

lemma advance_end:
  assumes "merge_ok it" "yields (merge_advance pop nxt) it []"
  shows "mi_current it = None" "merge_advance pop nxt it = Inr (None, it)"
proof -
  show "mi_current it = None"
  proof (cases "mi_current it")
    case (Some c)
    from advance_some [OF assms(1) Some] assms(2) show ?thesis by auto
  qed
  with advance_none [OF assms(1)] show "merge_advance pop nxt it = Inr (None, it)" by simp
qed

lemma skip_versions_yields:
  assumes "merge_ok it" "yields (merge_advance pop nxt) it out"
  shows "\<exists>it'. skip_versions pop nxt k it = Some (Inr it') \<and> merge_ok it' \<and> mi_dedup it' = mi_dedup it
    \<and> yields (merge_advance pop nxt) it' (dropWhile (\<lambda>y. re_key y = k) out)"
  using assms
proof (induction out arbitrary: it)
  case Nil
  with advance_end [OF Nil] show ?case
    by (subst skip_versions.simps) (auto simp: merge_peek_def)
next
  case (Cons x out)
  from advance_step [OF Cons.prems] obtain c it' where
    c: "mi_current it = Some c" "x = he_next_kv c" "merge_advance pop nxt it = Inr (Some x, it')"
    and it': "merge_ok it'" "mi_dedup it' = mi_dedup it" "yields (merge_advance pop nxt) it' out" by blast
  show ?case
  proof (cases "re_key x = k")
    case True
    with c Cons.IH [OF it'(1,3)] it'(2) show ?thesis
      by (subst skip_versions.simps) (auto simp: merge_peek_def)
  next
    case False
    with c Cons.prems show ?thesis
      by (subst skip_versions.simps) (auto simp: merge_peek_def)
  qed
qed

lemma next_yields_dedup:
  assumes "merge_ok it" "mi_dedup it" "yields (merge_advance pop nxt) it out"
  shows "yields (merge_next pop nxt) it (dedup_rows out)"
  using assms
proof (induction out arbitrary: it rule: dedup_rows.induct)
  case 1
  have "mi_initialized it" using 1 by (simp add: merge_ok_def)
  with advance_end [OF 1(1,3)] 1(2) show ?case by (simp add: merge_next_def [of pop nxt it])
next
  case (2 x xs)
  have init: "mi_initialized it" using 2 by (simp add: merge_ok_def)
  from advance_step [OF "2.prems"(1,3)] obtain c it' where
    adv: "merge_advance pop nxt it = Inr (Some x, it')"
    and it': "merge_ok it'" "mi_dedup it' = mi_dedup it" "yields (merge_advance pop nxt) it' xs" by blast
  show ?case
  proof (cases "is_merge (re_value x)")
    case True
    have "yields (merge_next pop nxt) it' (dedup_rows xs)"
      using "2.IH" [of it'] True it' "2.prems"(2) by simp
    with True init adv "2.prems"(2) show ?thesis by (simp add: merge_next_def [of pop nxt it])
  next
    case False
    from skip_versions_yields [OF it'(1,3), of "re_key x"] obtain it'' where
      skip: "skip_versions pop nxt (re_key x) it' = Some (Inr it'')"
      and it'': "merge_ok it''" "mi_dedup it'' = mi_dedup it'"
        "yields (merge_advance pop nxt) it'' (dropWhile (\<lambda>y. re_key y = re_key x) xs)" by blast
    have "yields (merge_next pop nxt) it'' (dedup_rows (dropWhile (\<lambda>y. re_key y = re_key x) xs))"
      using "2.IH" [of it''] False it'(2) it'' "2.prems"(2) by simp
    with False init adv skip "2.prems"(2) show ?thesis by (simp add: merge_next_def [of pop nxt it])
  qed
qed

lemma next_yields_all:
  assumes "merge_ok it" "\<not> mi_dedup it" "yields (merge_advance pop nxt) it out"
  shows "yields (merge_next pop nxt) it out"
  using assms
proof (induction out arbitrary: it)
  case Nil
  have "mi_initialized it" using Nil by (simp add: merge_ok_def)
  with advance_end [OF Nil(1,3)] Nil(2) show ?case by (simp add: merge_next_def [of pop nxt it])
next
  case (Cons x out)
  have init: "mi_initialized it" using Cons by (simp add: merge_ok_def)
  from advance_step [OF Cons.prems(1,3)] obtain c it' where
    "merge_advance pop nxt it = Inr (Some x, it')" "merge_ok it'" "mi_dedup it' = mi_dedup it"
    "yields (merge_advance pop nxt) it' out" by blast
  with Cons.IH [of it'] Cons.prems(2) init show ?case by (simp add: merge_next_def [of pop nxt it])
qed

lemma next_yields:
  assumes "merge_ok it"
  shows "\<exists>out. yields (merge_next pop nxt) it (if mi_dedup it then dedup_rows out else out)
    \<and> sorted_wrt (row_le ord') out \<and> mset out = heap_rows (merge_entries it)"
  using advance_yields [OF assms] next_yields_dedup [OF assms] next_yields_all [OF assms] by auto

lemma new_entry_ok:
  assumes "inv s"
  shows "\<exists>r s'. nxt s = Inr (r, s') \<and>
    (case r of None \<Rightarrow> rows s = []
     | Some kv \<Rightarrow> rows s = kv # rows s'
         \<and> entry_ok \<lparr>he_next_kv = kv, he_index = i, he_iterator = s', he_order = ord'\<rparr>)"
proof (cases "rows s")
  case Nil
  with assms next_end [of s] show ?thesis by auto
next
  case (Cons x xs)
  with assms next_row [of s x xs] obtain s' where
    s': "nxt s = Inr (Some x, s')" "inv s'" "rows s' = xs" by auto
  moreover have "precedes ord' (re_key x) k \<Longrightarrow> behind s' k" for k
    using next_behind [OF assms Cons s'(1)] .
  ultimately show ?thesis
    using Cons rows_sorted [OF assms] by (auto simp: entry_ok_def entry_rows_def)
qed

lemma seed_heap_rows:
  assumes "list_all ready (map snd ps)" "list_all entry_ok h"
  shows "\<exists>h'. seed_heap init nxt ord' ps h = Inr h' \<and> list_all entry_ok h'
    \<and> heap_rows h' = heap_rows h + (\<Sum>s\<in>#mset (map snd ps). mset (source_rows s))"
  using assms
proof (induction ps arbitrary: h)
  case (Cons p ps)
  obtain i s where p: "p = (i, s)" by (cases p)
  with Cons.prems obtain s' where s': "init s = Inr s'" "inv s'" "rows s' = source_rows s"
    using init_ready [of s] by auto
  from new_entry_ok [OF s'(2), of i] obtain r s'' where
    r: "nxt s' = Inr (r, s'')"
      "case r of None \<Rightarrow> rows s' = []
       | Some kv \<Rightarrow> rows s' = kv # rows s''
           \<and> entry_ok \<lparr>he_next_kv = kv, he_index = i, he_iterator = s'', he_order = ord'\<rparr>" by blast
  define h1 where "h1 = (case r of
      Some kv \<Rightarrow> heap_push \<lparr>he_next_kv = kv, he_index = i, he_iterator = s'', he_order = ord'\<rparr> h
    | None \<Rightarrow> h)"
  have h1: "list_all entry_ok h1" "heap_rows h1 = heap_rows h + mset (source_rows s)"
    using r(2) Cons.prems(2)
    by (auto simp: h1_def heap_push_def entry_rows_def s'(3) [symmetric] split: option.splits)
  have "seed_heap init nxt ord' (p # ps) h = seed_heap init nxt ord' ps h1"
    using s'(1) r(1) by (simp add: p h1_def)
  with Cons.IH [of h1] Cons.prems(1) h1 p show ?case by (auto simp: ac_simps)
qed simp

lemma initialize_rows:
  assumes "list_all ready sources"
  shows "\<exists>it. merge_initialize pop init nxt (with_dedup d (merge_iterator_new_with_order sources ord')) = Inr it
    \<and> merge_ok it \<and> mi_dedup it = d
    \<and> heap_rows (merge_entries it) = (\<Sum>s\<in>#mset sources. mset (source_rows s))"
proof -
  have "list_all ready (map snd (enumerate 0 sources))" using assms by simp
  from seed_heap_rows [OF this, of "[]"] obtain h where
    h: "seed_heap init nxt ord' (enumerate 0 sources) [] = Inr h" "list_all entry_ok h"
      "heap_rows h = (\<Sum>s\<in>#mset sources. mset (source_rows s))" by auto
  define it0 where "it0 = (with_dedup d (merge_iterator_new_with_order sources ord'))
    \<lparr>mi_iterators := h, mi_pending_iterators := [], mi_initialized := True\<rparr>"
  have "merge_initialize pop init nxt (with_dedup d (merge_iterator_new_with_order sources ord'))
          = Inr (pop_current pop it0)"
    using h(1)
    by (simp add: merge_initialize_def with_dedup_def merge_iterator_new_with_order_def it0_def
        pop_current_def split: option.splits)
  moreover have "mi_iterators it0 = h" "mi_initialized it0" "mi_order it0 = ord'" "mi_dedup it0 = d"
    by (simp_all add: it0_def with_dedup_def merge_iterator_new_with_order_def)
  ultimately show ?thesis using pop_current_props [of it0] h by simp
qed

lemma entry_seek:
  assumes "entry_ok e" "ord' = Ascending"
  shows "\<exists>r. heap_entry_seek nxt seek e k = Inr r
    \<and> (case r of None \<Rightarrow> {#} | Some e' \<Rightarrow> mset (entry_rows e'))
        = filter_mset (\<lambda>x. \<not> re_key x < k) (mset (entry_rows e))
    \<and> (case r of None \<Rightarrow> True | Some e' \<Rightarrow> entry_ok e')"
proof (cases "re_key (he_next_kv e) \<ge> k")
  case True
  from assms(1) have "sorted_wrt (row_le ord') (entry_rows e)" by (simp add: entry_ok_def)
  with True have "\<forall>x\<in>set (entry_rows e). \<not> re_key x < k"
    using assms(2) by (auto simp: entry_rows_def row_le_def split: if_splits)
  then have "filter_mset (\<lambda>x. \<not> re_key x < k) (mset (entry_rows e)) = mset (entry_rows e)"
    by (simp add: filter_id_conv flip: mset_filter)
  with True assms(1) show ?thesis by (simp add: heap_entry_seek_def)
next
  case False
  from assms(1) have b: "precedes ord' (re_key (he_next_kv e)) k \<Longrightarrow> behind (he_iterator e) k"
    and sorted: "sorted_wrt (row_le ord') (rows (he_iterator e))"
    by (simp_all add: entry_ok_def entry_rows_def)
  from False assms(2) b have "behind (he_iterator e) k" by simp
  then obtain s where s: "seek (he_iterator e) k = Inr s" "inv s"
    "rows s = dropWhile (\<lambda>x. precedes ord' (re_key x) k) (rows (he_iterator e))"
    using seek_forward [OF assms(2), of "he_iterator e" k] assms(1) by (auto simp: entry_ok_def)
  have rows: "rows s = filter (\<lambda>x. \<not> re_key x < k) (entry_rows e)"
    using s(3) False assms(2) sorted_dropWhile_filter [OF sorted, of k]
    by (simp add: entry_rows_def)
  from new_entry_ok [OF s(2), of "he_index e"] obtain r s' where
    r: "nxt s = Inr (r, s')"
      "case r of None \<Rightarrow> rows s = []
       | Some kv \<Rightarrow> rows s = kv # rows s'
           \<and> entry_ok \<lparr>he_next_kv = kv, he_index = he_index e, he_iterator = s', he_order = ord'\<rparr>" by blast
  have ord: "he_order e = ord'" using assms(1) by (simp add: entry_ok_def)
  have "filter_mset (\<lambda>x. \<not> re_key x < k) (mset (entry_rows e)) = mset (rows s)"
    by (simp only: rows mset_filter)
  with False s(1) r ord show ?thesis
    by (auto simp: heap_entry_seek_def entry_rows_def split: option.splits)
qed

lemma seek_entries_rows:
  assumes "list_all entry_ok es" "list_all entry_ok h" "ord' = Ascending"
  shows "\<exists>h'. seek_entries nxt seek k es h = Inr h' \<and> list_all entry_ok h'
    \<and> heap_rows h' = heap_rows h + filter_mset (\<lambda>x. \<not> re_key x < k) (heap_rows es)"
  using assms(1,2)
proof (induction es arbitrary: h)
  case (Cons e es)
  then have "entry_ok e" by simp
  from entry_seek [OF this assms(3), of k] obtain r where
    r: "heap_entry_seek nxt seek e k = Inr r"
      "(case r of None \<Rightarrow> {#} | Some e' \<Rightarrow> mset (entry_rows e'))
          = filter_mset (\<lambda>x. \<not> re_key x < k) (mset (entry_rows e))"
      "case r of None \<Rightarrow> True | Some e' \<Rightarrow> entry_ok e'" by blast
  define h1 where "h1 = (case r of Some e' \<Rightarrow> heap_push e' h | None \<Rightarrow> h)"
  have h1: "list_all entry_ok h1"
    "heap_rows h1 = heap_rows h + filter_mset (\<lambda>x. \<not> re_key x < k) (mset (entry_rows e))"
    unfolding r(2) [symmetric] using r(3) Cons.prems(2)
    by (auto simp: h1_def heap_push_def split: option.splits)
  with Cons.IH [of h1] Cons.prems(1) r(1) show ?case by (auto simp: h1_def ac_simps)
qed simp

lemma seek_rows:
  assumes "merge_ok it" "ord' = Ascending"
  shows "\<exists>it'. merge_seek pop nxt seek it k = Inr it' \<and> merge_ok it' \<and> mi_dedup it' = mi_dedup it
    \<and> heap_rows (merge_entries it') = filter_mset (\<lambda>x. \<not> re_key x < k) (heap_rows (merge_entries it))"
proof -
  from assms(1) have ok: "list_all entry_ok (merge_entries it)" and flags: "mi_initialized it" "mi_order it = ord'"
    by (auto simp: merge_ok_def)
  from seek_entries_rows [OF ok _ assms(2), of "[]" k] obtain h where
    h: "seek_entries nxt seek k (merge_entries it) [] = Inr h" "list_all entry_ok h"
      "heap_rows h = filter_mset (\<lambda>x. \<not> re_key x < k) (heap_rows (merge_entries it))" by auto
  let ?it = "it\<lparr>mi_current := None, mi_iterators := h\<rparr>"
  have "merge_seek pop nxt seek it k = Inr (pop_current pop ?it)"
    using h(1) flags by (simp add: merge_seek_def)
  with pop_current_props [of ?it] h flags show ?thesis by simp
qed

end

subsection \<open>Which versions the deduplicated merge returns\<close>

lemma row_le_key_contiguous:
  assumes "row_le ord' y z" "row_le ord' x y" "row_le ord' x z" "re_key y \<noteq> re_key x"
  shows "re_key z \<noteq> re_key x"
proof
  assume "re_key z = re_key x"
  with assms have "precedes ord' (re_key x) (re_key y)" "precedes ord' (re_key y) (re_key x)"
    by (simp_all add: row_le_def)
  then show False using precedes_asym by blast
qed

lemma sorted_dropWhile_key:
  "sorted_wrt (row_le ord') xs \<Longrightarrow> (\<forall>y\<in>set xs. row_le ord' x y) \<Longrightarrow>
   dropWhile (\<lambda>y. re_key y = re_key x) xs = filter (\<lambda>y. re_key y \<noteq> re_key x) xs"
proof (rule dropWhile_filter, erule sorted_wrt_mono_rel [rotated])
  fix y z assume "y \<in> set xs" "z \<in> set xs" "row_le ord' y z" "\<forall>y\<in>set xs. row_le ord' x y"
  then show "re_key y \<noteq> re_key x \<longrightarrow> re_key z \<noteq> re_key x"
    using row_le_key_contiguous [of ord' y z x] by blast
qed

text \<open>A version is visible when every newer version of its key is a merge operand.\<close>

definition visible_version :: "row_entry set \<Rightarrow> row_entry \<Rightarrow> bool" where
  "visible_version S x \<longleftrightarrow> (\<forall>y\<in>S. re_key y = re_key x \<and> re_seq x < re_seq y \<longrightarrow> is_merge (re_value y))"

lemma set_dedup_rows:
  assumes "sorted_wrt (row_le ord') out" "distinct (map (\<lambda>e. (re_key e, re_seq e)) out)"
  shows "set (dedup_rows out) = {x \<in> set out. visible_version (set out) x}"
  using assms
proof (induction out rule: dedup_rows.induct)
  case (2 x xs)
  define P where "P = (\<lambda>y :: row_entry. is_merge (re_value x) \<or> re_key y \<noteq> re_key x)"
  have rest: "(if is_merge (re_value x) then xs else dropWhile (\<lambda>y. re_key y = re_key x) xs) = filter P xs"
    using sorted_dropWhile_key [of ord' xs x] "2.prems"(1) by (auto simp: P_def)
  have older: "re_seq y < re_seq x" if "y \<in> set xs" "re_key y = re_key x" for y
  proof -
    have "re_seq y \<le> re_seq x" using "2.prems"(1) that by (auto simp: row_le_def)
    moreover have "re_seq y \<noteq> re_seq x" using "2.prems"(2) that by (auto simp: image_iff)
    ultimately show ?thesis by simp
  qed
  have "sorted_wrt (row_le ord') (filter P xs)" "distinct (map (\<lambda>e. (re_key e, re_seq e)) (filter P xs))"
    using "2.prems" by (simp_all add: sorted_wrt_filter distinct_map_filter)
  from "2.IH" [unfolded rest, OF this]
  have IH: "set (dedup_rows (filter P xs)) = {y \<in> set (filter P xs). visible_version (set (filter P xs)) y}" .
  have x: "visible_version (set (x # xs)) x"
    using older unfolding visible_version_def by (metis less_asym set_ConsD)
  have y: "visible_version (set (x # xs)) y \<longleftrightarrow> P y \<and> visible_version (set (filter P xs)) y"
    if "y \<in> set xs" for y
  proof (cases "re_key y = re_key x")
    case True
    with older [OF that] show ?thesis by (auto simp: visible_version_def P_def)
  next
    case False
    then show ?thesis by (auto simp: visible_version_def P_def)
  qed
  have "set (dedup_rows (x # xs)) = insert x {y \<in> set (filter P xs). visible_version (set (filter P xs)) y}"
    unfolding dedup_rows.simps rest list.set(2) IH ..
  also have "\<dots> = {y \<in> set (x # xs). visible_version (set (x # xs)) y}"
    using x y by auto
  finally show ?case .
qed simp

end
