(* ===== verification/BitCodec.thy ===== *)
theory BitCodec
  imports Prelude
begin

section \<open>Bit-level buffers: the \<open>BitWriter\<close> and \<open>BitReader\<close> of \<open>utils.rs\<close>\<close>

text \<open>
  A writer that packs bits into bytes, most significant bit first, and a reader that takes them
  out again. Both are related to the list of bits they stand for: writing appends to that list,
  finishing pads it with zeros to whole bytes, reading removes from its front.
\<close>

unbundle bit_operations_syntax

subsection \<open>Definitions\<close>

record bit_writer =
  bw_buf :: bytes
  bw_cur :: u8
  bw_n :: nat

definition bit_writer_new :: bit_writer where
  "bit_writer_new = \<lparr>bw_buf = [], bw_cur = 0, bw_n = 0\<rparr>"

definition flush_byte :: "bit_writer \<Rightarrow> bit_writer" where
  "flush_byte w = \<lparr>bw_buf = bw_buf w @ [bw_cur w], bw_cur = 0, bw_n = 0\<rparr>"

definition bw_push :: "bit_writer \<Rightarrow> bool \<Rightarrow> bit_writer" where
  "bw_push w b =
     (let w = (if b then w\<lparr>bw_cur := bw_cur w OR push_bit (7 - bw_n w) 1\<rparr> else w);
          w = w\<lparr>bw_n := bw_n w + 1\<rparr>
      in if bw_n w = 8 then flush_byte w else w)"

fun push_word :: "bit_writer \<Rightarrow> 'a::len word \<Rightarrow> nat \<Rightarrow> bit_writer" where
  "push_word w v 0 = w"
| "push_word w v (Suc i) = push_word (bw_push w ((drop_bit i v) AND 1 \<noteq> 0)) v i"

definition push32 :: "bit_writer \<Rightarrow> u32 \<Rightarrow> nat \<Rightarrow> bit_writer" where
  "push32 w v bits = push_word w v bits"

definition push64 :: "bit_writer \<Rightarrow> u64 \<Rightarrow> nat \<Rightarrow> bit_writer" where
  "push64 w v bits = push_word w v bits"

definition bw_finish :: "bit_writer \<Rightarrow> bytes" where
  "bw_finish w = (if bw_n w > 0 then bw_buf w @ [bw_cur w] else bw_buf w)"

record bit_reader =
  br_buf :: bytes
  br_byte_pos :: nat
  br_bit_pos :: nat

definition bit_reader_new :: "bytes \<Rightarrow> bit_reader" where
  "bit_reader_new buf = \<lparr>br_buf = buf, br_byte_pos = 0, br_bit_pos = 0\<rparr>"

definition read_bit :: "bit_reader \<Rightarrow> (bool \<times> bit_reader) option" where
  "read_bit r =
     (if br_byte_pos r \<ge> length (br_buf r) then None
      else let byte = br_buf r ! br_byte_pos r;
               b = (drop_bit (7 - br_bit_pos r) byte AND 1 \<noteq> 0);
               r = r\<lparr>br_bit_pos := br_bit_pos r + 1\<rparr>;
               r = (if br_bit_pos r = 8 then r\<lparr>br_bit_pos := 0, br_byte_pos := br_byte_pos r + 1\<rparr> else r)
           in Some (b, r))"

fun read_word :: "bit_reader \<Rightarrow> 'a::len word \<Rightarrow> nat \<Rightarrow> ('a word \<times> bit_reader) option" where
  "read_word r v 0 = Some (v, r)"
| "read_word r v (Suc n) =
     (case read_bit r of
        None \<Rightarrow> None
      | Some (b, r) \<Rightarrow> read_word r (if b then push_bit 1 v OR 1 else push_bit 1 v) n)"

definition read32 :: "bit_reader \<Rightarrow> nat \<Rightarrow> (u32 \<times> bit_reader) option" where
  "read32 r bits = read_word r 0 bits"

definition read64 :: "bit_reader \<Rightarrow> nat \<Rightarrow> (u64 \<times> bit_reader) option" where
  "read64 r bits = read_word r 0 bits"

definition sign_extend :: "u32 \<Rightarrow> nat \<Rightarrow> 32 word" where
  "sign_extend v bits = (let shift = 32 - bits in signed_drop_bit shift (push_bit shift v))"

subsection \<open>Writers and the bits they hold\<close>

definition byte_bits :: "byte \<Rightarrow> bool list" where
  "byte_bits b = map (\<lambda>i. bit b (7 - i)) [0..<8]"

definition bytes_bits :: "bytes \<Rightarrow> bool list" where
  "bytes_bits bs = concat (map byte_bits bs)"

definition bw_bits :: "bit_writer \<Rightarrow> bool list" where
  "bw_bits w = bytes_bits (bw_buf w) @ take (bw_n w) (byte_bits (bw_cur w))"

definition bw_ok :: "bit_writer \<Rightarrow> bool" where
  "bw_ok w \<longleftrightarrow> bw_n w < 8 \<and> (\<forall>i<8. bw_n w \<le> i \<longrightarrow> \<not> bit (bw_cur w) (7 - i))"

definition word_bits :: "nat \<Rightarrow> 'a::len word \<Rightarrow> bool list" where
  "word_bits n v = map (bit v) (rev [0..<n])"

lemma length_byte_bits [simp]: "length (byte_bits b) = 8"
  by (simp add: byte_bits_def)

lemma length_bytes_bits [simp]: "length (bytes_bits bs) = 8 * length bs"
  by (induction bs) (auto simp: bytes_bits_def)

lemma bytes_bits_append [simp]: "bytes_bits (xs @ ys) = bytes_bits xs @ bytes_bits ys"
  by (simp add: bytes_bits_def)

lemma bytes_bits_simps [simp]: "bytes_bits [] = []" "bytes_bits (b # bs) = byte_bits b @ bytes_bits bs"
  by (simp_all add: bytes_bits_def)

lemma nth_byte_bits: "i < 8 \<Longrightarrow> byte_bits b ! i = bit b (7 - i)"
  by (simp add: byte_bits_def)

lemma drop_bit_and_1: "drop_bit i v AND 1 \<noteq> 0 \<longleftrightarrow> bit (v :: 'a::len word) i"
  by (simp add: bit_iff_and_drop_bit_eq_1 and_one_eq odd_iff_mod_2_eq_one)

lemma bw_new [simp]: "bw_ok bit_writer_new" "bw_bits bit_writer_new = []"
  by (simp_all add: bw_ok_def bw_bits_def bit_writer_new_def)

lemma take_byte_bits_set:
  assumes "n < 8" "\<forall>i<8. n \<le> i \<longrightarrow> \<not> bit c (7 - i)"
  shows "take (Suc n) (byte_bits (if b then c OR push_bit (7 - n) 1 else c)) = take n (byte_bits c) @ [b]"
proof (rule nth_equalityI)
  fix i assume "i < length (take (Suc n) (byte_bits (if b then c OR push_bit (7 - n) 1 else c)))"
  then have i: "i \<le> n" "i < 8" using assms(1) by auto
  have "bit (push_bit (7 - n) (1 :: byte)) (7 - i) \<longleftrightarrow> i = n"
    using i assms(1) by (auto simp: bit_simps)
  then show "take (Suc n) (byte_bits (if b then c OR push_bit (7 - n) 1 else c)) ! i
               = (take n (byte_bits c) @ [b]) ! i"
    using i assms by (auto simp: nth_append nth_byte_bits bit_or_iff)
qed (use assms in simp)

lemma bw_push:
  assumes "bw_ok w"
  shows "bw_ok (bw_push w b)" "bw_bits (bw_push w b) = bw_bits w @ [b]"
proof -
  let ?n = "bw_n w"
  let ?c = "if b then bw_cur w OR push_bit (7 - ?n) 1 else bw_cur w"
  from assms have n: "?n < 8" and zero: "\<forall>i<8. ?n \<le> i \<longrightarrow> \<not> bit (bw_cur w) (7 - i)"
    by (auto simp: bw_ok_def)
  note t = take_byte_bits_set [OF n zero, of b]
  have push: "bw_push w b = (if ?n + 1 = 8 then \<lparr>bw_buf = bw_buf w @ [?c], bw_cur = 0, bw_n = 0\<rparr>
                             else w\<lparr>bw_cur := ?c, bw_n := ?n + 1\<rparr>)"
    by (auto simp: bw_push_def flush_byte_def)
  have rest: "\<not> bit ?c (7 - i)" if "?n < i" "i < 8" for i
    using zero that by (auto simp: bit_or_iff bit_simps)
  show "bw_ok (bw_push w b)"
    using n rest by (auto simp: push bw_ok_def)
  show "bw_bits (bw_push w b) = bw_bits w @ [b]"
  proof (cases "?n + 1 = 8")
    case True
    then have "take (Suc ?n) (byte_bits ?c) = byte_bits ?c" by simp
    with t True show ?thesis by (simp add: push bw_bits_def)
  next
    case False
    with t show ?thesis by (simp add: push bw_bits_def)
  qed
qed

lemma word_bits_Suc: "word_bits (Suc n) v = bit v n # word_bits n v"
  by (simp add: word_bits_def)

lemma push_word:
  "bw_ok w \<Longrightarrow> bw_ok (push_word w v n) \<and> bw_bits (push_word w v n) = bw_bits w @ word_bits n v"
proof (induction w v n rule: push_word.induct)
  case (2 w v i)
  with bw_push [OF "2.prems", of "bit v i"] show ?case
    by (simp add: drop_bit_and_1 word_bits_Suc)
qed (simp add: word_bits_def)

lemma bw_finish:
  assumes "bw_ok w"
  obtains pad where "bytes_bits (bw_finish w) = bw_bits w @ replicate pad False" "pad < 8"
proof (cases "bw_n w = 0")
  case True
  then have "bytes_bits (bw_finish w) = bw_bits w @ replicate 0 False"
    by (simp add: bw_finish_def bw_bits_def)
  then show thesis by (rule that) simp
next
  case False
  have "byte_bits (bw_cur w) = take (bw_n w) (byte_bits (bw_cur w)) @ replicate (8 - bw_n w) False"
  proof (rule nth_equalityI)
    fix i assume "i < length (byte_bits (bw_cur w))"
    then show "byte_bits (bw_cur w) ! i
        = (take (bw_n w) (byte_bits (bw_cur w)) @ replicate (8 - bw_n w) False) ! i"
      using assms by (auto simp: nth_append nth_byte_bits bw_ok_def)
  qed (use assms in \<open>simp add: bw_ok_def\<close>)
  with False have "bytes_bits (bw_finish w) = bw_bits w @ replicate (8 - bw_n w) False"
    by (simp add: bw_finish_def bw_bits_def)
  then show thesis by (rule that) (use False in simp)
qed

subsection \<open>Readers and the bits they have left\<close>

definition br_bits :: "bit_reader \<Rightarrow> bool list" where
  "br_bits r = drop (8 * br_byte_pos r + br_bit_pos r) (bytes_bits (br_buf r))"

definition br_ok :: "bit_reader \<Rightarrow> bool" where
  "br_ok r \<longleftrightarrow> br_bit_pos r < 8"

lemma br_new [simp]: "br_ok (bit_reader_new buf)" "br_bits (bit_reader_new buf) = bytes_bits buf"
  by (simp_all add: br_ok_def br_bits_def bit_reader_new_def)

lemma nth_bytes_bits:
  "i < length bs \<Longrightarrow> j < 8 \<Longrightarrow> bytes_bits bs ! (8 * i + j) = bit (bs ! i) (7 - j)"
proof (induction bs arbitrary: i)
  case (Cons b bs)
  then show ?case by (cases i) (auto simp: nth_append nth_byte_bits)
qed simp

lemma read_bit_cons:
  assumes "br_ok r" "br_bits r = b # bs"
  shows "\<exists>r'. read_bit r = Some (b, r') \<and> br_ok r' \<and> br_bits r' = bs"
proof -
  let ?p = "8 * br_byte_pos r + br_bit_pos r"
  from assms have j: "br_bit_pos r < 8" by (simp add: br_ok_def)
  from assms(2) have p: "?p < length (bytes_bits (br_buf r))"
    by (cases "?p < length (bytes_bits (br_buf r))") (auto simp: br_bits_def)
  with j have i: "br_byte_pos r < length (br_buf r)" by simp
  from p assms(2) have "b = bytes_bits (br_buf r) ! ?p" and bs: "bs = drop (Suc ?p) (bytes_bits (br_buf r))"
    by (auto simp: br_bits_def Cons_nth_drop_Suc [symmetric])
  then have "b = bit (br_buf r ! br_byte_pos r) (7 - br_bit_pos r)"
    using nth_bytes_bits [OF i j] by simp
  with i j bs show ?thesis
    by (auto simp: read_bit_def br_ok_def br_bits_def drop_bit_and_1 Let_def)
qed

lemma shift_in_bit:
  "(if b then push_bit 1 v OR 1 else push_bit 1 v) = push_bit 1 v OR (if b then 1 else (0 :: 'a::len word))"
  by simp

lemma read_word_bits:
  "br_ok r \<Longrightarrow> br_bits r = word_bits n v @ rest \<Longrightarrow>
   \<exists>r'. read_word r acc n = Some (push_bit n acc OR take_bit n v, r') \<and> br_ok r' \<and> br_bits r' = rest"
proof (induction n arbitrary: r acc)
  case 0
  then show ?case by (simp add: word_bits_def)
next
  case (Suc n)
  from Suc.prems(2) have "br_bits r = bit v n # (word_bits n v @ rest)" by (simp add: word_bits_Suc)
  from read_bit_cons [OF Suc.prems(1) this] obtain r' where
    r': "read_bit r = Some (bit v n, r')" "br_ok r'" "br_bits r' = word_bits n v @ rest" by blast
  let ?acc = "if bit v n then push_bit 1 acc OR 1 else push_bit 1 acc"
  from Suc.IH [OF r'(2,3), of ?acc] obtain r'' where
    r'': "read_word r' ?acc n = Some (push_bit n ?acc OR take_bit n v, r'')" "br_ok r''" "br_bits r'' = rest"
    by blast
  have "push_bit n ?acc OR take_bit n v = push_bit (Suc n) acc OR take_bit (Suc n) v"
    by (rule bit_word_eqI) (auto simp: bit_simps less_Suc_eq)
  with r'(1) r'' show ?case by simp
qed

lemma read32_bits:
  "br_ok r \<Longrightarrow> br_bits r = word_bits n v @ rest \<Longrightarrow>
   \<exists>r'. read32 r n = Some (take_bit n v, r') \<and> br_ok r' \<and> br_bits r' = rest"
  using read_word_bits [of r n v rest 0] by (simp add: read32_def)

lemma read64_bits:
  "br_ok r \<Longrightarrow> br_bits r = word_bits n v @ rest \<Longrightarrow>
   \<exists>r'. read64 r n = Some (take_bit n v, r') \<and> br_ok r' \<and> br_bits r' = rest"
  using read_word_bits [of r n v rest 0] by (simp add: read64_def)

end
