(* ===== verification/SeqTracker.thy ===== *)
theory SeqTracker
  imports BitCodec RowCodec
begin

section \<open>Sequence numbers and timestamps: \<open>seq_tracker.rs\<close>\<close>

text \<open>
  The tracker relates sequence numbers to wall-clock seconds with bounded memory. Its Gorilla
  encoding stores delta-of-deltas in variable-width slots. \<open>DateTime\<close> is chrono's: its conversions
  from and to seconds are the arguments \<open>timestamp\<close> and \<open>from_timestamp\<close>. The standard library's
  \<open>binary_search\<close> does not say which of several equal elements it finds; it is an argument too
  (\<open>Inr\<close> the index of a match, \<open>Inl\<close> the insertion point).
\<close>

unbundle bit_operations_syntax

subsection \<open>Definitions\<close>

record 'd tracked_seq =
  tsq_seq :: u64
  tsq_ts :: 'd

datatype find_option = RoundUp | RoundDown

record sequence_tracker =
  st_sequence_numbers :: "u64 list"
  st_timestamps :: "i64 list"
  st_capacity :: u32
  st_interval_secs :: u64
  st_last_recorded_ts :: "i64 option"

definition sequence_tracker_with_config :: "u32 \<Rightarrow> u64 \<Rightarrow> sequence_tracker" where
  "sequence_tracker_with_config capacity interval_secs =
     \<lparr>st_sequence_numbers = [], st_timestamps = [], st_capacity = capacity,
      st_interval_secs = interval_secs, st_last_recorded_ts = None\<rparr>"

definition sequence_tracker_new :: sequence_tracker where
  "sequence_tracker_new = sequence_tracker_with_config 8192 60"

fun every_other :: "'a list \<Rightarrow> 'a list" where
  "every_other [] = []"
| "every_other [x] = [x]"
| "every_other (x # _ # xs) = x # every_other xs"

definition downsample :: "sequence_tracker \<Rightarrow> sequence_tracker" where
  "downsample t =
     t\<lparr>st_sequence_numbers := every_other (st_sequence_numbers t),
       st_timestamps := every_other (st_timestamps t)\<rparr>"

definition sequence_tracker_insert ::
    "('d \<Rightarrow> i64) \<Rightarrow> sequence_tracker \<Rightarrow> 'd tracked_seq \<Rightarrow> sequence_tracker result" where
  "sequence_tracker_insert timestamp t seq =
     (let ts_secs = timestamp (tsq_ts seq)
      in if (case st_last_recorded_ts t of
               Some last_ts \<Rightarrow> sint (ts_secs - last_ts) < sint (st_interval_secs t)
             | None \<Rightarrow> False)
         then Inr t
         else assert_or (st_sequence_numbers t = [] \<or> tsq_seq seq \<ge> last (st_sequence_numbers t))
                ''Sequence numbers must be monotonic''
              (assert_or (st_timestamps t = [] \<or> sint ts_secs \<ge> sint (last (st_timestamps t)))
                ''Timestamps must be monotonic''
              (let t = t\<lparr>st_sequence_numbers := st_sequence_numbers t @ [tsq_seq seq],
                         st_timestamps := st_timestamps t @ [ts_secs],
                         st_last_recorded_ts := Some ts_secs\<rparr>
               in Inr (if length (st_sequence_numbers t) > unat (st_capacity t) then downsample t else t))))"

fun extend_loop ::
    "('d \<Rightarrow> i64) \<Rightarrow> (i64 \<Rightarrow> 'd option) \<Rightarrow> (u64 \<times> i64) list \<Rightarrow> sequence_tracker \<Rightarrow> sequence_tracker result" where
  "extend_loop timestamp from_timestamp [] t = Inr t"
| "extend_loop timestamp from_timestamp ((seq, ts_secs) # rest) t =
     bind_result
       (case from_timestamp ts_secs of
          Some ts \<Rightarrow> sequence_tracker_insert timestamp t \<lparr>tsq_seq = seq, tsq_ts = ts\<rparr>
        | None \<Rightarrow> Inr t) (\<lambda>t.
     extend_loop timestamp from_timestamp rest t)"

definition sequence_tracker_extend_from ::
    "('d \<Rightarrow> i64) \<Rightarrow> (i64 \<Rightarrow> 'd option) \<Rightarrow> sequence_tracker \<Rightarrow> sequence_tracker \<Rightarrow> sequence_tracker result" where
  "sequence_tracker_extend_from timestamp from_timestamp t other =
     (if st_sequence_numbers other = [] then Inr t
      else extend_loop timestamp from_timestamp
             (zip (st_sequence_numbers other) (st_timestamps other)) t)"

definition find_index :: "nat + nat \<Rightarrow> find_option \<Rightarrow> nat \<Rightarrow> nat option" where
  "find_index r find_opt len =
     (case r of
        Inr idx \<Rightarrow> Some idx
      | Inl idx \<Rightarrow> (case find_opt of
                       RoundUp \<Rightarrow> if idx < len then Some idx else None
                     | RoundDown \<Rightarrow> if idx > 0 then Some (idx - 1) else None))"

definition find_ts ::
    "(u64 list \<Rightarrow> u64 \<Rightarrow> nat + nat) \<Rightarrow> (i64 \<Rightarrow> 'd option) \<Rightarrow> sequence_tracker \<Rightarrow> u64 \<Rightarrow> find_option \<Rightarrow> 'd option" where
  "find_ts binary_search from_timestamp t seq find_opt =
     (if st_sequence_numbers t = [] then None
      else case find_index (binary_search (st_sequence_numbers t) seq) find_opt
                  (length (st_sequence_numbers t)) of
             Some idx \<Rightarrow> from_timestamp (st_timestamps t ! idx)
           | None \<Rightarrow> None)"

definition find_seq ::
    "(i64 list \<Rightarrow> i64 \<Rightarrow> nat + nat) \<Rightarrow> ('d \<Rightarrow> i64) \<Rightarrow> sequence_tracker \<Rightarrow> 'd \<Rightarrow> find_option \<Rightarrow> u64 option" where
  "find_seq binary_search timestamp t ts find_opt =
     (let ts_secs = timestamp ts
      in if st_timestamps t = [] then None
         else map_option (\<lambda>idx. st_sequence_numbers t ! idx)
                (find_index (binary_search (st_timestamps t) ts_secs) find_opt (length (st_timestamps t))))"

subsubsection \<open>Gorilla encoding\<close>

record delta_series =
  ds_first :: "i64 option"
  ds_dods :: "i64 list"
  ds_needs_wide_fallback :: bool

definition fits_i32 :: "i64 \<Rightarrow> bool" where
  "fits_i32 x \<longleftrightarrow> - (2 ^ 31) \<le> sint x \<and> sint x < 2 ^ 31"

fun delta_of_deltas :: "i64 \<Rightarrow> i64 \<Rightarrow> i64 list \<Rightarrow> i64 list" where
  "delta_of_deltas prev_val prev_delta [] = []"
| "delta_of_deltas prev_val prev_delta (val # vals) =
     (let delta = val - prev_val; dod = delta - prev_delta
      in dod # delta_of_deltas val delta vals)"

definition delta_series_new :: "i64 list \<Rightarrow> delta_series" where
  "delta_series_new values' =
     (case values' of
        [] \<Rightarrow> \<lparr>ds_first = None, ds_dods = [], ds_needs_wide_fallback = False\<rparr>
      | first # rest \<Rightarrow>
          let dods = delta_of_deltas first 0 rest
          in \<lparr>ds_first = Some first, ds_dods = dods,
              ds_needs_wide_fallback = list_ex (\<lambda>dod. \<not> fits_i32 dod) dods\<rparr>)"

definition delta_series_len :: "delta_series \<Rightarrow> nat" where
  "delta_series_len s = length (ds_dods s) + (if ds_first s \<noteq> None then 1 else 0)"

definition encode_dod :: "bool \<Rightarrow> bit_writer \<Rightarrow> i64 \<Rightarrow> bit_writer result" where
  "encode_dod wide_fallback w dod =
     (if dod = 0 then Inr (bw_push w False)
      else if - 63 \<le> sint dod \<and> sint dod \<le> 63
      then Inr (push32 (push32 w 0b10 2) (ucast dod AND 0x7F) 7)
      else if - 255 \<le> sint dod \<and> sint dod \<le> 255
      then Inr (push32 (push32 w 0b110 3) (ucast dod AND 0x1FF) 9)
      else if - 2047 \<le> sint dod \<and> sint dod \<le> 2047
      then Inr (push32 (push32 w 0b1110 4) (ucast dod AND 0xFFF) 12)
      else if wide_fallback
      then Inr (push64 (push32 w 0b1111 4) dod 64)
      else assert_or (fits_i32 dod) ''delta-of-delta does not fit in the 32-bit fallback slot''
             (Inr (push32 (push32 w 0b1111 4) (ucast dod) 32)))"

fun encode_dods :: "bool \<Rightarrow> bit_writer \<Rightarrow> i64 list \<Rightarrow> bit_writer result" where
  "encode_dods wide_fallback w [] = Inr w"
| "encode_dods wide_fallback w (dod # dods) =
     bind_result (encode_dod wide_fallback w dod) (\<lambda>w. encode_dods wide_fallback w dods)"

definition encode_gorilla_i64 :: "delta_series \<Rightarrow> bool \<Rightarrow> bytes result" where
  "encode_gorilla_i64 series wide_fallback =
     (let w = push32 bit_writer_new (of_nat (delta_series_len series)) 32
      in bind_result
           (case ds_first series of
              Some first \<Rightarrow> encode_dods wide_fallback (push64 w first 64) (ds_dods series)
            | None \<Rightarrow> Inr w) (\<lambda>w.
         Inr (bw_finish w)))"

definition GORILLA_PREFIX_BYTES :: "nat list" where
  "GORILLA_PREFIX_BYTES = [0, 7, 9, 12, 32]"

function read_prefix :: "bit_reader \<Rightarrow> nat \<Rightarrow> nat \<Rightarrow> (nat \<times> nat \<times> bit_reader) result" where
  "read_prefix r bits_read cnt =
     (if cnt < 4
      then (case read_bit r of
              Some (True, r) \<Rightarrow> read_prefix r (bits_read + 1) (cnt + 1)
            | Some (False, r) \<Rightarrow> Inr (cnt, bits_read + 1, r)
            | None \<Rightarrow> Inl (DecodeError ''Unexpected EOF decoding Gorilla prefix''))
      else Inr (cnt, bits_read, r))"
  by pat_completeness auto
termination
  by (relation "measure (\<lambda>(_, _, cnt). 4 - cnt)") auto

definition ok_or :: "'a option \<Rightarrow> string \<Rightarrow> 'a result" where
  "ok_or x msg = (case x of Some a \<Rightarrow> Inr a | None \<Rightarrow> Inl (DecodeError msg))"

definition decode_dod :: "bool \<Rightarrow> bit_reader \<Rightarrow> nat \<Rightarrow> (i64 \<times> nat \<times> bit_reader) result" where
  "decode_dod wide_fallback r bits_read =
     bind_result (ok_or (read_bit r) ''Unexpected EOF reading prefix'') (\<lambda>(prefix_bit, r).
     let bits_read = bits_read + 1 in
     if \<not> prefix_bit then Inr (0, bits_read, r)
     else bind_result (read_prefix r bits_read 1) (\<lambda>(cnt, bits_read, r).
          if cnt = 4 \<and> wide_fallback
          then bind_result (ok_or (read64 r 64) ''Unexpected EOF reading 64-bit delta-of-delta'') (\<lambda>(raw, r).
               Inr (raw, bits_read + 64, r))
          else let bits = GORILLA_PREFIX_BYTES ! cnt
               in bind_result (ok_or (read32 r bits) ''Unexpected EOF reading delta-of-delta'') (\<lambda>(raw, r).
                  Inr (scast (sign_extend raw bits), bits_read + bits, r))))"

fun decode_dods :: "bool \<Rightarrow> bit_reader \<Rightarrow> nat \<Rightarrow> i64 \<Rightarrow> i64 \<Rightarrow> nat \<Rightarrow> (nat \<times> i64 list) result" where
  "decode_dods wide_fallback r bits_read prev_val prev_delta 0 = Inr (bits_read, [])"
| "decode_dods wide_fallback r bits_read prev_val prev_delta (Suc remaining) =
     bind_result (decode_dod wide_fallback r bits_read) (\<lambda>(dod, bits_read, r).
     let delta = prev_delta + dod; val = prev_val + delta
     in bind_result (decode_dods wide_fallback r bits_read val delta remaining) (\<lambda>(bits_read, vals).
        Inr (bits_read, val # vals)))"

definition decode_gorilla_i64_with_length :: "bytes \<Rightarrow> bool \<Rightarrow> (nat \<times> i64 list) result" where
  "decode_gorilla_i64_with_length buf wide_fallback =
     bind_result (ok_or (read32 (bit_reader_new buf) 32) ''Expected count first'') (\<lambda>(remaining, r).
     bind_result
       (if unat remaining > 0
        then bind_result (ok_or (read64 r 64) ''Unexpected EOF: first value should be 64 bit'') (\<lambda>(first, r).
             bind_result (decode_dods wide_fallback r (32 + 64) first 0 (unat remaining - 1)) (\<lambda>(bits_read, vals).
             Inr (bits_read, first # vals)))
        else Inr (32, [])) (\<lambda>(bits_read, vals).
     Inr ((bits_read + 7) div 8, vals)))"

fun le_bytes :: "nat \<Rightarrow> nat \<Rightarrow> bytes" where
  "le_bytes 0 x = []"
| "le_bytes (Suc n) x = of_nat (x mod 256) # le_bytes n (x div 256)"

fun le_val :: "bytes \<Rightarrow> nat" where
  "le_val [] = 0"
| "le_val (b # bs) = unat b + 256 * le_val bs"

definition encode_sequence_tracker :: "sequence_tracker \<Rightarrow> bytes result" where
  "encode_sequence_tracker t =
     (let sequences = delta_series_new (st_sequence_numbers t);
          timestamps = delta_series_new (st_timestamps t);
          wide_fallback = ds_needs_wide_fallback sequences \<or> ds_needs_wide_fallback timestamps;
          version = (if wide_fallback then 2 else 1);
          len = of_nat (length (st_sequence_numbers t)) :: u32
      in bind_result (encode_gorilla_i64 sequences wide_fallback) (\<lambda>s.
         bind_result (encode_gorilla_i64 timestamps wide_fallback) (\<lambda>ts.
         Inr (version # le_bytes 4 (unat len) @ s @ ts))))"

definition decode_sequence_tracker :: "bytes \<Rightarrow> sequence_tracker result" where
  "decode_sequence_tracker buf =
     (case buf of
        [] \<Rightarrow> Inl (DecodeError ''Empty buffer'')
      | version # rest \<Rightarrow>
          bind_result
            (if version = 1 then Inr False else if version = 2 then Inr True
             else Inl (DecodeError ''Unsupported version'')) (\<lambda>wide_fallback.
          if length rest < 4 then Inl (DecodeError ''Buffer too small for length'')
          else let len = le_val (take 4 rest)
               in bind_result (decode_gorilla_i64_with_length (drop 4 rest) wide_fallback)
                    (\<lambda>(encoded_seq_len, sequence_numbers).
                  if length sequence_numbers \<noteq> len then Inl (DecodeError ''Expected sequence numbers'')
                  else assert_or (encoded_seq_len \<le> length (drop 4 rest)) ''range start index out of range for slice''
                       (bind_result
                          (decode_gorilla_i64_with_length (drop encoded_seq_len (drop 4 rest)) wide_fallback)
                          (\<lambda>(_, timestamps).
                        if length timestamps \<noteq> len then Inl (DecodeError ''Expected timestamps'')
                        else Inr ((sequence_tracker_with_config 8192 60)
                                    \<lparr>st_sequence_numbers := sequence_numbers,
                                     st_timestamps := timestamps,
                                     st_last_recorded_ts :=
                                       (if timestamps = [] then None else Some (last timestamps))\<rparr>))))))"

declare read_prefix.simps [simp del]

subsection \<open>Gorilla round trip\<close>

lemma signed_take_bit_word: "signed_take_bit n (x :: i64) = word_of_int (signed_take_bit n (sint x))"
  by (rule bit_word_eqI) (auto simp: bit_simps)

lemma signed_take_bit_self:
  assumes "0 < b" "- (2 ^ (b - 1)) \<le> sint x" "sint x < 2 ^ (b - 1)"
  shows "signed_take_bit (b - 1) (x :: i64) = x"
  using assms signed_take_bit_int_eq_self [of "b - 1" "sint x"] by (simp add: signed_take_bit_word)

lemma sign_extend_take_bit:
  assumes "0 < b" "b \<le> 32"
  shows "scast (sign_extend (take_bit b (ucast x)) b) = signed_take_bit (b - 1) (x :: i64)"
proof (rule bit_word_eqI)
  fix n assume "n < LENGTH(64)"
  moreover obtain c where "b = Suc c" using assms(1) by (cases b) auto
  ultimately show "bit (scast (sign_extend (take_bit b (ucast x)) b) :: i64) n
      \<longleftrightarrow> bit (signed_take_bit (b - 1) x) n"
    using assms unfolding sign_extend_def Let_def
    by (cases "n = c"; cases "c = 31") (auto simp: bit_simps min_def)
qed

lemma sign_extend_slot:
  assumes "0 < b" "b \<le> 32" "- (2 ^ (b - 1)) \<le> sint x" "sint x < 2 ^ (b - 1)"
  shows "scast (sign_extend (take_bit b (ucast x)) b) = (x :: i64)"
  using sign_extend_take_bit [OF assms(1,2), of x] signed_take_bit_self [OF assms(1,3,4)] by simp

lemma word_bits_prefixes:
  "word_bits 2 (0b10 :: u32) = [True, False]"
  "word_bits 3 (0b110 :: u32) = [True, True, False]"
  "word_bits 4 (0b1110 :: u32) = [True, True, True, False]"
  "word_bits 4 (0b1111 :: u32) = [True, True, True, True]"
  by code_simp+

lemma word_bits_and_mask: "b \<le> LENGTH('a) \<Longrightarrow> word_bits b (x AND mask b :: 'a::len word) = word_bits b x"
  by (auto simp: word_bits_def bit_and_iff bit_mask_iff)

lemma word_bits_mask:
  "word_bits 7 (x AND 0x7F :: u32) = word_bits 7 x"
  "word_bits 9 (x AND 0x1FF :: u32) = word_bits 9 x"
  "word_bits 12 (x AND 0xFFF :: u32) = word_bits 12 x"
  using word_bits_and_mask [of 7 x] word_bits_and_mask [of 9 x] word_bits_and_mask [of 12 x]
  by (simp_all add: mask_eq_exp_minus_1)

lemma length_word_bits [simp]: "length (word_bits n v) = n"
  by (simp add: word_bits_def)

lemma read_prefix_true:
  assumes "br_ok r" "br_bits r = True # bs" "cnt < 4"
  shows "\<exists>r'. read_prefix r br cnt = read_prefix r' (br + 1) (cnt + 1) \<and> br_ok r' \<and> br_bits r' = bs"
  using read_bit_cons [OF assms(1,2)] assms(3) by (auto simp: read_prefix.simps [of r])

lemma read_prefix_false:
  assumes "br_ok r" "br_bits r = False # bs" "cnt < 4"
  shows "\<exists>r'. read_prefix r br cnt = Inr (cnt, br + 1, r') \<and> br_ok r' \<and> br_bits r' = bs"
  using read_bit_cons [OF assms(1,2)] assms(3) by (auto simp: read_prefix.simps [of r])

lemma read_prefix_trues:
  "br_ok r \<Longrightarrow> br_bits r = replicate k True @ bs \<Longrightarrow> cnt + k \<le> 4 \<Longrightarrow>
   \<exists>r'. read_prefix r br cnt = read_prefix r' (br + k) (cnt + k) \<and> br_ok r' \<and> br_bits r' = bs"
proof (induction k arbitrary: r br cnt)
  case (Suc k)
  from read_prefix_true [OF Suc.prems(1), of "replicate k True @ bs" cnt br] Suc.prems obtain r' where
    "read_prefix r br cnt = read_prefix r' (br + 1) (cnt + 1)" "br_ok r'" "br_bits r' = replicate k True @ bs"
    by auto
  with Suc.IH [of r' "cnt + 1" "br + 1"] Suc.prems(3) show ?case by simp
qed auto

text \<open>The bits of one delta-of-delta, and that the decoder takes exactly them.\<close>

definition decodes_to :: "bool \<Rightarrow> bool list \<Rightarrow> i64 \<Rightarrow> bool" where
  "decodes_to wide bs dod \<longleftrightarrow>
     (\<forall>r rest br. br_ok r \<and> br_bits r = bs @ rest \<longrightarrow>
        (\<exists>r'. decode_dod wide r br = Inr (dod, br + length bs, r') \<and> br_ok r' \<and> br_bits r' = rest))"

lemma decodes_zero: "decodes_to wide [False] 0"
  unfolding decodes_to_def
  by (auto simp: decode_dod_def ok_or_def Let_def dest: read_bit_cons)

lemma decodes_slot:
  assumes k: "0 < k" "k < 4" and b: "b = GORILLA_PREFIX_BYTES ! k"
    and range: "- (2 ^ (b - 1)) \<le> sint dod" "sint dod < 2 ^ (b - 1)"
  shows "decodes_to wide (replicate k True @ False # word_bits b (ucast dod :: u32)) dod"
  unfolding decodes_to_def
proof (intro allI impI, elim conjE)
  fix r rest br
  assume r: "br_ok r" "br_bits r = (replicate k True @ False # word_bits b (ucast dod :: u32)) @ rest"
  obtain k' where k': "k = Suc k'" using k by (cases k) auto
  have b32: "0 < b" "b \<le> 32"
    using k b by (auto simp: GORILLA_PREFIX_BYTES_def less_Suc_eq numeral_nat)
  from r k' obtain r1 where r1: "read_bit r = Some (True, r1)" "br_ok r1"
    "br_bits r1 = replicate k' True @ False # word_bits b (ucast dod :: u32) @ rest"
    using read_bit_cons [of r True] by fastforce
  from read_prefix_trues [OF r1(2,3), of 1 "br + 1"] k k' obtain r2 where
    r2: "read_prefix r1 (br + 1) 1 = read_prefix r2 (br + 1 + k') k" "br_ok r2"
      "br_bits r2 = False # word_bits b (ucast dod :: u32) @ rest" by auto
  from read_prefix_false [OF r2(2,3) k(2), of "br + 1 + k'"] obtain r3 where
    r3: "read_prefix r2 (br + 1 + k') k = Inr (k, br + k + 1, r3)" "br_ok r3"
      "br_bits r3 = word_bits b (ucast dod :: u32) @ rest" using k' by auto
  from read32_bits [OF r3(2,3)] obtain r4 where
    r4: "read32 r3 b = Some (take_bit b (ucast dod), r4)" "br_ok r4" "br_bits r4 = rest" by blast
  have "decode_dod wide r br = Inr (dod, br + k + 1 + b, r4)"
    using r1(1) r2(1) r3(1) r4(1) k sign_extend_slot [OF b32 range]
    by (simp add: decode_dod_def ok_or_def b [symmetric])
  with r4 show "\<exists>r'. decode_dod wide r br
      = Inr (dod, br + length (replicate k True @ False # word_bits b (ucast dod :: u32)), r')
      \<and> br_ok r' \<and> br_bits r' = rest"
    by simp
qed

lemma decodes_fallback:
  assumes "if wide then bs = word_bits 64 dod else bs = word_bits 32 (ucast dod :: u32) \<and> fits_i32 dod"
  shows "decodes_to wide ([True, True, True, True] @ bs) dod"
  unfolding decodes_to_def
proof (intro allI impI, elim conjE)
  fix r rest br
  assume r: "br_ok r" "br_bits r = ([True, True, True, True] @ bs) @ rest"
  from r obtain r1 where r1: "read_bit r = Some (True, r1)" "br_ok r1"
    "br_bits r1 = replicate 3 True @ bs @ rest"
    using read_bit_cons [of r True] by (fastforce simp: numeral_3_eq_3)
  from read_prefix_trues [OF r1(2,3), of 1 "br + 1"] obtain r2 where
    r2: "read_prefix r1 (br + 1) 1 = Inr (4, br + 4, r2)" "br_ok r2" "br_bits r2 = bs @ rest"
    by (auto simp: read_prefix.simps [of _ _ 4])
  show "\<exists>r'. decode_dod wide r br = Inr (dod, br + length ([True, True, True, True] @ bs), r')
      \<and> br_ok r' \<and> br_bits r' = rest"
  proof (cases wide)
    case True
    with assms r2 read64_bits [of r2 64 dod rest] obtain r3 where
      "read64 r2 64 = Some (dod, r3)" "br_ok r3" "br_bits r3 = rest" by (auto simp: take_bit_word_eq_self)
    with True assms r1(1) r2(1) show ?thesis
      by (simp add: decode_dod_def ok_or_def)
  next
    case False
    with assms r2 read32_bits [of r2 32 "ucast dod" rest] obtain r3 where
      "read32 r2 32 = Some (take_bit 32 (ucast dod), r3)" "br_ok r3" "br_bits r3 = rest" by auto
    with False assms r1(1) r2(1) sign_extend_slot [of 32 dod] show ?thesis
      by (simp add: decode_dod_def ok_or_def GORILLA_PREFIX_BYTES_def fits_i32_def)
  qed
qed

lemma push32_bits: "bw_ok w \<Longrightarrow> bw_ok (push32 w v n) \<and> bw_bits (push32 w v n) = bw_bits w @ word_bits n v"
  by (simp add: push32_def push_word)

lemma push64_bits: "bw_ok w \<Longrightarrow> bw_ok (push64 w v n) \<and> bw_bits (push64 w v n) = bw_bits w @ word_bits n v"
  by (simp add: push64_def push_word)

lemma encode_dod_decodes:
  assumes "bw_ok w" "wide \<or> fits_i32 dod"
  shows "\<exists>w' bs. encode_dod wide w dod = Inr w' \<and> bw_ok w' \<and> bw_bits w' = bw_bits w @ bs
     \<and> decodes_to wide bs dod"
proof -
  have p: "bw_ok (push32 (push32 w a m) v n)"
    "bw_bits (push32 (push32 w a m) v n) = bw_bits w @ word_bits m a @ word_bits n v" for a m v n
    using push32_bits [OF assms(1), of a m] push32_bits [of "push32 w a m" v n] by auto
  have p64: "bw_ok (push64 (push32 w a m) v n)"
    "bw_bits (push64 (push32 w a m) v n) = bw_bits w @ word_bits m a @ word_bits n v" for a m v n
    using push32_bits [OF assms(1), of a m] push64_bits [of "push32 w a m" v n] by auto
  consider (zero) "dod = 0"
    | (b7) "dod \<noteq> 0" "- 63 \<le> sint dod" "sint dod \<le> 63"
    | (b9) "dod \<noteq> 0" "\<not> (- 63 \<le> sint dod \<and> sint dod \<le> 63)" "- 255 \<le> sint dod" "sint dod \<le> 255"
    | (b12) "dod \<noteq> 0" "\<not> (- 63 \<le> sint dod \<and> sint dod \<le> 63)"
        "\<not> (- 255 \<le> sint dod \<and> sint dod \<le> 255)" "- 2047 \<le> sint dod" "sint dod \<le> 2047"
    | (wide) "dod \<noteq> 0" "\<not> (- 63 \<le> sint dod \<and> sint dod \<le> 63)" "\<not> (- 255 \<le> sint dod \<and> sint dod \<le> 255)"
        "\<not> (- 2047 \<le> sint dod \<and> sint dod \<le> 2047)"
    by linarith
  then show ?thesis
  proof cases
    case zero
    with bw_push [OF assms(1), of False] decodes_zero [of wide] show ?thesis
      by (auto simp: encode_dod_def)
  next
    case b7
    with decodes_slot [of 1 7 dod wide] p [of 2 2 "ucast dod AND 0x7F" 7] show ?thesis
      by (simp add: encode_dod_def GORILLA_PREFIX_BYTES_def word_bits_prefixes word_bits_mask)
  next
    case b9
    have r: "replicate 2 True = [True, True]" by (simp add: numeral_2_eq_2)
    from b9 decodes_slot [of 2 9 dod wide] p [of 6 3 "ucast dod AND 0x1FF" 9] show ?thesis
      by (auto simp: encode_dod_def GORILLA_PREFIX_BYTES_def word_bits_prefixes word_bits_mask r)
  next
    case b12
    have r: "replicate 3 True = [True, True, True]" by (simp add: numeral_3_eq_3)
    from b12 decodes_slot [of 3 12 dod wide] p [of 14 4 "ucast dod AND 0xFFF" 12] show ?thesis
      by (auto simp: encode_dod_def GORILLA_PREFIX_BYTES_def word_bits_prefixes word_bits_mask r)
  next
    case wide
    show ?thesis
    proof (cases "wide")
      case True
      with wide decodes_fallback [of wide "word_bits 64 dod" dod] p64 [of 15 4 dod 64] show ?thesis
        by (auto simp: encode_dod_def word_bits_prefixes)
    next
      case False
      with wide assms(2) decodes_fallback [of wide "word_bits 32 (ucast dod)" dod] p [of 15 4 "ucast dod" 32]
      show ?thesis by (auto simp: encode_dod_def word_bits_prefixes)
    qed
  qed
qed

text \<open>The values of a series, from the value and the delta before it.\<close>

lemma encode_dods_decode:
  assumes "bw_ok w" "wide \<or> list_all fits_i32 (delta_of_deltas pv pd vals)"
  shows "\<exists>w' bs. encode_dods wide w (delta_of_deltas pv pd vals) = Inr w' \<and> bw_ok w'
     \<and> bw_bits w' = bw_bits w @ bs
     \<and> (\<forall>r rest br. br_ok r \<and> br_bits r = bs @ rest \<longrightarrow>
          decode_dods wide r br pv pd (length vals) = Inr (br + length bs, vals))"
  using assms
proof (induction vals arbitrary: w pv pd)
  case Nil
  then show ?case by (intro exI [of _ w] exI [of _ "[]"]) simp
next
  case (Cons val vals)
  let ?delta = "val - pv" and ?dod = "val - pv - pd"
  from Cons.prems have fits: "wide \<or> fits_i32 ?dod" "wide \<or> list_all fits_i32 (delta_of_deltas val ?delta vals)"
    by (auto simp: Let_def)
  from encode_dod_decodes [OF Cons.prems(1) fits(1)] obtain w1 bs1 where
    w1: "encode_dod wide w ?dod = Inr w1" "bw_ok w1" "bw_bits w1 = bw_bits w @ bs1" "decodes_to wide bs1 ?dod"
    by blast
  from Cons.IH [OF w1(2) fits(2)] obtain w2 bs2 where
    w2: "encode_dods wide w1 (delta_of_deltas val ?delta vals) = Inr w2" "bw_ok w2" "bw_bits w2 = bw_bits w1 @ bs2"
    and dec: "\<And>r rest br. br_ok r \<Longrightarrow> br_bits r = bs2 @ rest \<Longrightarrow>
        decode_dods wide r br val ?delta (length vals) = Inr (br + length bs2, vals)"
    by blast
  have "decode_dods wide r br pv pd (length (val # vals)) = Inr (br + length (bs1 @ bs2), val # vals)"
    if "br_ok r" "br_bits r = (bs1 @ bs2) @ rest" for r rest br
  proof -
    from w1(4) [unfolded decodes_to_def, rule_format, of r "bs2 @ rest" br] that obtain r1 where
      r1: "decode_dod wide r br = Inr (?dod, br + length bs1, r1)" "br_ok r1" "br_bits r1 = bs2 @ rest"
      by auto
    with dec [OF r1(2,3), of "br + length bs1"] show ?thesis by simp
  qed
  with w1(1,3) w2 show ?case by (intro exI [of _ w2] exI [of _ "bs1 @ bs2"]) (simp add: Let_def)
qed

lemma bytes_for_bits:
  assumes "bytes_bits out = bs @ replicate pad False" "pad < 8"
  shows "(length bs + 7) div 8 = length out"
proof -
  have "8 * length out = length bs + pad" using arg_cong [OF assms(1), of length] by simp
  with assms(2) show ?thesis by simp
qed

lemma gorilla_round_trip:
  assumes "length vals < 2 ^ 32" "wide \<or> \<not> ds_needs_wide_fallback (delta_series_new vals)"
  shows "\<exists>out. encode_gorilla_i64 (delta_series_new vals) wide = Inr out
     \<and> (\<forall>rest. decode_gorilla_i64_with_length (out @ rest) wide = Inr (length out, vals))"
proof -
  let ?n = "of_nat (length vals) :: u32"
  have n: "unat ?n = length vals" using assms(1) by (simp add: unat_of_nat)
  let ?w0 = "push32 bit_writer_new ?n 32"
  from push32_bits [of bit_writer_new ?n 32]
  have w0: "bw_ok ?w0" "bw_bits ?w0 = word_bits 32 ?n" by simp_all
  have t32: "take_bit 32 ?n = ?n" by (simp add: take_bit_word_eq_self)
  show ?thesis
  proof (cases vals)
    case Nil
    from bw_finish [OF w0(1)] obtain pad where
      fin: "bytes_bits (bw_finish ?w0) = bw_bits ?w0 @ replicate pad False" "pad < 8" .
    have enc: "encode_gorilla_i64 (delta_series_new vals) wide = Inr (bw_finish ?w0)"
      by (simp add: Nil encode_gorilla_i64_def delta_series_new_def delta_series_len_def)
    have len: "length (bw_finish ?w0) = 4" using bytes_for_bits [OF fin] w0(2) by simp
    have "decode_gorilla_i64_with_length (bw_finish ?w0 @ rest) wide = Inr (4, vals)" for rest
      using read32_bits [of "bit_reader_new (bw_finish ?w0 @ rest)" 32 ?n] fin(1) w0(2) t32 Nil
      by (auto simp: decode_gorilla_i64_with_length_def ok_or_def)
    with enc len show ?thesis by auto
  next
    case (Cons first tail)
    let ?w1 = "push64 ?w0 first 64"
    from push64_bits [OF w0(1), of first 64] w0(2)
    have w1: "bw_ok ?w1" "bw_bits ?w1 = word_bits 32 ?n @ word_bits 64 first" by simp_all
    have fits: "wide \<or> list_all fits_i32 (delta_of_deltas first 0 tail)"
      using assms(2) by (auto simp: Cons delta_series_new_def Let_def list_ex_iff list_all_iff)
    from encode_dods_decode [OF w1(1) fits] obtain w2 bs where
      w2: "encode_dods wide ?w1 (delta_of_deltas first 0 tail) = Inr w2" "bw_ok w2" "bw_bits w2 = bw_bits ?w1 @ bs"
      and dec: "\<And>r rest br. br_ok r \<Longrightarrow> br_bits r = bs @ rest \<Longrightarrow>
          decode_dods wide r br first 0 (length tail) = Inr (br + length bs, tail)"
      by blast
    from bw_finish [OF w2(2)] obtain pad where
      fin: "bytes_bits (bw_finish w2) = bw_bits w2 @ replicate pad False" "pad < 8" .
    have len: "(32 + 64 + length bs + 7) div 8 = length (bw_finish w2)"
      using bytes_for_bits [OF fin] by (simp add: w2(3) w1(2))
    have "length (delta_of_deltas pv pd vs) = length vs" for pv pd vs
      by (induction vs arbitrary: pv pd) (auto simp: Let_def)
    then have enc: "encode_gorilla_i64 (delta_series_new vals) wide = Inr (bw_finish w2)"
      using w2(1)
      by (simp add: Cons encode_gorilla_i64_def delta_series_new_def delta_series_len_def Let_def add.commute)
    have "decode_gorilla_i64_with_length (bw_finish w2 @ rest) wide = Inr (length (bw_finish w2), vals)" for rest
    proof -
      let ?r = "bit_reader_new (bw_finish w2 @ rest)"
      let ?rest = "bs @ replicate pad False @ bytes_bits rest"
      have "br_bits ?r = word_bits 32 ?n @ word_bits 64 first @ ?rest"
        using fin(1) by (simp add: w2(3) w1(2))
      from read32_bits [OF _ this] t32 obtain r1 where
        r1: "read32 ?r 32 = Some (?n, r1)" "br_ok r1" "br_bits r1 = word_bits 64 first @ ?rest" by auto
      from read64_bits [OF r1(2,3)] obtain r2 where
        r2: "read64 r1 64 = Some (first, r2)" "br_ok r2" "br_bits r2 = ?rest"
        by (auto simp: take_bit_word_eq_self)
      from dec [OF r2(2,3), of "32 + 64"] r1(1) r2(1) n len show ?thesis
        by (simp add: decode_gorilla_i64_with_length_def ok_or_def Cons)
    qed
    with enc show ?thesis by auto
  qed
qed

lemma le_round_trip: "le_val (le_bytes n x) = x mod 256 ^ n"
proof (induction n x rule: le_bytes.induct)
  case (2 n x)
  have "unat (of_nat (x mod 256) :: byte) = x mod 256" by (simp add: unat_of_nat)
  with 2 show ?case by (simp add: mod_mult2_eq)
qed simp

lemma length_le_bytes [simp]: "length (le_bytes n x) = n"
  by (induction n x rule: le_bytes.induct) auto

text \<open>
  C23: The serialized form of a tracker decodes to the same sequence numbers and timestamps, for
  all values of either (also sequence numbers above the signed range and deltas that wrap), in
  version 1 when every delta-of-delta fits 32 bits and in version 2 otherwise; the panic that
  guards the 32-bit slot is never reached. Capacity and interval come back as the defaults.
\<close>
theorem sequence_tracker_round_trip:
  assumes "length (st_sequence_numbers t) = length (st_timestamps t)" "length (st_timestamps t) < 2 ^ 32"
  shows "\<exists>out. encode_sequence_tracker t = Inr out
     \<and> decode_sequence_tracker out =
         Inr \<lparr>st_sequence_numbers = st_sequence_numbers t, st_timestamps = st_timestamps t,
              st_capacity = 8192, st_interval_secs = 60,
              st_last_recorded_ts = (if st_timestamps t = [] then None else Some (last (st_timestamps t)))\<rparr>"
proof -
  let ?s = "delta_series_new (st_sequence_numbers t)" and ?ts = "delta_series_new (st_timestamps t)"
  let ?wide = "ds_needs_wide_fallback ?s \<or> ds_needs_wide_fallback ?ts"
  let ?n = "length (st_timestamps t)"
  from gorilla_round_trip [of "st_sequence_numbers t" ?wide] assms obtain s where
    s: "encode_gorilla_i64 ?s ?wide = Inr s"
      "\<And>rest. decode_gorilla_i64_with_length (s @ rest) ?wide = Inr (length s, st_sequence_numbers t)" by auto
  from gorilla_round_trip [of "st_timestamps t" ?wide] assms(2) obtain ts where
    ts: "encode_gorilla_i64 ?ts ?wide = Inr ts"
      "\<And>rest. decode_gorilla_i64_with_length (ts @ rest) ?wide = Inr (length ts, st_timestamps t)" by auto
  have n: "unat (of_nat ?n :: u32) = ?n" using assms(2) by (simp add: unat_of_nat)
  define out where "out = (if ?wide then 2 else 1 :: byte) # le_bytes 4 ?n @ s @ ts"
  have enc: "encode_sequence_tracker t = Inr out"
    unfolding encode_sequence_tracker_def Let_def s(1) ts(1) out_def using assms(1) n by simp
  have len: "le_val (take 4 (le_bytes 4 ?n @ s @ ts)) = ?n"
    using assms(2) by (simp add: le_round_trip)
  have version: "(if (if ?wide then 2 else 1 :: byte) = 1 then Inr False
      else if (if ?wide then 2 else 1 :: byte) = 2 then Inr True else Inl e) = Inr ?wide" for e
    by simp
  have "decode_sequence_tracker out =
         Inr \<lparr>st_sequence_numbers = st_sequence_numbers t, st_timestamps = st_timestamps t,
              st_capacity = 8192, st_interval_secs = 60,
              st_last_recorded_ts = (if st_timestamps t = [] then None else Some (last (st_timestamps t)))\<rparr>"
    unfolding decode_sequence_tracker_def out_def list.case version
    using s(2) [of ts] ts(2) [of "[]"] assms(1) len
    by (simp add: Let_def sequence_tracker_with_config_def)
  with enc show ?thesis by blast
qed

text \<open>Witness of C23: a tracker whose last sequence number jumps beyond the 32-bit slot.\<close>
theorem sequence_tracker_round_trip_witness:
  "\<exists>t out. st_sequence_numbers t = [1, 5, 2 ^ 63] \<and> st_timestamps t = [100, 160, 220]
     \<and> encode_sequence_tracker t = Inr out
     \<and> (\<exists>t'. decode_sequence_tracker out = Inr t' \<and> st_sequence_numbers t' = [1, 5, 2 ^ 63])"
proof -
  let ?t = "\<lparr>st_sequence_numbers = [1, 5, 2 ^ 63], st_timestamps = [100, 160, 220], st_capacity = 8192,
             st_interval_secs = 60, st_last_recorded_ts = None\<rparr>"
  have len: "length (st_sequence_numbers ?t) = length (st_timestamps ?t)" "length (st_timestamps ?t) < 2 ^ 32"
    by simp_all
  from sequence_tracker_round_trip [OF len] obtain out t' where
    out: "encode_sequence_tracker ?t = Inr out" "decode_sequence_tracker out = Inr t'"
    and t': "t' = \<lparr>st_sequence_numbers = st_sequence_numbers ?t, st_timestamps = st_timestamps ?t,
              st_capacity = 8192, st_interval_secs = 60,
              st_last_recorded_ts = (if st_timestamps ?t = [] then None else Some (last (st_timestamps ?t)))\<rparr>"
    by blast
  have "st_sequence_numbers t' = [1, 5, 2 ^ 63]" unfolding t' by (simp only: sequence_tracker.select_convs)
  with out show ?thesis
    by (intro exI [of _ ?t] exI [of _ out]) (simp only: sequence_tracker.select_convs, blast)
qed

subsection \<open>The tracker's invariant and lookups\<close>










end
