(* ===== verification/OrderedMap.thy ===== *)
theory OrderedMap
  imports KeyRange
begin

section \<open>Ordered maps\<close>

text \<open>
  The write path keeps rows in two ordered maps: the standard library's \<open>BTreeMap\<close> (write batches)
  and the concurrent \<open>SkipMap\<close> of the \<open>crossbeam\<close> packages (memtables). A \<open>BTreeMap\<close> is the
  list of its entries in strictly ascending key order. The \<open>SkipMap\<close> is not part of the sources: its
  operations are a record that the definitions take as an argument, with the laws of an ordered map
  as the locale \<open>ordered_map\<close>; the \<open>BTreeMap\<close> satisfies them.
\<close>

subsection \<open>\<open>BTreeMap\<close>\<close>

fun btree_insert :: "'k::linorder \<Rightarrow> 'v \<Rightarrow> ('k \<times> 'v) list \<Rightarrow> ('k \<times> 'v) list" where
  "btree_insert k v [] = [(k, v)]"
| "btree_insert k v ((k', v') # m) =
     (if k < k' then (k, v) # (k', v') # m
      else if k = k' then (k, v) # m
      else (k', v') # btree_insert k v m)"

definition btree_remove :: "'k \<Rightarrow> ('k \<times> 'v) list \<Rightarrow> ('k \<times> 'v) list" where
  "btree_remove k m = filter (\<lambda>p. fst p \<noteq> k) m"

definition in_bounds :: "'k::linorder bound \<Rightarrow> 'k bound \<Rightarrow> 'k \<Rightarrow> bool" where
  "in_bounds s e k \<longleftrightarrow> above_start s k \<and> below_end e k"

definition entries_range :: "'k::linorder bound \<Rightarrow> 'k bound \<Rightarrow> ('k \<times> 'v) list \<Rightarrow> ('k \<times> 'v) list" where
  "entries_range s e m = filter (\<lambda>p. in_bounds s e (fst p)) m"

abbreviation strict_keys :: "('k::linorder \<times> 'v) list \<Rightarrow> bool" where
  "strict_keys m \<equiv> sorted_wrt (<) (map fst m)"

lemma strict_keys_distinct: "strict_keys m \<Longrightarrow> distinct (map fst m)"
  by (simp add: strict_sorted_iff)

lemma strict_keys_filter: "strict_keys m \<Longrightarrow> strict_keys (filter P m)"
  by (induction m) auto

lemma set_btree_insert:
  "strict_keys m \<Longrightarrow> set (btree_insert k v m) = insert (k, v) {p \<in> set m. fst p \<noteq> k}"
  by (induction k v m rule: btree_insert.induct) (auto split: if_splits)

lemma btree_insert_keys: "fst ` set (btree_insert k v m) = insert k (fst ` set m)"
  by (induction k v m rule: btree_insert.induct) auto

lemma btree_insert_strict: "strict_keys m \<Longrightarrow> strict_keys (btree_insert k v m)"
proof (induction k v m rule: btree_insert.induct)
  case (2 k v k' v' m)
  have "\<forall>x\<in>fst ` set (btree_insert k v m). x = k \<or> k' < x"
    using 2(2) unfolding btree_insert_keys by auto
  then show ?case using 2 by (auto simp: less_trans)
qed simp

lemma map_of_btree_insert: "map_of (btree_insert k v m) = (map_of m)(k \<mapsto> v)"
  by (induction k v m rule: btree_insert.induct) (auto simp: fun_eq_iff)

lemma map_of_btree_remove: "map_of (btree_remove k m) k' = (if k' = k then None else map_of m k')"
  unfolding btree_remove_def by (induction m) auto

text \<open>Two entry lists with strictly ascending keys and the same entries are the same list.\<close>

lemma strict_keys_unique:
  "strict_keys xs \<Longrightarrow> strict_keys ys \<Longrightarrow> set xs = set ys \<Longrightarrow> xs = ys"
proof (induction xs arbitrary: ys)
  case Nil
  then show ?case by simp
next
  case (Cons x xs)
  then obtain y ys' where ys: "ys = y # ys'" by (cases ys) auto
  have "x = y"
  proof (rule ccontr)
    assume "x \<noteq> y"
    with Cons.prems(3) ys have "x \<in> set ys'" "y \<in> set xs" by auto
    with Cons.prems(1,2) ys have "fst x < fst y" "fst y < fst x" by auto
    then show False by simp
  qed
  moreover from this have "set xs = set ys'"
    using Cons.prems ys by (auto simp: insert_eq_iff)
  ultimately show ?case using Cons ys by simp
qed

subsection \<open>The interface of an ordered map\<close>

record ('m, 'k, 'v) ordered_map_ops =
  om_empty :: 'm
  om_insert :: "'k \<Rightarrow> 'v \<Rightarrow> 'm \<Rightarrow> 'm"
  om_remove :: "'k \<Rightarrow> 'm \<Rightarrow> 'm"
  om_entries :: "'m \<Rightarrow> ('k \<times> 'v) list"

definition om_get :: "('m, 'k, 'v, 'z) ordered_map_ops_scheme \<Rightarrow> 'k \<Rightarrow> 'm \<Rightarrow> 'v option" where
  "om_get om k m = map_of (om_entries om m) k"

definition om_range ::
    "('m, 'k::linorder, 'v, 'z) ordered_map_ops_scheme \<Rightarrow> 'k bound \<Rightarrow> 'k bound \<Rightarrow> 'm \<Rightarrow> ('k \<times> 'v) list" where
  "om_range om s e m = entries_range s e (om_entries om m)"

locale ordered_map =
  fixes om :: "('m, 'k::linorder, 'v) ordered_map_ops"
    and valid :: "'m \<Rightarrow> bool"
  assumes empty_valid: "valid (om_empty om)"
    and empty_entries: "om_entries om (om_empty om) = []"
    and entries_strict: "valid m \<Longrightarrow> strict_keys (om_entries om m)"
    and insert_valid: "valid m \<Longrightarrow> valid (om_insert om k v m)"
    and insert_entries: "valid m \<Longrightarrow>
      set (om_entries om (om_insert om k v m)) = insert (k, v) {p \<in> set (om_entries om m). fst p \<noteq> k}"
    and remove_valid: "valid m \<Longrightarrow> valid (om_remove om k m)"
    and remove_entries: "valid m \<Longrightarrow>
      set (om_entries om (om_remove om k m)) = {p \<in> set (om_entries om m). fst p \<noteq> k}"
begin

lemma entries_insert:
  "valid m \<Longrightarrow> om_entries om (om_insert om k v m) = btree_insert k v (om_entries om m)"
  by (rule strict_keys_unique)
    (simp_all add: entries_strict insert_valid btree_insert_strict set_btree_insert insert_entries)

lemma entries_remove:
  "valid m \<Longrightarrow> om_entries om (om_remove om k m) = btree_remove k (om_entries om m)"
  by (rule strict_keys_unique)
    (simp_all add: entries_strict remove_valid btree_remove_def strict_keys_filter remove_entries)

lemma get_iff: "valid m \<Longrightarrow> om_get om k m = Some v \<longleftrightarrow> (k, v) \<in> set (om_entries om m)"
  unfolding om_get_def using entries_strict [of m] strict_keys_distinct map_of_eq_Some_iff by metis

lemma get_insert: "valid m \<Longrightarrow> om_get om k' (om_insert om k v m) = (if k' = k then Some v else om_get om k' m)"
  by (simp add: om_get_def entries_insert map_of_btree_insert)

lemma get_remove: "valid m \<Longrightarrow> om_get om k' (om_remove om k m) = (if k' = k then None else om_get om k' m)"
  by (simp add: om_get_def entries_remove map_of_btree_remove)

end

definition btree :: "(('k::linorder \<times> 'v) list, 'k, 'v) ordered_map_ops" where
  "btree = \<lparr>om_empty = [], om_insert = btree_insert, om_remove = btree_remove, om_entries = id\<rparr>"

interpretation btm: ordered_map btree strict_keys
  by unfold_locales
    (auto simp: btree_def btree_insert_strict btree_remove_def strict_keys_filter set_btree_insert)

end
