(* ===== verification/MemTable.thy ===== *)
theory MemTable
  imports OrderedMap MergeIterator SeqTracker
begin

section \<open>Memtables: \<open>mem_table.rs\<close>\<close>

text \<open>
  A memtable keeps every version of a key in a skip map ordered by key and, within a key, newest
  version first. The skip map is the argument \<open>om\<close> (see \<open>OrderedMap\<close>). The atomic counters are
  fields of the table's record; each operation is modelled as one step, as the write path runs it
  (writes are serialised by the batch writer). \<open>entries_size_in_bytes\<close> is a 64-bit word, because its
  \<open>fetch_sub\<close> and \<open>fetch_add\<close> wrap around.
\<close>

subsection \<open>Keys and ranges\<close>

datatype sequenced_key = SequencedKey (user_key: bytes) (sk_seq: u64)

instantiation sequenced_key :: linorder
begin

definition less_eq_sequenced_key :: "sequenced_key \<Rightarrow> sequenced_key \<Rightarrow> bool" where
  "a \<le> b \<longleftrightarrow> user_key a < user_key b \<or> (user_key a = user_key b \<and> sk_seq b \<le> sk_seq a)"

definition less_sequenced_key :: "sequenced_key \<Rightarrow> sequenced_key \<Rightarrow> bool" where
  "a < b \<longleftrightarrow> user_key a < user_key b \<or> (user_key a = user_key b \<and> sk_seq b < sk_seq a)"

instance
proof
  fix x y z :: sequenced_key
  show "x < y \<longleftrightarrow> x \<le> y \<and> \<not> y \<le> x" by (auto simp: less_eq_sequenced_key_def less_sequenced_key_def)
  show "x \<le> x" by (simp add: less_eq_sequenced_key_def)
  show "x \<le> y \<Longrightarrow> y \<le> z \<Longrightarrow> x \<le> z" by (auto simp: less_eq_sequenced_key_def)
  show "x \<le> y \<Longrightarrow> y \<le> x \<Longrightarrow> x = y" by (auto simp: less_eq_sequenced_key_def intro: sequenced_key.expand)
  show "x \<le> y \<or> y \<le> x" by (auto simp: less_eq_sequenced_key_def)
qed

end

record kv_internal_range =
  ir_start :: "sequenced_key bound"
  ir_end :: "sequenced_key bound"

definition internal_range_from :: "bytes bound \<Rightarrow> bytes bound \<Rightarrow> kv_internal_range" where
  "internal_range_from s e =
     \<lparr>ir_start = (case s of
                    Included key \<Rightarrow> Included (SequencedKey key (- 1))
                  | Excluded key \<Rightarrow> Excluded (SequencedKey key 0)
                  | Unbounded \<Rightarrow> Unbounded),
      ir_end = (case e of
                  Included key \<Rightarrow> Included (SequencedKey key 0)
                | Excluded key \<Rightarrow> Excluded (SequencedKey key (- 1))
                | Unbounded \<Rightarrow> Unbounded)\<rparr>"

subsection \<open>The iterator\<close>

type_synonym 'm skip_map = "('m, sequenced_key, row_entry) ordered_map_ops"

record 'm mem_table_iterator =
  mti_map :: 'm
  mti_inner :: "(sequenced_key \<times> row_entry) list"
  mti_ordering :: iteration_order
  mti_item :: "row_entry option"
  mti_descending_stack :: "row_entry list"
  mti_end_bound :: "sequenced_key bound"

text \<open>A \<open>Range\<close> of the skip map is what is left of it: \<open>next\<close> takes its head, \<open>next_back\<close> its end.\<close>

definition range_next :: "'a list \<Rightarrow> 'a option \<times> 'a list" where
  "range_next xs = (case xs of [] \<Rightarrow> (None, []) | x # xs' \<Rightarrow> (Some x, xs'))"

definition range_next_back :: "'a list \<Rightarrow> 'a option \<times> 'a list" where
  "range_next_back xs = (if xs = [] then (None, []) else (Some (last xs), butlast xs))"

definition next_ascending :: "'m mem_table_iterator \<Rightarrow> row_entry option \<times> 'm mem_table_iterator" where
  "next_ascending it =
     (let ans = mti_item it;
          (next_entry, inner) = range_next (mti_inner it)
      in (ans, it\<lparr>mti_inner := inner, mti_item := map_option snd next_entry\<rparr>))"

function fill_descending_stack :: "bytes \<Rightarrow> 'm mem_table_iterator \<Rightarrow> 'm mem_table_iterator" where
  "fill_descending_stack current_key it =
     (if mti_inner it = [] then it\<lparr>mti_item := None\<rparr>
      else let (key, row) = last (mti_inner it); it = it\<lparr>mti_inner := butlast (mti_inner it)\<rparr>
           in if user_key key = current_key
              then fill_descending_stack current_key
                     (it\<lparr>mti_descending_stack := mti_descending_stack it @ [row]\<rparr>)
              else it\<lparr>mti_item := Some row\<rparr>)"
  by pat_completeness auto
termination
  by (relation "measure (\<lambda>(_, it). length (mti_inner it))") auto

declare fill_descending_stack.simps [simp del]

definition stack_pop :: "'m mem_table_iterator \<Rightarrow> row_entry option \<times> 'm mem_table_iterator" where
  "stack_pop it =
     (if mti_descending_stack it = [] then (None, it)
      else (Some (last (mti_descending_stack it)),
            it\<lparr>mti_descending_stack := butlast (mti_descending_stack it)\<rparr>))"

definition next_descending :: "'m mem_table_iterator \<Rightarrow> row_entry option \<times> 'm mem_table_iterator" where
  "next_descending it =
     (let (top, it) = stack_pop it
      in if top \<noteq> None then (top, it)
         else case mti_item it of
                Some first \<Rightarrow>
                  let it = it\<lparr>mti_descending_stack := mti_descending_stack it @ [first]\<rparr>;
                      it = fill_descending_stack (re_key first) it
                  in stack_pop it
              | None \<Rightarrow>
                  let (nxt, inner) = range_next_back (mti_inner it)
                  in (None, it\<lparr>mti_inner := inner, mti_item := map_option snd nxt\<rparr>))"

definition next_sync :: "'m mem_table_iterator \<Rightarrow> row_entry option \<times> 'm mem_table_iterator" where
  "next_sync it =
     (case mti_ordering it of
        Ascending \<Rightarrow> next_ascending it
      | Descending \<Rightarrow> next_descending it)"

definition is_exhausted :: "'m mem_table_iterator \<Rightarrow> bool" where
  "is_exhausted it \<longleftrightarrow> mti_item it = None \<and> mti_descending_stack it = []"

definition seek_ascending :: "'m skip_map \<Rightarrow> bytes \<Rightarrow> 'm mem_table_iterator \<Rightarrow> 'm mem_table_iterator" where
  "seek_ascending om next_key it =
     (case mti_item it of
        None \<Rightarrow> it
      | Some record \<Rightarrow>
          if re_key record \<ge> next_key then it
          else snd (next_sync
                 (it\<lparr>mti_inner := om_range om (Included (SequencedKey next_key (- 1)))
                                    (mti_end_bound it) (mti_map it),
                     mti_item := None\<rparr>)))"

definition mem_table_next :: "'m mem_table_iterator \<Rightarrow> (row_entry option \<times> 'm mem_table_iterator) result" where
  "mem_table_next it = Inr (next_sync it)"

definition mem_table_seek :: "'m skip_map \<Rightarrow> 'm mem_table_iterator \<Rightarrow> bytes \<Rightarrow> 'm mem_table_iterator result" where
  "mem_table_seek om it next_key =
     (case mti_ordering it of
        Ascending \<Rightarrow> Inr (seek_ascending om next_key it)
      | Descending \<Rightarrow> Inl SeekNotSupportedForDescendingScan)"

subsection \<open>The table\<close>

record 'm kv_table =
  kt_map :: 'm
  kt_durable :: "unit result option"
  kt_entries_size :: u64
  kt_last_tick :: i64
  kt_last_seq :: u64
  kt_first_seq :: u64
  kt_sequence_tracker :: sequence_tracker
  kt_touched_segments :: "bytes set"

record kv_table_metadata =
  md_entry_num :: nat
  md_entries_size :: u64
  md_last_tick :: i64
  md_last_seq :: u64
  md_first_seq :: u64

record 'm immutable_memtable =
  imm_replay_after_wal_id :: u64
  imm_table :: "'m kv_table"
  imm_uploaded :: "unit result option"
  imm_sequence_tracker :: sequence_tracker

definition kv_table_new :: "'m skip_map \<Rightarrow> 'm kv_table" where
  "kv_table_new om =
     \<lparr>kt_map = om_empty om, kt_durable = None, kt_entries_size = 0, kt_last_tick = 2 ^ 63,
      kt_last_seq = 0, kt_first_seq = - 1, kt_sequence_tracker = sequence_tracker_new,
      kt_touched_segments = {}\<rparr>"

definition record_touched_segments :: "bytes set \<Rightarrow> 'm kv_table \<Rightarrow> 'm kv_table" where
  "record_touched_segments pfxs t =
     (if pfxs = {} then t
      else if kt_touched_segments t = {} then t\<lparr>kt_touched_segments := pfxs\<rparr>
      else t\<lparr>kt_touched_segments := kt_touched_segments t \<union> pfxs\<rparr>)"

definition touched_segments_empty_or_contains :: "bytes \<Rightarrow> 'm kv_table \<Rightarrow> bool" where
  "touched_segments_empty_or_contains p t \<longleftrightarrow>
     kt_touched_segments t = {} \<or> p \<in> kt_touched_segments t"

definition ensure_valid_segment :: "bytes \<Rightarrow> 'm kv_table \<Rightarrow> bool result" where
  "ensure_valid_segment p t =
     (let touched = kt_touched_segments t;
          check_succ = (let after = Set.filter (\<lambda>q. p < q) touched
                        in if after \<noteq> {} \<and> prefix p (Min after)
                           then Inl (InvalidSegmentPrefix p (Min after)) else Inr False);
          upto = Set.filter (\<lambda>q. q \<le> p) touched
      in if touched = {} then Inr False
         else if upto = {} then check_succ
         else let pred = Max upto
              in if pred = p then Inr True
                 else if prefix pred p then Inl (InvalidSegmentPrefix p pred)
                 else check_succ)"

definition kv_table_is_empty :: "'m skip_map \<Rightarrow> 'm kv_table \<Rightarrow> bool" where
  "kv_table_is_empty om t \<longleftrightarrow> om_entries om (kt_map t) = []"

definition kv_table_last_seq :: "'m skip_map \<Rightarrow> 'm kv_table \<Rightarrow> u64 option" where
  "kv_table_last_seq om t = (if kv_table_is_empty om t then None else Some (kt_last_seq t))"

definition kv_table_first_seq :: "'m skip_map \<Rightarrow> 'm kv_table \<Rightarrow> u64 option" where
  "kv_table_first_seq om t = (if kv_table_is_empty om t then None else Some (kt_first_seq t))"

definition kv_table_metadata_of :: "'m skip_map \<Rightarrow> 'm kv_table \<Rightarrow> kv_table_metadata" where
  "kv_table_metadata_of om t =
     \<lparr>md_entry_num = length (om_entries om (kt_map t)),
      md_entries_size = kt_entries_size t,
      md_last_tick = kt_last_tick t,
      md_last_seq = (case kv_table_last_seq om t of Some s \<Rightarrow> s | None \<Rightarrow> 0),
      md_first_seq = (case kv_table_first_seq om t of Some s \<Rightarrow> s | None \<Rightarrow> 0)\<rparr>"

definition kv_table_range ::
    "'m skip_map \<Rightarrow> 'm kv_table \<Rightarrow> bytes bound \<Rightarrow> bytes bound \<Rightarrow> iteration_order \<Rightarrow> 'm mem_table_iterator" where
  "kv_table_range om t s e order =
     (let internal_range = internal_range_from s e;
          iterator = \<lparr>mti_map = kt_map t,
                      mti_inner = om_range om (ir_start internal_range) (ir_end internal_range) (kt_map t),
                      mti_ordering = order, mti_item = None, mti_descending_stack = [],
                      mti_end_bound = ir_end internal_range\<rparr>
      in snd (next_sync iterator))"

definition kv_table_iter :: "'m skip_map \<Rightarrow> 'm kv_table \<Rightarrow> 'm mem_table_iterator" where
  "kv_table_iter om t = kv_table_range om t Unbounded Unbounded Ascending"

definition sequenced_key_of :: "row_entry \<Rightarrow> sequenced_key" where
  "sequenced_key_of row = SequencedKey (re_key row) (re_seq row)"

definition put_inner :: "'m skip_map \<Rightarrow> row_entry \<Rightarrow> 'm kv_table \<Rightarrow> 'm kv_table" where
  "put_inner om row t =
     (let internal_key = sequenced_key_of row;
          t = (case re_create_ts row of
                 Some create_ts \<Rightarrow>
                   t\<lparr>kt_last_tick := if sint (kt_last_tick t) < sint create_ts then create_ts else kt_last_tick t\<rparr>
               | None \<Rightarrow> t);
          t = t\<lparr>kt_last_seq := max (kt_last_seq t) (re_seq row)\<rparr>;
          t = t\<lparr>kt_first_seq := min (kt_first_seq t) (re_seq row)\<rparr>;
          row_size = of_nat (estimated_size row);
          previous_size = map_option estimated_size (om_get om internal_key (kt_map t));
          t = t\<lparr>kt_map := om_insert om internal_key row (kt_map t)\<rparr>
      in case previous_size of
           Some sz \<Rightarrow> t\<lparr>kt_entries_size := kt_entries_size t - of_nat sz + row_size\<rparr>
         | None \<Rightarrow> t\<lparr>kt_entries_size := kt_entries_size t + row_size\<rparr>)"

definition kv_table_put :: "'m skip_map \<Rightarrow> row_entry \<Rightarrow> 'm kv_table \<Rightarrow> 'm kv_table" where
  "kv_table_put om row t = put_inner om row t"

text \<open>The entry after the inserted one, by \<open>Entry::next\<close> of the skip map.\<close>

definition entry_next :: "'m skip_map \<Rightarrow> sequenced_key \<Rightarrow> 'm \<Rightarrow> (sequenced_key \<times> row_entry) option" where
  "entry_next om k m = fst (range_next (om_range om (Excluded k) Unbounded m))"

definition put_and_prune_overwritten :: "'m skip_map \<Rightarrow> row_entry \<Rightarrow> 'm kv_table \<Rightarrow> 'm kv_table" where
  "put_and_prune_overwritten om row t =
     (let new_is_merge = is_merge (re_value row);
          t = put_inner om row t
      in if new_is_merge then t
         else case entry_next om (sequenced_key_of row) (kt_map t) of
                None \<Rightarrow> t
              | Some (key, older) \<Rightarrow>
                  if user_key key = re_key row
                  then t\<lparr>kt_map := om_remove om key (kt_map t),
                         kt_entries_size := kt_entries_size t - of_nat (estimated_size older)\<rparr>
                  else t)"

definition notify_durable :: "unit result \<Rightarrow> 'm kv_table \<Rightarrow> 'm kv_table" where
  "notify_durable r t = (if kt_durable t = None then t\<lparr>kt_durable := Some r\<rparr> else t)"

definition record_sequence ::
    "('d \<Rightarrow> i64) \<Rightarrow> u64 \<Rightarrow> 'd \<Rightarrow> 'm kv_table \<Rightarrow> 'm kv_table result" where
  "record_sequence timestamp seq ts t =
     bind_result (sequence_tracker_insert timestamp (kt_sequence_tracker t) \<lparr>tsq_seq = seq, tsq_ts = ts\<rparr>)
       (\<lambda>tracker. Inr (t\<lparr>kt_sequence_tracker := tracker\<rparr>))"

subsection \<open>Immutable memtables\<close>

definition immutable_memtable_new :: "'m kv_table \<Rightarrow> u64 \<Rightarrow> 'm immutable_memtable" where
  "immutable_memtable_new t replay_after_wal_id =
     \<lparr>imm_replay_after_wal_id = replay_after_wal_id, imm_table = t, imm_uploaded = None,
      imm_sequence_tracker = kt_sequence_tracker t\<rparr>"

definition notify_uploaded :: "unit result \<Rightarrow> 'm immutable_memtable \<Rightarrow> 'm immutable_memtable" where
  "notify_uploaded r imm = (if imm_uploaded imm = None then imm\<lparr>imm_uploaded := Some r\<rparr> else imm)"

text \<open>
  The prefix extractor is the application's: \<open>prefix_len\<close> of a key is an argument. A length beyond
  the key makes \<open>slice\<close> panic.
\<close>

definition extract_segment_prefix :: "(bytes \<Rightarrow> nat option) \<Rightarrow> bytes \<Rightarrow> bytes result" where
  "extract_segment_prefix prefix_len key =
     (case prefix_len key of
        None \<Rightarrow> Inl (EmptySegmentPrefix key)
      | Some n \<Rightarrow> if n = 0 then Inl (EmptySegmentPrefix key)
                  else assert_or (n \<le> length key) ''range end out of bounds'' (Inr (take n key)))"

text \<open>
  A row is returned only by consuming one that the iterator holds; this bounds the loop of
  \<open>filter_after_seq\<close>.
\<close>

definition mti_pending :: "'m mem_table_iterator \<Rightarrow> nat" where
  "mti_pending it =
     length (mti_inner it) + (if mti_item it = None then 0 else 1) + length (mti_descending_stack it)"

lemma fill_descending_stack_eq:
  "fill_descending_stack k it =
     (let same = (\<lambda>p. user_key (fst p) = k); rest = dropWhile same (rev (mti_inner it))
      in it\<lparr>mti_inner := rev (tl rest),
            mti_item := (case rest of [] \<Rightarrow> None | p # _ \<Rightarrow> Some (snd p)),
            mti_descending_stack := mti_descending_stack it @ map snd (takeWhile same (rev (mti_inner it)))\<rparr>)"
proof (induction "mti_inner it" arbitrary: it rule: rev_induct)
  case Nil
  then show ?case by (simp add: fill_descending_stack.simps [of k it])
next
  case (snoc p xs)
  let ?it = "it\<lparr>mti_inner := xs, mti_descending_stack := mti_descending_stack it @ [snd p]\<rparr>"
  have inner: "mti_inner it = xs @ [p]" using snoc(2) by simp
  have "fill_descending_stack k it =
      (if user_key (fst p) = k then fill_descending_stack k ?it
       else it\<lparr>mti_inner := xs, mti_item := Some (snd p)\<rparr>)"
    by (simp add: fill_descending_stack.simps [of k it] inner case_prod_unfold Let_def)
  with snoc(1) [of ?it] show ?case by (simp add: inner Let_def)
qed

lemma fill_descending_stack_pending:
  "mti_pending (fill_descending_stack k it)
     = length (mti_inner it) + length (mti_descending_stack it)"
proof -
  let ?same = "\<lambda>p. user_key (fst p) = k"
  have "length (takeWhile ?same (rev (mti_inner it))) + length (dropWhile ?same (rev (mti_inner it)))
      = length (mti_inner it)"
    by (metis length_append length_rev takeWhile_dropWhile_id)
  then show ?thesis
    by (cases "dropWhile ?same (rev (mti_inner it))")
      (simp_all add: fill_descending_stack_eq Let_def mti_pending_def del: dropWhile_eq_Nil_conv)
qed

lemma next_sync_pending: "next_sync it = (Some r, it') \<Longrightarrow> mti_pending it' < mti_pending it"
proof -
  assume a: "next_sync it = (Some r, it')"
  show ?thesis
  proof (cases "mti_ordering it")
    case Ascending
    with a show ?thesis
      by (auto simp: next_sync_def next_ascending_def range_next_def mti_pending_def split: list.splits)
  next
    case Descending
    define it1 where "it1 = it\<lparr>mti_descending_stack := mti_descending_stack it @ [the (mti_item it)]\<rparr>"
    from a Descending consider
        (pop) "mti_descending_stack it \<noteq> []" "it' = it\<lparr>mti_descending_stack := butlast (mti_descending_stack it)\<rparr>"
      | (fill) f where "mti_descending_stack it = []" "mti_item it = Some f"
          "stack_pop (fill_descending_stack (re_key f) it1) = (Some r, it')"
      by (auto simp: next_sync_def next_descending_def stack_pop_def Let_def it1_def
          split: if_splits option.splits prod.splits)
    then show ?thesis
    proof cases
      case pop
      then show ?thesis by (simp add: mti_pending_def)
    next
      case fill
      let ?f = "fill_descending_stack (re_key f) it1"
      from fill(3) have "mti_descending_stack ?f \<noteq> []"
        "it' = ?f\<lparr>mti_descending_stack := butlast (mti_descending_stack ?f)\<rparr>"
        by (auto simp: stack_pop_def split: if_splits)
      then have "mti_pending it' < mti_pending ?f" by (simp add: mti_pending_def)
      also have "\<dots> = mti_pending it"
        unfolding fill_descending_stack_pending using fill(1,2) by (simp add: it1_def mti_pending_def)
      finally show ?thesis .
    qed
  qed
qed

function filter_after_seq_loop ::
    "'m skip_map \<Rightarrow> u64 \<Rightarrow> (bytes \<Rightarrow> nat option) option \<Rightarrow> 'm mem_table_iterator \<Rightarrow> 'm kv_table \<Rightarrow> bytes set
      \<Rightarrow> ('m kv_table \<times> bytes set) result" where
  "filter_after_seq_loop om seq extractor table_iter new_table surviving =
     (case next_sync table_iter of
        (None, _) \<Rightarrow> Inr (new_table, surviving)
      | (Some entry, table_iter) \<Rightarrow>
          if re_seq entry > seq
          then case extractor of
                 Some prefix_len \<Rightarrow>
                   (case extract_segment_prefix prefix_len (re_key entry) of
                      Inl e \<Rightarrow> Inl e
                    | Inr p \<Rightarrow> filter_after_seq_loop om seq extractor table_iter
                                (kv_table_put om entry new_table) (insert p surviving))
               | None \<Rightarrow> filter_after_seq_loop om seq extractor table_iter
                           (kv_table_put om entry new_table) surviving
          else filter_after_seq_loop om seq extractor table_iter new_table surviving)"
  by pat_completeness auto
termination
  by (relation "measure (\<lambda>(_, _, _, it, _). mti_pending it)")
    (auto dest!: next_sync_pending [OF sym] next_sync_pending)

declare filter_after_seq_loop.simps [simp del]

definition filter_after_seq ::
    "'m skip_map \<Rightarrow> u64 \<Rightarrow> (bytes \<Rightarrow> nat option) option \<Rightarrow> 'm immutable_memtable \<Rightarrow> 'm immutable_memtable result" where
  "filter_after_seq om seq extractor imm =
     bind_result
       (filter_after_seq_loop om seq extractor (kv_table_iter om (imm_table imm)) (kv_table_new om) {})
       (\<lambda>(new_table, surviving).
          Inr (immutable_memtable_new (record_touched_segments surviving new_table)
                 (imm_replay_after_wal_id imm)))"

subsection \<open>User ranges and internal ranges\<close>

lemma internal_range_bounds:
  "in_bounds (ir_start (internal_range_from s e)) (ir_end (internal_range_from s e)) k
     \<longleftrightarrow> in_bounds s e (user_key k)"
  by (cases s; cases e)
    (auto simp: internal_range_from_def in_bounds_def less_eq_sequenced_key_def less_sequenced_key_def)

lemma from_newest_version: "SequencedKey k (- 1) \<le> q \<longleftrightarrow> k \<le> user_key q"
  by (auto simp: less_eq_sequenced_key_def)

lemma sequenced_key_of_less:
  "sequenced_key_of a < sequenced_key_of b \<longleftrightarrow> row_le Ascending a b \<and> sequenced_key_of a \<noteq> sequenced_key_of b"
  by (auto simp: sequenced_key_of_def less_sequenced_key_def row_le_def)

subsection \<open>What the iterator has left to return\<close>

definition mti_entries :: "'m mem_table_iterator \<Rightarrow> (sequenced_key \<times> row_entry) list" where
  "mti_entries it =
     (let item = (case mti_item it of None \<Rightarrow> [] | Some r \<Rightarrow> [(sequenced_key_of r, r)])
      in case mti_ordering it of
           Ascending \<Rightarrow> item @ mti_inner it
         | Descending \<Rightarrow> mti_inner it @ item)"

text \<open>Rows in reverse order, the versions of each key turned back to newest first.\<close>

function desc_rows :: "row_entry list \<Rightarrow> row_entry list" where
  "desc_rows [] = []"
| "desc_rows (y # ys) =
     rev (y # takeWhile (\<lambda>r. re_key r = re_key y) ys) @ desc_rows (dropWhile (\<lambda>r. re_key r = re_key y) ys)"
  by pat_completeness auto
termination
  by (relation "measure length") (auto simp: le_imp_less_Suc length_dropWhile_le)

definition mti_rows :: "'m mem_table_iterator \<Rightarrow> row_entry list" where
  "mti_rows it =
     (case mti_ordering it of
        Ascending \<Rightarrow> map snd (mti_entries it)
      | Descending \<Rightarrow> rev (mti_descending_stack it) @ desc_rows (rev (map snd (mti_entries it))))"

definition entries_keyed :: "(sequenced_key \<times> row_entry) list \<Rightarrow> bool" where
  "entries_keyed es \<longleftrightarrow> (\<forall>p\<in>set es. fst p = sequenced_key_of (snd p))"

lemma set_desc_rows [simp]: "set (desc_rows ys) = set ys"
proof (induction ys rule: desc_rows.induct)
  case (2 y ys)
  have "set ys = set (takeWhile (\<lambda>r. re_key r = re_key y) ys) \<union> set (dropWhile (\<lambda>r. re_key r = re_key y) ys)"
    by (metis set_append takeWhile_dropWhile_id)
  with 2 show ?case by auto
qed simp

lemma mset_desc_rows [simp]: "mset (desc_rows ys) = mset ys"
proof (induction ys rule: desc_rows.induct)
  case (2 y ys)
  have "mset ys = mset (takeWhile (\<lambda>r. re_key r = re_key y) ys) + mset (dropWhile (\<lambda>r. re_key r = re_key y) ys)"
    by (metis mset_append takeWhile_dropWhile_id)
  with 2 show ?case by simp
qed simp

lemma row_le_reverse:
  "re_key a = re_key b \<Longrightarrow> row_le Ascending a b \<Longrightarrow> row_le Descending a b"
  "re_key b < re_key a \<Longrightarrow> row_le Descending a b"
  by (auto simp: row_le_def)

lemma sorted_desc_rows:
  "sorted_wrt (\<lambda>a b. row_le Ascending b a) ys \<Longrightarrow> sorted_wrt (row_le Descending) (desc_rows ys)"
proof (induction ys rule: desc_rows.induct)
  case (2 y ys)
  define t d where "t = takeWhile (\<lambda>r. re_key r = re_key y) ys" and "d = dropWhile (\<lambda>r. re_key r = re_key y) ys"
  have parts: "ys = t @ d" by (simp add: t_def d_def)
  have same: "re_key a = re_key y" if "a \<in> set (rev (y # t))" for a
    using that by (auto simp: t_def dest: set_takeWhileD)
  from 2(2) have sorted: "sorted_wrt (\<lambda>a b. row_le Ascending b a) (y # t)"
    and sd: "sorted_wrt (\<lambda>a b. row_le Ascending b a) d" and below: "\<forall>r\<in>set d. row_le Ascending r y"
    unfolding parts by (auto simp: sorted_wrt_append)
  have "sorted_wrt (row_le Descending) (rev (y # t))"
  proof (rule sorted_wrt_mono_rel)
    show "sorted_wrt (row_le Ascending) (rev (y # t))" using sorted by (simp only: sorted_wrt_rev)
    fix a b assume "a \<in> set (rev (y # t))" "b \<in> set (rev (y # t))" "row_le Ascending a b"
    with same [of a] same [of b] show "row_le Descending a b" by (metis row_le_reverse(1))
  qed
  moreover have "re_key r < re_key y" if "r \<in> set d" for r
  proof -
    from that obtain e ds where d: "d = e # ds" by (cases d) auto
    then have "re_key e \<noteq> re_key y" using hd_dropWhile [of "\<lambda>r. re_key r = re_key y" ys] by (simp add: d_def)
    moreover have "row_le Ascending e y" using below d by simp
    ultimately have "re_key e < re_key y" by (simp add: row_le_def)
    moreover have "r = e \<or> row_le Ascending r e" using that sd unfolding d by auto
    ultimately show ?thesis by (auto simp: row_le_def split: if_splits)
  qed
  then have "row_le Descending a r" if "a \<in> set (rev (y # t))" "r \<in> set d" for a r
    using same [OF that(1)] that(2) by (metis row_le_reverse(2))
  ultimately show ?case using 2(1) sd
    by (simp only: desc_rows.simps sorted_wrt_append set_desc_rows t_def [symmetric] d_def [symmetric]) blast
qed simp

lemma entries_sorted:
  "strict_keys es \<Longrightarrow> entries_keyed es \<Longrightarrow> sorted_wrt (row_le Ascending) (map snd es)"
  unfolding sorted_wrt_map
  by (erule sorted_wrt_mono_rel [rotated]) (auto simp: entries_keyed_def sequenced_key_of_less)

definition skip_map_ok :: "'m skip_map \<Rightarrow> ('m \<Rightarrow> bool) \<Rightarrow> 'm \<Rightarrow> bool" where
  "skip_map_ok om valid m \<longleftrightarrow> valid m \<and> entries_keyed (om_entries om m)"

definition mem_iter_ok :: "'m skip_map \<Rightarrow> ('m \<Rightarrow> bool) \<Rightarrow> 'm mem_table_iterator \<Rightarrow> bool" where
  "mem_iter_ok om valid it \<longleftrightarrow>
     skip_map_ok om valid (mti_map it) \<and> strict_keys (mti_entries it) \<and> entries_keyed (mti_entries it)
     \<and> (mti_item it = None \<longrightarrow> mti_inner it = [])
     \<and> sorted_wrt (row_le (mti_ordering it)) (mti_rows it)
     \<and> (mti_ordering it = Ascending \<longrightarrow> mti_descending_stack it = []
          \<and> (mti_item it \<noteq> None \<longrightarrow>
               (\<exists>s. mti_entries it = om_range om s (mti_end_bound it) (mti_map it))))"

definition order_rows :: "iteration_order \<Rightarrow> row_entry list \<Rightarrow> row_entry list" where
  "order_rows order rs = (case order of Ascending \<Rightarrow> rs | Descending \<Rightarrow> desc_rows (rev rs))"

definition memtable_rows :: "'m skip_map \<Rightarrow> 'm kv_table \<Rightarrow> row_entry list" where
  "memtable_rows om t = map snd (om_entries om (kt_map t))"

locale skip_map = ordered_map om valid
  for om :: "'m skip_map" and valid :: "'m \<Rightarrow> bool"
begin

abbreviation map_ok :: "'m \<Rightarrow> bool" where
  "map_ok \<equiv> skip_map_ok om valid"

abbreviation mti_ok :: "'m mem_table_iterator \<Rightarrow> bool" where
  "mti_ok \<equiv> mem_iter_ok om valid"

lemmas mti_ok_def = mem_iter_ok_def [of om valid]
lemmas map_ok_def = skip_map_ok_def [of om valid]

lemma mti_pop_desc:
  assumes "mti_descending_stack it \<noteq> []" "mti_ordering it = Descending"
  shows "next_sync it = (Some (last (mti_descending_stack it)),
           it\<lparr>mti_descending_stack := butlast (mti_descending_stack it)\<rparr>)"
  using assms by (simp add: next_sync_def next_descending_def stack_pop_def)

lemma mti_next_asc:
  assumes "mti_ok it" "mti_ordering it = Ascending"
  shows "case mti_rows it of
           [] \<Rightarrow> \<exists>it'. next_sync it = (None, it') \<and> mti_ok it' \<and> mti_rows it' = []
         | x # xs \<Rightarrow> \<exists>it'. next_sync it = (Some x, it') \<and> mti_ok it' \<and> mti_rows it' = xs"
proof (cases "mti_item it")
  case None
  with assms show ?thesis
    by (auto simp: mti_rows_def mti_entries_def mti_ok_def next_sync_def next_ascending_def range_next_def)
next
  case (Some r)
  let ?it = "it\<lparr>mti_inner := tl (mti_inner it), mti_item := map_option snd (fst (range_next (mti_inner it)))\<rparr>"
  have nxt: "next_sync it = (Some r, ?it)"
    using assms(2) Some
    by (cases "mti_inner it") (simp_all add: next_sync_def next_ascending_def range_next_def)
  from assms Some obtain s where s: "(sequenced_key_of r, r) # mti_inner it = om_range om s (mti_end_bound it) (mti_map it)"
    by (auto simp: mti_ok_def mti_entries_def)
  have strict: "strict_keys ((sequenced_key_of r, r) # mti_inner it)"
    and keyed: "entries_keyed ((sequenced_key_of r, r) # mti_inner it)"
    using assms Some by (simp_all add: mti_ok_def mti_entries_def)
  have entries: "mti_entries ?it = mti_inner it"
    using assms(2) keyed
    by (cases "mti_inner it") (auto simp: mti_entries_def range_next_def entries_keyed_def)
  have range: "mti_inner it = om_range om (Excluded (sequenced_key_of r)) (mti_end_bound it) (mti_map it)"
  proof -
    have "filter (\<lambda>p. sequenced_key_of r < fst p) ((sequenced_key_of r, r) # mti_inner it) = mti_inner it"
      using strict by (simp add: filter_id_conv)
    moreover have "above_start s (sequenced_key_of r)"
      using s by (auto simp: om_range_def entries_range_def in_bounds_def Cons_eq_filter_iff)
    then have "above_start s k" if "sequenced_key_of r < k" for k
      using that by (cases s) auto
    ultimately show ?thesis unfolding s om_range_def entries_range_def in_bounds_def
      by (simp add: conj_commute conj_left_commute cong: conj_cong)
  qed
  have sorted: "sorted_wrt (row_le Ascending) (map snd (mti_inner it))"
    using strict keyed entries_sorted [of "mti_inner it"] by (simp add: entries_keyed_def)
  have rows: "mti_rows ?it = map snd (mti_inner it)"
    using assms(2) by (simp add: mti_rows_def entries)
  have "mti_item ?it = None \<longrightarrow> mti_inner ?it = []"
    by (cases "mti_inner it") (simp_all add: range_next_def)
  moreover have "map_ok (mti_map it)" "mti_descending_stack it = []" using assms by (simp_all add: mti_ok_def)
  ultimately have "mti_ok ?it"
    unfolding mti_ok_def entries rows using strict keyed range sorted assms(2)
    by (auto simp: entries_keyed_def)
  moreover have "mti_rows it = r # mti_rows ?it"
    using assms(2) Some by (simp add: mti_rows_def entries) (simp add: mti_entries_def)
  ultimately show ?thesis using nxt by simp
qed

lemma mti_next_desc_item:
  assumes "mti_ok it" "mti_ordering it = Descending" "mti_descending_stack it = []" "mti_item it = Some r"
  shows "\<exists>x xs it'. mti_rows it = x # xs \<and> next_sync it = (Some x, it') \<and> mti_ok it' \<and> mti_rows it' = xs"
proof -
  define same where "same = (\<lambda>p :: sequenced_key \<times> row_entry. user_key (fst p) = re_key r)"
  define rest where "rest = dropWhile same (rev (mti_inner it))"
  define stack where "stack = r # map snd (takeWhile same (rev (mti_inner it)))"
  define it' where "it' = it\<lparr>mti_inner := rev (tl rest),
    mti_item := (case rest of [] \<Rightarrow> None | p # _ \<Rightarrow> Some (snd p)), mti_descending_stack := butlast stack\<rparr>"
  from assms have ok: "map_ok (mti_map it)" "strict_keys (mti_inner it)" "entries_keyed (mti_inner it)"
    "sorted_wrt (row_le Descending) (mti_rows it)"
    by (auto simp: mti_ok_def mti_entries_def sorted_wrt_append entries_keyed_def)
  have inner: "mti_inner it = rev rest @ rev (takeWhile same (rev (mti_inner it)))"
    unfolding rest_def by (metis rev_append rev_rev_ident takeWhile_dropWhile_id)
  have keyed: "entries_keyed (rev rest)" "strict_keys (rev rest)"
    using ok(2,3) inner by (metis entries_keyed_def Un_iff set_append, metis map_append sorted_wrt_append)
  have nxt: "next_sync it = (Some (last stack), it')"
    using assms(2-4)
    by (simp add: next_sync_def next_descending_def stack_pop_def fill_descending_stack_eq Let_def
        it'_def rest_def stack_def same_def [symmetric])
  have entries: "mti_entries it' = rev rest"
    using keyed(1) assms(2) by (cases rest) (auto simp: mti_entries_def it'_def entries_keyed_def)
  have same_eq: "(re_key (snd p) = re_key r) = same p" if "p \<in> set (rev (mti_inner it))" for p
    using ok(3) that by (auto simp: entries_keyed_def same_def sequenced_key_of_def)
  have tw: "takeWhile (\<lambda>p. re_key (snd p) = re_key r) (rev (mti_inner it)) = takeWhile same (rev (mti_inner it))"
    by (rule takeWhile_cong [OF refl same_eq])
  have dw: "dropWhile (\<lambda>p. re_key (snd p) = re_key r) (rev (mti_inner it)) = dropWhile same (rev (mti_inner it))"
    by (rule dropWhile_cong [OF refl same_eq])
  have rows: "mti_rows it = rev stack @ desc_rows (map snd rest)"
    using assms(2-4) tw dw
    by (simp add: mti_rows_def mti_entries_def rev_map takeWhile_map dropWhile_map stack_def rest_def o_def)
  have "mti_ordering it' = Descending" "mti_descending_stack it' = butlast stack"
    using assms(2) by (simp_all add: it'_def)
  then have rows': "mti_rows it' = rev (butlast stack) @ desc_rows (map snd rest)"
    by (simp add: mti_rows_def entries rev_map)
  have "rev stack = last stack # rev (butlast stack)"
    using append_butlast_last_id [of stack] rev_append [of "butlast stack" "[last stack]"]
    by (simp add: stack_def)
  with rows rows' have rows_eq: "mti_rows it = last stack # mti_rows it'" by simp
  moreover have "mti_ok it'"
    using ok(1,4) keyed rows_eq assms(2) unfolding mti_ok_def entries
    by (auto simp: it'_def split: list.splits)
  ultimately show ?thesis using nxt by blast
qed

lemma mti_next_desc_stack:
  assumes "mti_ok it" "mti_ordering it = Descending" "mti_descending_stack it \<noteq> []"
  shows "\<exists>x xs it'. mti_rows it = x # xs \<and> next_sync it = (Some x, it') \<and> mti_ok it' \<and> mti_rows it' = xs"
proof -
  let ?it = "it\<lparr>mti_descending_stack := butlast (mti_descending_stack it)\<rparr>"
  have "rev (mti_descending_stack it) = last (mti_descending_stack it) # rev (butlast (mti_descending_stack it))"
    using append_butlast_last_id [OF assms(3)]
      rev_append [of "butlast (mti_descending_stack it)" "[last (mti_descending_stack it)]"] by simp
  then have rows: "mti_rows it = last (mti_descending_stack it) # mti_rows ?it"
    using assms(2) by (simp add: mti_rows_def mti_entries_def)
  moreover have "mti_ok ?it"
    using assms(1,2) rows by (simp add: mti_ok_def) (simp add: mti_entries_def)
  ultimately show ?thesis using mti_pop_desc [OF assms(3,2)] by blast
qed

lemma mti_next:
  assumes "mti_ok it"
  shows "case mti_rows it of
           [] \<Rightarrow> \<exists>it'. next_sync it = (None, it') \<and> mti_ok it' \<and> mti_rows it' = []
         | x # xs \<Rightarrow> \<exists>it'. next_sync it = (Some x, it') \<and> mti_ok it' \<and> mti_rows it' = xs"
proof (cases "mti_ordering it")
  case Ascending
  then show ?thesis by (rule mti_next_asc [OF assms])
next
  case Descending
  show ?thesis
  proof (cases "mti_descending_stack it = [] \<and> mti_item it = None")
    case True
    then have "next_sync it = (None, it)" "mti_rows it = []"
      using assms Descending
      by (auto simp: mti_ok_def mti_rows_def mti_entries_def next_sync_def next_descending_def
          stack_pop_def range_next_back_def)
    with assms show ?thesis by simp
  next
    case False
    then have "\<exists>x xs it'. mti_rows it = x # xs \<and> next_sync it = (Some x, it') \<and> mti_ok it' \<and> mti_rows it' = xs"
      using mti_next_desc_item [OF assms Descending] mti_next_desc_stack [OF assms Descending]
      by (cases "mti_descending_stack it = []") auto
    then show ?thesis by auto
  qed
qed

end

sublocale skip_map \<subseteq> mti: row_iterator mti_ok mti_rows mem_table_next
proof
  fix it :: "'m mem_table_iterator"
  assume ok: "mti_ok it"
  show "\<exists>it'. mem_table_next it = Inr (None, it') \<and> mti_ok it' \<and> mti_rows it' = []" if "mti_rows it = []"
    using mti_next [OF ok] that by (auto simp: mem_table_next_def)
  show "\<exists>it'. mem_table_next it = Inr (Some x, it') \<and> mti_ok it' \<and> mti_rows it' = xs"
    if "mti_rows it = x # xs" for x xs
    using mti_next [OF ok] that by (auto simp: mem_table_next_def)
qed

context skip_map
begin

lemma next_sync_frame [simp]:
  "mti_ordering (snd (next_sync it)) = mti_ordering it"
  "mti_map (snd (next_sync it)) = mti_map it"
  "mti_end_bound (snd (next_sync it)) = mti_end_bound it"
  by (auto simp: next_sync_def next_ascending_def next_descending_def stack_pop_def Let_def
      fill_descending_stack_eq split: iteration_order.splits option.splits prod.splits)

text \<open>Priming an iterator whose range is set loads the first row.\<close>

lemma prime:
  assumes "map_ok (mti_map it)" "mti_item it = None" "mti_descending_stack it = []"
    and "mti_inner it = om_range om s (mti_end_bound it) (mti_map it)"
  shows "mti_ok (snd (next_sync it))"
    and "mti_entries (snd (next_sync it)) = mti_inner it"
    and "mti_descending_stack (snd (next_sync it)) = []"
proof -
  let ?it = "snd (next_sync it)"
  have strict: "strict_keys (mti_inner it)" and keyed: "entries_keyed (mti_inner it)"
    using assms(1,4) entries_strict
    by (auto simp: om_range_def entries_range_def map_ok_def strict_keys_filter entries_keyed_def)
  show stack: "mti_descending_stack ?it = []"
    using assms(2,3) by (auto simp: next_sync_def next_ascending_def next_descending_def
        range_next_back_def stack_pop_def split: iteration_order.splits prod.splits)
  have row_eq: "(sequenced_key_of (snd p), snd p) = p" if "p \<in> set (mti_inner it)" for p
    using keyed that by (simp add: entries_keyed_def prod_eq_iff)
  show entries: "mti_entries ?it = mti_inner it"
    using assms(2,3) row_eq [of "hd (mti_inner it)"] row_eq [of "last (mti_inner it)"]
    by (cases "mti_ordering it"; cases "mti_inner it = []")
      (auto simp: mti_entries_def next_sync_def next_ascending_def next_descending_def range_next_def
        range_next_back_def stack_pop_def neq_Nil_conv split: list.splits)
  have none: "mti_item ?it = None \<longrightarrow> mti_inner ?it = []"
    using assms(2,3)
    by (auto simp: next_sync_def next_ascending_def next_descending_def range_next_def
        range_next_back_def stack_pop_def Let_def split: iteration_order.splits list.splits if_splits)
  have asc: "sorted_wrt (row_le Ascending) (map snd (mti_inner it))"
    by (rule entries_sorted [OF strict keyed])
  then have "sorted_wrt (\<lambda>a b. row_le Ascending b a) (rev (map snd (mti_inner it)))"
    by (simp only: sorted_wrt_rev)
  with asc have "sorted_wrt (row_le (mti_ordering ?it)) (mti_rows ?it)"
    unfolding mti_rows_def entries stack by (auto split: iteration_order.splits intro: sorted_desc_rows)
  with none stack strict keyed assms(1,4) show "mti_ok ?it"
    unfolding mti_ok_def entries by auto
qed

lemma range_rows:
  assumes "map_ok m"
  shows "map snd (om_range om (ir_start (internal_range_from s e)) (ir_end (internal_range_from s e)) m)
     = filter (\<lambda>r. in_bounds s e (re_key r)) (map snd (om_entries om m))"
proof -
  have "user_key (fst p) = re_key (snd p)" if "p \<in> set (om_entries om m)" for p
    using that assms by (auto simp: map_ok_def entries_keyed_def sequenced_key_of_def)
  then show ?thesis
    unfolding om_range_def entries_range_def internal_range_bounds filter_map o_def
    by (auto intro!: arg_cong [where f = "map snd"] filter_cong)
qed

lemma kv_table_range_props:
  assumes "map_ok (kt_map t)"
  shows "mti_ok (kv_table_range om t s e order)"
    and "mti_rows (kv_table_range om t s e order)
      = order_rows order (filter (\<lambda>r. in_bounds s e (re_key r)) (memtable_rows om t))"
    and "mti_ordering (kv_table_range om t s e order) = order"
    and "mti_map (kv_table_range om t s e order) = kt_map t"
proof -
  define it where "it = \<lparr>mti_map = kt_map t,
    mti_inner = om_range om (ir_start (internal_range_from s e)) (ir_end (internal_range_from s e)) (kt_map t),
    mti_ordering = order, mti_item = None, mti_descending_stack = [],
    mti_end_bound = ir_end (internal_range_from s e)\<rparr>"
  have eq: "kv_table_range om t s e order = snd (next_sync it)"
    by (simp add: kv_table_range_def it_def Let_def)
  note p = prime [of it "ir_start (internal_range_from s e)"]
  show "mti_ok (kv_table_range om t s e order)"
    unfolding eq by (rule p(1)) (simp_all add: it_def assms)
  show ord: "mti_ordering (kv_table_range om t s e order) = order"
    and "mti_map (kv_table_range om t s e order) = kt_map t"
    unfolding eq by (simp_all add: it_def)
  have "mti_entries (snd (next_sync it)) = mti_inner it" "mti_descending_stack (snd (next_sync it)) = []"
    using p(2,3) assms by (simp_all add: it_def)
  then show "mti_rows (kv_table_range om t s e order)
      = order_rows order (filter (\<lambda>r. in_bounds s e (re_key r)) (memtable_rows om t))"
    using ord range_rows [OF assms, of s e] unfolding eq
    by (auto simp: mti_rows_def order_rows_def memtable_rows_def it_def split: iteration_order.splits)
qed

lemma seek_ascending_props:
  assumes "mti_ok it" "mti_ordering it = Ascending"
  shows "mti_ok (seek_ascending om k it)"
    and "mti_rows (seek_ascending om k it) = dropWhile (\<lambda>r. re_key r < k) (mti_rows it)"
    and "mti_ordering (seek_ascending om k it) = Ascending"
proof -
  show "mti_ordering (seek_ascending om k it) = Ascending"
    using assms(2) by (simp add: seek_ascending_def split: option.splits)
  have "mti_ok (seek_ascending om k it)
    \<and> mti_rows (seek_ascending om k it) = dropWhile (\<lambda>r. re_key r < k) (mti_rows it)"
  proof (cases "mti_rows it")
    case Nil
    then have "mti_item it = None" using assms(2) by (auto simp: mti_rows_def mti_entries_def split: option.splits)
    with Nil assms show ?thesis by (simp add: seek_ascending_def)
  next
    case (Cons r rs)
    then have item: "mti_item it = Some r"
      using assms by (auto simp: mti_rows_def mti_entries_def mti_ok_def split: option.splits)
    show ?thesis
    proof (cases "re_key r < k")
      case False
      with item Cons assms(1) show ?thesis by (simp add: seek_ascending_def not_less)
    next
      case True
      let ?start = "Included (SequencedKey k (- 1))"
      let ?it = "it\<lparr>mti_inner := om_range om ?start (mti_end_bound it) (mti_map it), mti_item := None\<rparr>"
      have eq: "seek_ascending om k it = snd (next_sync ?it)"
        using item True by (simp add: seek_ascending_def)
      have ok: "map_ok (mti_map it)" "mti_descending_stack it = []" using assms by (simp_all add: mti_ok_def)
      note p = prime [of ?it ?start]
      from assms item obtain s where
        s: "mti_entries it = om_range om s (mti_end_bound it) (mti_map it)" by (auto simp: mti_ok_def)
      have keyed: "entries_keyed (mti_entries it)" and strict: "strict_keys (mti_entries it)"
        using assms(1) by (simp_all add: mti_ok_def)
      have start: "above_start s (sequenced_key_of r)"
      proof -
        have "(sequenced_key_of r, r) \<in> set (mti_entries it)" using item assms(2) by (simp add: mti_entries_def)
        then show ?thesis unfolding s by (simp add: om_range_def entries_range_def in_bounds_def)
      qed
      have "above_start s q" if "k \<le> user_key q" for q
      proof -
        have "sequenced_key_of r < q" using True that by (auto simp: sequenced_key_of_def less_sequenced_key_def)
        with start show ?thesis by (cases s) auto
      qed
      then have "om_range om ?start (mti_end_bound it) (mti_map it) = filter (\<lambda>p. k \<le> user_key (fst p)) (mti_entries it)"
        unfolding s by (auto simp: om_range_def entries_range_def in_bounds_def from_newest_version
            intro!: filter_cong)
      also have "\<dots> = filter (\<lambda>p. \<not> re_key (snd p) < k) (mti_entries it)"
        using keyed by (auto simp: entries_keyed_def sequenced_key_of_def not_less intro!: filter_cong)
      finally have "map snd (om_range om ?start (mti_end_bound it) (mti_map it))
          = filter (\<lambda>r. \<not> re_key r < k) (mti_rows it)"
        using assms(2) by (simp add: mti_rows_def filter_map o_def)
      also have "\<dots> = dropWhile (\<lambda>r. re_key r < k) (mti_rows it)"
        by (rule dropWhile_filter [symmetric])
          (use entries_sorted [OF strict keyed] assms(2) in \<open>auto simp: mti_rows_def row_le_def
             elim!: sorted_wrt_mono_rel [rotated] split: if_splits\<close>)
      finally show ?thesis
        using p ok assms(2) unfolding eq by (simp add: mti_rows_def)
    qed
  qed
  then show "mti_ok (seek_ascending om k it)"
    and "mti_rows (seek_ascending om k it) = dropWhile (\<lambda>r. re_key r < k) (mti_rows it)" by blast+
qed

end

subsection \<open>What the table keeps true\<close>

definition memtable_ok :: "'m skip_map \<Rightarrow> ('m \<Rightarrow> bool) \<Rightarrow> 'm kv_table \<Rightarrow> bool" where
  "memtable_ok om valid t \<longleftrightarrow>
     skip_map_ok om valid (kt_map t)
     \<and> kt_entries_size t = of_nat (\<Sum>r\<leftarrow>memtable_rows om t. estimated_size r)
     \<and> (\<forall>r\<in>set (memtable_rows om t). kt_first_seq t \<le> re_seq r \<and> re_seq r \<le> kt_last_seq t
          \<and> (\<forall>c. re_create_ts r = Some c \<longrightarrow> sint c \<le> sint (kt_last_tick t)))"

lemma sum_btree_insert:
  fixes f :: "'v \<Rightarrow> nat"
  shows "strict_keys m \<Longrightarrow>
    (\<Sum>p\<leftarrow>btree_insert k v m. f (snd p)) + (case map_of m k of None \<Rightarrow> 0 | Some v' \<Rightarrow> f v')
      = (\<Sum>p\<leftarrow>m. f (snd p)) + f v"
proof (induction k v m rule: btree_insert.induct)
  case (2 k v k' v' m)
  have "map_of m k = None" if "k < k' \<or> k = k'"
    using 2(2) that by (auto simp: map_of_eq_None_iff)
  with 2 show ?case by auto
qed simp

lemma sum_btree_remove:
  fixes f :: "'v \<Rightarrow> nat"
  shows "strict_keys m \<Longrightarrow> (k, v) \<in> set m \<Longrightarrow>
    (\<Sum>p\<leftarrow>btree_remove k m. f (snd p)) + f v = (\<Sum>p\<leftarrow>m. f (snd p))"
proof (induction m)
  case (Cons p m)
  show ?case
  proof (cases "fst p = k")
    case True
    with Cons.prems have "p = (k, v)" "filter (\<lambda>q. fst q \<noteq> k) m = m"
      by (auto simp: filter_id_conv)
    then show ?thesis by (simp add: btree_remove_def)
  next
    case False
    with Cons show ?thesis by (auto simp: btree_remove_def)
  qed
qed simp

context skip_map
begin

lemma put_inner_map: "kt_map (put_inner om row t) = om_insert om (sequenced_key_of row) row (kt_map t)"
  by (simp add: put_inner_def Let_def split: option.splits)

lemma map_ok_insert: "map_ok m \<Longrightarrow> map_ok (om_insert om (sequenced_key_of row) row m)"
  by (auto simp: map_ok_def insert_valid insert_entries entries_keyed_def)

lemma map_ok_remove: "map_ok m \<Longrightarrow> map_ok (om_remove om k m)"
  by (auto simp: map_ok_def remove_valid remove_entries entries_keyed_def)

lemma put_inner_rows:
  assumes "map_ok (kt_map t)"
  shows "set (memtable_rows om (put_inner om row t))
    = insert row {r \<in> set (memtable_rows om t). sequenced_key_of r \<noteq> sequenced_key_of row}"
  using assms by (force simp: memtable_rows_def put_inner_map insert_entries map_ok_def entries_keyed_def)

lemma put_inner_size:
  assumes "valid (kt_map t)"
    and "kt_entries_size t = of_nat (\<Sum>r\<leftarrow>memtable_rows om t. estimated_size r)"
  shows "kt_entries_size (put_inner om row t)
    = of_nat (\<Sum>r\<leftarrow>memtable_rows om (put_inner om row t). estimated_size r)"
proof -
  have "kt_entries_size (put_inner om row t) + of_nat (case om_get om (sequenced_key_of row) (kt_map t) of
          None \<Rightarrow> 0 | Some v' \<Rightarrow> estimated_size v')
      = kt_entries_size t + of_nat (estimated_size row)"
    by (simp add: put_inner_def Let_def split: option.splits)
  moreover have "of_nat ((\<Sum>r\<leftarrow>memtable_rows om (put_inner om row t). estimated_size r)
        + (case om_get om (sequenced_key_of row) (kt_map t) of None \<Rightarrow> 0 | Some v' \<Rightarrow> estimated_size v'))
      = (of_nat ((\<Sum>r\<leftarrow>memtable_rows om t. estimated_size r) + estimated_size row) :: u64)"
    using sum_btree_insert [OF entries_strict [OF assms(1)], where f = estimated_size]
    by (simp only: memtable_rows_def put_inner_map entries_insert [OF assms(1)] om_get_def map_map o_def)
  ultimately show ?thesis unfolding assms(2) of_nat_add by (metis add_right_cancel)
qed

lemma put_inner_seqs:
  "kt_first_seq (put_inner om row t) = min (kt_first_seq t) (re_seq row)"
  "kt_last_seq (put_inner om row t) = max (kt_last_seq t) (re_seq row)"
  "sint (kt_last_tick t) \<le> sint (kt_last_tick (put_inner om row t))"
  "re_create_ts row = Some c \<Longrightarrow> sint c \<le> sint (kt_last_tick (put_inner om row t))"
  by (auto simp: put_inner_def Let_def split: option.splits)

lemma put_inner_ok:
  assumes "memtable_ok om valid t"
  shows "memtable_ok om valid (put_inner om row t)"
proof -
  from assms have m: "map_ok (kt_map t)" "valid (kt_map t)"
    and sz: "kt_entries_size t = of_nat (\<Sum>r\<leftarrow>memtable_rows om t. estimated_size r)"
    by (simp_all add: memtable_ok_def map_ok_def)
  have "kt_first_seq (put_inner om row t) \<le> re_seq r \<and> re_seq r \<le> kt_last_seq (put_inner om row t)
      \<and> (\<forall>c. re_create_ts r = Some c \<longrightarrow> sint c \<le> sint (kt_last_tick (put_inner om row t)))"
    if "r \<in> set (memtable_rows om (put_inner om row t))" for r
  proof (cases "r = row")
    case True
    then show ?thesis using put_inner_seqs by (simp add: put_inner_seqs)
  next
    case False
    with that put_inner_rows [OF m(1)] have "r \<in> set (memtable_rows om t)" by auto
    with assms show ?thesis using put_inner_seqs(3) [of t row]
      by (auto simp: memtable_ok_def put_inner_seqs(1,2) min_le_iff_disj le_max_iff_disj intro: order_trans)
  qed
  with put_inner_size [OF m(2) sz] map_ok_insert [OF m(1)] show ?thesis
    by (simp add: memtable_ok_def put_inner_map)
qed

text \<open>The entry after the inserted row, split off the sorted entries.\<close>

lemma entry_next_split:
  assumes "valid m" "(k, v) \<in> set (om_entries om m)" "entry_next om k m = Some p"
  shows "\<exists>A B. om_entries om m = A @ (k, v) # p # B"
proof -
  from assms(2) obtain A B where es: "om_entries om m = A @ (k, v) # B" by (meson split_list)
  have "strict_keys (A @ (k, v) # B)" using entries_strict [OF assms(1)] es by simp
  then have "filter (\<lambda>q. k < fst q) (A @ (k, v) # B) = B"
    by (auto simp: sorted_wrt_append filter_empty_conv filter_id_conv not_less intro: order.strict_implies_order)
  then have "om_range om (Excluded k) Unbounded m = B"
    by (simp add: om_range_def entries_range_def in_bounds_def es)
  with assms(3) es show ?thesis by (cases B) (auto simp: entry_next_def range_next_def)
qed

lemma put_inner_mem: "map_ok (kt_map t) \<Longrightarrow>
  (sequenced_key_of row, row) \<in> set (om_entries om (kt_map (put_inner om row t)))"
  by (simp add: put_inner_map map_ok_def insert_entries)

text \<open>Pruning either changes nothing after the insertion or removes the next older version.\<close>

lemma prune_cases:
  assumes "memtable_ok om valid t"
  obtains (same) "put_and_prune_overwritten om row t = put_inner om row t"
  | (pruned) A older B where "\<not> is_merge (re_value row)" "re_key older = re_key row"
      "re_seq older < re_seq row"
      "memtable_rows om (put_inner om row t) = A @ row # older # B"
      "memtable_rows om (put_and_prune_overwritten om row t) = A @ row # B"
      "memtable_ok om valid (put_and_prune_overwritten om row t)"
proof (cases "put_and_prune_overwritten om row t = put_inner om row t")
  case True
  then show ?thesis by (rule same)
next
  case False
  let ?t = "put_inner om row t"
  from False obtain key older where nm: "\<not> is_merge (re_value row)"
    and nxt: "entry_next om (sequenced_key_of row) (kt_map ?t) = Some (key, older)"
    and key: "user_key key = re_key row"
    and eq: "put_and_prune_overwritten om row t = ?t\<lparr>kt_map := om_remove om key (kt_map ?t),
               kt_entries_size := kt_entries_size ?t - of_nat (estimated_size older)\<rparr>"
    by (auto simp: put_and_prune_overwritten_def Let_def split: if_splits option.splits prod.splits)
  have ok: "memtable_ok om valid ?t" by (rule put_inner_ok [OF assms])
  then have m: "map_ok (kt_map ?t)" "valid (kt_map ?t)" by (simp_all add: memtable_ok_def map_ok_def)
  from assms have "map_ok (kt_map t)" by (simp add: memtable_ok_def)
  from entry_next_split [OF m(2) put_inner_mem [OF this] nxt] obtain A B where
    es: "om_entries om (kt_map ?t) = A @ (sequenced_key_of row, row) # (key, older) # B" by blast
  have key_eq: "key = sequenced_key_of older" using m(1) es by (auto simp: map_ok_def entries_keyed_def)
  have strict: "strict_keys (A @ (sequenced_key_of row, row) # (key, older) # B)"
    using entries_strict [OF m(2)] es by simp
  have es': "om_entries om (om_remove om key (kt_map ?t)) = A @ (sequenced_key_of row, row) # B"
  proof -
    have "\<forall>p\<in>set A. fst p \<noteq> key" "\<forall>p\<in>set B. fst p \<noteq> key" "sequenced_key_of row \<noteq> key"
      using strict by (auto simp: sorted_wrt_append)
    then show ?thesis unfolding entries_remove [OF m(2)] es btree_remove_def by simp
  qed
  have "sequenced_key_of row < key" using strict by (simp add: sorted_wrt_append)
  then have older: "re_key older = re_key row" "re_seq older < re_seq row"
    using key by (auto simp: key_eq sequenced_key_of_def less_sequenced_key_def)
  have rows: "memtable_rows om ?t = map snd A @ row # older # map snd B"
    and rows': "memtable_rows om (put_and_prune_overwritten om row t) = map snd A @ row # map snd B"
    by (simp_all add: memtable_rows_def es eq es')
  have "memtable_ok om valid (put_and_prune_overwritten om row t)"
    unfolding memtable_ok_def rows'
    using ok rows map_ok_remove [OF m(1), of key] by (simp add: memtable_ok_def eq algebra_simps)
  with nm older rows rows' show ?thesis by (rule pruned)
qed

end

subsection \<open>Reads of a table\<close>

context skip_map
begin

lemma range_yields:
  assumes "memtable_ok om valid t"
  shows "\<exists>out. yields mem_table_next (kv_table_range om t s e order) out \<and> sorted_wrt (row_le order) out
    \<and> mset out = mset (filter (\<lambda>r. in_bounds s e (re_key r)) (memtable_rows om t))"
proof -
  let ?it = "kv_table_range om t s e order"
  have m: "map_ok (kt_map t)" using assms by (simp add: memtable_ok_def)
  note p = kv_table_range_props [OF m, of s e order]
  have "yields mem_table_next ?it (mti_rows ?it)" by (rule mti.yields_rows [OF p(1)])
  moreover have "sorted_wrt (row_le order) (mti_rows ?it)" using p(1,3) by (simp add: mti_ok_def)
  moreover have "mset (mti_rows ?it) = mset (filter (\<lambda>r. in_bounds s e (re_key r)) (memtable_rows om t))"
    unfolding p(2) by (simp add: order_rows_def split: iteration_order.split)
  ultimately show ?thesis by blast
qed

lemma seek_yields:
  assumes "memtable_ok om valid t"
  shows "\<exists>it. mem_table_seek om (kv_table_range om t s e Ascending) k = Inr it
    \<and> yields mem_table_next it (filter (\<lambda>r. in_bounds s e (re_key r) \<and> k \<le> re_key r) (memtable_rows om t))"
proof -
  let ?it = "kv_table_range om t s e Ascending"
  have m: "map_ok (kt_map t)" using assms by (simp add: memtable_ok_def)
  note p = kv_table_range_props [OF m, of s e Ascending]
  note q = seek_ascending_props [OF p(1,3), of k]
  have "sorted_wrt (row_le Ascending) (mti_rows ?it)" using p(1,3) by (simp add: mti_ok_def)
  then have "sorted_wrt (\<lambda>a b. \<not> re_key a < k \<longrightarrow> \<not> re_key b < k) (mti_rows ?it)"
    by (rule sorted_wrt_mono_rel [rotated]) (auto simp: row_le_def split: if_splits)
  from dropWhile_filter [OF this] q(2)
  have "mti_rows (seek_ascending om k ?it)
      = filter (\<lambda>r. in_bounds s e (re_key r) \<and> k \<le> re_key r) (memtable_rows om t)"
    unfolding p(2) by (simp add: order_rows_def not_less conj_commute)
  with mti.yields_rows [OF q(1)] p(3) show ?thesis by (simp add: mem_table_seek_def)
qed

lemma memtable_rows_sorted:
  "map_ok (kt_map t) \<Longrightarrow> sorted_wrt (row_le Ascending) (memtable_rows om t)"
  "map_ok (kt_map t) \<Longrightarrow> distinct (map (\<lambda>r. (re_key r, re_seq r)) (memtable_rows om t))"
proof -
  assume m: "map_ok (kt_map t)"
  let ?es = "om_entries om (kt_map t)"
  from m have strict: "strict_keys ?es" and keyed: "entries_keyed ?es"
    by (simp_all add: map_ok_def entries_strict)
  then show "sorted_wrt (row_le Ascending) (memtable_rows om t)"
    unfolding memtable_rows_def by (rule entries_sorted)
  have eq: "map fst ?es = map (\<lambda>p. sequenced_key_of (snd p)) ?es"
    using keyed by (simp add: entries_keyed_def)
  have "distinct (map (\<lambda>p. sequenced_key_of (snd p)) ?es)"
    unfolding eq [symmetric] by (rule strict_keys_distinct [OF strict])
  then have "distinct (map (\<lambda>p. case sequenced_key_of (snd p) of SequencedKey k s \<Rightarrow> (k, s)) ?es)"
    by (simp add: distinct_map inj_on_def split: sequenced_key.splits)
  then show "distinct (map (\<lambda>r. (re_key r, re_seq r)) (memtable_rows om t))"
    by (simp add: memtable_rows_def sequenced_key_of_def o_def)
qed

text \<open>Rows sorted strictly by key and version are determined by their set.\<close>

lemma rows_unique:
  assumes "map_ok (kt_map t)" "set (memtable_rows om t) = set rs"
    and "sorted_wrt (\<lambda>a b. sequenced_key_of a < sequenced_key_of b) rs"
  shows "memtable_rows om t = rs"
proof -
  let ?es = "om_entries om (kt_map t)" and ?rs = "map (\<lambda>r. (sequenced_key_of r, r)) rs"
  have "(sequenced_key_of (snd p), snd p) = p" if "p \<in> set ?es" for p
    using assms(1) that by (simp add: map_ok_def entries_keyed_def prod_eq_iff)
  then have "?es = map (\<lambda>r. (sequenced_key_of r, r)) (memtable_rows om t)"
    by (simp add: memtable_rows_def map_idI)
  then have "set ?es = set ?rs" using assms(2) by (metis set_map)
  moreover have "strict_keys ?rs" using assms(3) by (simp add: sorted_wrt_map)
  moreover have "strict_keys ?es" using assms(1) by (simp add: map_ok_def entries_strict)
  ultimately have "?es = ?rs" by (intro strict_keys_unique)
  then show ?thesis by (simp add: memtable_rows_def o_def)
qed

lemma rows_strict:
  "map_ok (kt_map t) \<Longrightarrow> sorted_wrt (\<lambda>a b. sequenced_key_of a < sequenced_key_of b) (memtable_rows om t)"
proof -
  assume m: "map_ok (kt_map t)"
  let ?es = "om_entries om (kt_map t)"
  from m have strict: "sorted_wrt (\<lambda>p q. fst p < fst q) ?es"
    by (simp add: map_ok_def entries_strict sorted_wrt_map [symmetric])
  show ?thesis unfolding memtable_rows_def sorted_wrt_map
  proof (rule sorted_wrt_mono_rel [OF _ strict])
    fix p q assume "p \<in> set ?es" "q \<in> set ?es" "fst p < fst q"
    moreover from this m have "fst p = sequenced_key_of (snd p)" "fst q = sequenced_key_of (snd q)"
      by (simp_all add: map_ok_def entries_keyed_def)
    ultimately show "sequenced_key_of (snd p) < sequenced_key_of (snd q)" by simp
  qed
qed

lemma new_ok:
  "memtable_ok om valid (kv_table_new om)" "memtable_rows om (kv_table_new om) = []"
  "kt_touched_segments (kv_table_new om) = {}"
  by (simp_all add: memtable_ok_def memtable_rows_def kv_table_new_def map_ok_def empty_valid
      empty_entries entries_keyed_def)

end

subsection \<open>Filtering a frozen table by sequence number\<close>

context skip_map
begin

lemma record_touched_rows: "memtable_rows om (record_touched_segments ps t) = memtable_rows om t"
  by (simp add: record_touched_segments_def memtable_rows_def)

lemma record_touched_ok: "memtable_ok om valid (record_touched_segments ps t) \<longleftrightarrow> memtable_ok om valid t"
  unfolding memtable_ok_def record_touched_rows by (simp add: record_touched_segments_def)

text \<open>The loop of \<open>filter_after_seq\<close> as a recursion over the rows the iterator returns.\<close>

primrec filter_rows ::
    "u64 \<Rightarrow> (bytes \<Rightarrow> nat option) option \<Rightarrow> row_entry list \<Rightarrow> 'm kv_table \<Rightarrow> bytes set
      \<Rightarrow> ('m kv_table \<times> bytes set) result" where
  "filter_rows seq extractor [] t surviving = Inr (t, surviving)"
| "filter_rows seq extractor (r # rs) t surviving =
     (if re_seq r > seq
      then case extractor of
             Some prefix_len \<Rightarrow>
               (case extract_segment_prefix prefix_len (re_key r) of
                  Inl e \<Rightarrow> Inl e
                | Inr p \<Rightarrow> filter_rows seq extractor rs (put_inner om r t) (insert p surviving))
           | None \<Rightarrow> filter_rows seq extractor rs (put_inner om r t) surviving
      else filter_rows seq extractor rs t surviving)"

lemma filter_loop_rows:
  "mti_ok it \<Longrightarrow> filter_after_seq_loop om seq extractor it t surviving
     = filter_rows seq extractor (mti_rows it) t surviving"
proof (induction "mti_rows it" arbitrary: it t surviving)
  case Nil
  with mti_next [of it] obtain it' where "next_sync it = (None, it')" by auto
  then show ?case using Nil(1) [symmetric] by (simp add: filter_after_seq_loop.simps [of om seq extractor it])
next
  case (Cons r rs)
  from mti_next [OF Cons(3)] obtain it' where
    it': "next_sync it = (Some r, it')" "mti_ok it'" "mti_rows it' = rs"
    unfolding Cons(2) [symmetric] by auto
  note IH = Cons(1) [OF it'(3) [symmetric] it'(2), unfolded it'(3)]
  show ?case unfolding Cons(2) [symmetric]
    using IH by (cases extractor)
      (auto simp: filter_after_seq_loop.simps [of om seq _ it] it'(1) kv_table_put_def split: sum.split)
qed

definition extracted :: "(bytes \<Rightarrow> nat option) option \<Rightarrow> row_entry list \<Rightarrow> bytes set" where
  "extracted extractor rs =
     (case extractor of None \<Rightarrow> {} | Some prefix_len \<Rightarrow> (\<lambda>r. take (the (prefix_len (re_key r))) (re_key r)) ` set rs)"

lemma filter_rows_ok:
  assumes "memtable_ok om valid t"
    and "\<forall>prefix_len. extractor = Some prefix_len \<longrightarrow>
           (\<forall>r\<in>set rs. re_seq r > seq \<longrightarrow> (\<exists>n. prefix_len (re_key r) = Some n \<and> 0 < n \<and> n \<le> length (re_key r)))"
  shows "\<exists>t'. filter_rows seq extractor rs t surviving
      = Inr (t', surviving \<union> extracted extractor (filter (\<lambda>r. re_seq r > seq) rs))
    \<and> memtable_ok om valid t'
    \<and> kt_touched_segments t' = kt_touched_segments t
    \<and> kt_sequence_tracker t' = kt_sequence_tracker t
    \<and> (\<forall>r. sequenced_key_of r \<notin> sequenced_key_of ` set rs \<longrightarrow>
          r \<in> set (memtable_rows om t') \<longleftrightarrow> r \<in> set (memtable_rows om t))
    \<and> (distinct (map sequenced_key_of rs) \<longrightarrow>
          (\<forall>r\<in>set rs. re_seq r > seq \<longrightarrow> r \<in> set (memtable_rows om t'))
          \<and> set (memtable_rows om t') \<subseteq> set (memtable_rows om t) \<union> {r \<in> set rs. re_seq r > seq})"
  using assms
proof (induction rs arbitrary: t surviving)
  case Nil
  then show ?case by (simp add: extracted_def split: option.split)
next
  case (Cons r rs)
  show ?case
  proof (cases "re_seq r > seq")
    case False
    then have step: "filter_rows seq extractor (r # rs) t surviving = filter_rows seq extractor rs t surviving"
      "filter (\<lambda>r. re_seq r > seq) (r # rs) = filter (\<lambda>r. re_seq r > seq) rs" by simp_all
    have "\<forall>prefix_len. extractor = Some prefix_len \<longrightarrow>
        (\<forall>r\<in>set rs. re_seq r > seq \<longrightarrow> (\<exists>n. prefix_len (re_key r) = Some n \<and> 0 < n \<and> n \<le> length (re_key r)))"
      using Cons.prems(2) by simp
    from Cons.IH [OF Cons.prems(1) this, of surviving] obtain t' where t':
      "filter_rows seq extractor rs t surviving
         = Inr (t', surviving \<union> extracted extractor (filter (\<lambda>r. re_seq r > seq) rs))"
      "memtable_ok om valid t'"
      "kt_touched_segments t' = kt_touched_segments t" "kt_sequence_tracker t' = kt_sequence_tracker t"
      and old: "\<And>x. sequenced_key_of x \<notin> sequenced_key_of ` set rs \<Longrightarrow>
          x \<in> set (memtable_rows om t') \<longleftrightarrow> x \<in> set (memtable_rows om t)"
      and new: "distinct (map sequenced_key_of rs) \<Longrightarrow>
          (\<forall>x\<in>set rs. re_seq x > seq \<longrightarrow> x \<in> set (memtable_rows om t'))
          \<and> set (memtable_rows om t') \<subseteq> set (memtable_rows om t) \<union> {x \<in> set rs. re_seq x > seq}"
      by blast
    have unchanged: "x \<in> set (memtable_rows om t') \<longleftrightarrow> x \<in> set (memtable_rows om t)"
      if "sequenced_key_of x \<notin> sequenced_key_of ` set (r # rs)" for x
      by (rule old) (use that in simp)
    have added: "(\<forall>x\<in>set (r # rs). re_seq x > seq \<longrightarrow> x \<in> set (memtable_rows om t'))
          \<and> set (memtable_rows om t') \<subseteq> set (memtable_rows om t) \<union> {x \<in> set (r # rs). re_seq x > seq}"
      if "distinct (map sequenced_key_of (r # rs))"
      using new that False by auto
    show ?thesis
      by (intro exI [of _ t'] conjI allI impI, unfold step)
        (rule t' unchanged conjunct1 [OF added] conjunct2 [OF added], assumption?)+
  next
    case True
    let ?t = "put_inner om r t"
    let ?sv = "surviving \<union> extracted extractor [r]"
    have ok: "memtable_ok om valid ?t" by (rule put_inner_ok [OF Cons.prems(1)])
    have m: "map_ok (kt_map t)" using Cons.prems(1) by (simp add: memtable_ok_def)
    have step: "filter_rows seq extractor (r # rs) t surviving = filter_rows seq extractor rs ?t ?sv"
      using True Cons.prems(2)
      by (cases extractor) (auto simp: extracted_def extract_segment_prefix_def)
    have same: "kt_touched_segments ?t = kt_touched_segments t" "kt_sequence_tracker ?t = kt_sequence_tracker t"
      by (simp_all add: put_inner_def Let_def split: option.splits)
    have sv: "?sv \<union> extracted extractor (filter (\<lambda>r. re_seq r > seq) rs)
        = surviving \<union> extracted extractor (filter (\<lambda>r. re_seq r > seq) (r # rs))"
      using True by (auto simp: extracted_def split: option.split)
    from Cons.IH [OF ok, of ?sv] Cons.prems(2) obtain t' where t':
      "filter_rows seq extractor rs ?t ?sv
         = Inr (t', ?sv \<union> extracted extractor (filter (\<lambda>r. re_seq r > seq) rs))"
      "memtable_ok om valid t'"
      "kt_touched_segments t' = kt_touched_segments ?t" "kt_sequence_tracker t' = kt_sequence_tracker ?t"
      and old: "\<And>x. sequenced_key_of x \<notin> sequenced_key_of ` set rs \<Longrightarrow>
          x \<in> set (memtable_rows om t') \<longleftrightarrow> x \<in> set (memtable_rows om ?t)"
      and new: "distinct (map sequenced_key_of rs) \<Longrightarrow>
          (\<forall>x\<in>set rs. re_seq x > seq \<longrightarrow> x \<in> set (memtable_rows om t'))
          \<and> set (memtable_rows om t') \<subseteq> set (memtable_rows om ?t) \<union> {x \<in> set rs. re_seq x > seq}"
      by auto
    note rows = put_inner_rows [OF m, of r]
    have unchanged: "x \<in> set (memtable_rows om t') \<longleftrightarrow> x \<in> set (memtable_rows om t)"
      if "sequenced_key_of x \<notin> sequenced_key_of ` set (r # rs)" for x
      using old [of x] that rows by auto
    have added: "(\<forall>x\<in>set (r # rs). re_seq x > seq \<longrightarrow> x \<in> set (memtable_rows om t'))
          \<and> set (memtable_rows om t') \<subseteq> set (memtable_rows om t) \<union> {x \<in> set (r # rs). re_seq x > seq}"
      if "distinct (map sequenced_key_of (r # rs))"
      using new old [of r] that rows True by auto
    show ?thesis
      by (intro exI [of _ t'] conjI allI impI, unfold step sv [symmetric] same [symmetric])
        (rule t' unchanged conjunct1 [OF added] conjunct2 [OF added], assumption?)+
  qed
qed

lemma filter_after_seq_ok:
  assumes "memtable_ok om valid (imm_table imm)"
    and "\<forall>prefix_len. extractor = Some prefix_len \<longrightarrow>
           (\<forall>r\<in>set (memtable_rows om (imm_table imm)). re_seq r > seq \<longrightarrow>
              (\<exists>n. prefix_len (re_key r) = Some n \<and> 0 < n \<and> n \<le> length (re_key r)))"
  shows "\<exists>imm'. filter_after_seq om seq extractor imm = Inr imm'
    \<and> memtable_ok om valid (imm_table imm')
    \<and> memtable_rows om (imm_table imm') = filter (\<lambda>r. re_seq r > seq) (memtable_rows om (imm_table imm))
    \<and> kt_touched_segments (imm_table imm') = extracted extractor (memtable_rows om (imm_table imm'))
    \<and> imm_replay_after_wal_id imm' = imm_replay_after_wal_id imm"
proof -
  let ?t = "imm_table imm" and ?rows = "memtable_rows om (imm_table imm)"
  let ?kept = "filter (\<lambda>r. re_seq r > seq) ?rows"
  have m: "map_ok (kt_map ?t)" using assms(1) by (simp add: memtable_ok_def)
  note p = kv_table_range_props [OF m, of Unbounded Unbounded Ascending]
  have rows: "mti_rows (kv_table_iter om ?t) = ?rows"
    unfolding kv_table_iter_def p(2) by (simp add: order_rows_def in_bounds_def)
  have strict: "sorted_wrt (\<lambda>a b. sequenced_key_of a < sequenced_key_of b) ?rows" by (rule rows_strict [OF m])
  then have "sorted_wrt (<) (map sequenced_key_of ?rows)" by (simp add: sorted_wrt_map)
  then have dist: "distinct (map sequenced_key_of ?rows)" by (simp add: strict_sorted_iff)
  from filter_rows_ok [OF new_ok(1) assms(2), of "{}"] obtain t' where
    t': "filter_rows seq extractor ?rows (kv_table_new om) {} = Inr (t', extracted extractor ?kept)"
      "memtable_ok om valid t'" "kt_touched_segments t' = {}"
    and sub: "\<forall>r\<in>set ?rows. re_seq r > seq \<longrightarrow> r \<in> set (memtable_rows om t')"
      "set (memtable_rows om t') \<subseteq> {r \<in> set ?rows. re_seq r > seq}"
    using dist by (auto simp: new_ok)
  have m': "map_ok (kt_map t')" using t'(2) by (simp add: memtable_ok_def)
  have kept: "memtable_rows om t' = ?kept"
    by (rule rows_unique [OF m']) (use sub strict in \<open>auto intro: sorted_wrt_filter\<close>)
  let ?imm = "immutable_memtable_new (record_touched_segments (extracted extractor ?kept) t')
      (imm_replay_after_wal_id imm)"
  have "filter_after_seq om seq extractor imm = Inr ?imm"
    using filter_loop_rows [of "kv_table_iter om ?t" seq extractor "kv_table_new om" "{}"] p(1) t'(1) rows
    by (simp add: filter_after_seq_def kv_table_iter_def)
  moreover have "kt_touched_segments (record_touched_segments (extracted extractor ?kept) t') = extracted extractor ?kept"
    using t'(3) by (simp add: record_touched_segments_def)
  moreover have "memtable_rows om (record_touched_segments (extracted extractor ?kept) t') = ?kept"
    "memtable_ok om valid (record_touched_segments (extracted extractor ?kept) t')"
    using kept t'(2) by (simp_all only: record_touched_rows record_touched_ok)
  ultimately show ?thesis by (intro exI [of _ ?imm]) (simp add: immutable_memtable_new_def)
qed

end

interpretation skm: skip_map btree strict_keys ..

text \<open>
  The version that a put or delete overwrites is invisible to a merging read that drops the
  versions below a value.
\<close>

lemma dedup_rows_overwritten:
  assumes "\<not> is_merge (re_value row)" "re_key older = re_key row"
  shows "dedup_rows (A @ row # older # B) = dedup_rows (A @ row # B)"
proof (induction A rule: length_induct)
  case (1 A)
  show ?case
  proof (cases A)
    case Nil
    with assms show ?thesis by simp
  next
    case (Cons x A')
    define D where "D = dropWhile (\<lambda>y. re_key y = re_key x) A'"
    have "dedup_rows (A' @ row # older # B) = dedup_rows (A' @ row # B)"
      using 1 [rule_format, of A'] Cons by simp
    moreover have "dedup_rows (dropWhile (\<lambda>y. re_key y = re_key x) (A' @ row # older # B))
        = dedup_rows (dropWhile (\<lambda>y. re_key y = re_key x) (A' @ row # B))"
    proof (cases "\<forall>y\<in>set A'. re_key y = re_key x")
      case True
      have same: "dropWhile (\<lambda>y. re_key y = re_key x) (A' @ zs) = dropWhile (\<lambda>y. re_key y = re_key x) zs" for zs
        using True by (simp add: dropWhile_append)
      show ?thesis unfolding same using assms by simp
    next
      case False
      then have split: "dropWhile (\<lambda>y. re_key y = re_key x) (A' @ zs) = D @ zs" for zs
        by (auto simp: dropWhile_append D_def)
      have "length D < length A"
        using Cons length_dropWhile_le [of "\<lambda>y. re_key y = re_key x" A'] by (simp add: D_def)
      from 1 [rule_format, OF this] show ?thesis unfolding split .
    qed
    ultimately show ?thesis using Cons by simp
  qed
qed

text \<open>The states a table goes through: the writes of the batch writer and of the replay.\<close>

inductive memtable_built :: "'m skip_map \<Rightarrow> ('d \<Rightarrow> i64) \<Rightarrow> 'm kv_table \<Rightarrow> bool"
  for om and timestamp where
  new: "memtable_built om timestamp (kv_table_new om)"
| put: "memtable_built om timestamp t \<Longrightarrow> memtable_built om timestamp (kv_table_put om row t)"
| prune: "memtable_built om timestamp t \<Longrightarrow> memtable_built om timestamp (put_and_prune_overwritten om row t)"
| touch: "memtable_built om timestamp t \<Longrightarrow> memtable_built om timestamp (record_touched_segments ps t)"
| durable: "memtable_built om timestamp t \<Longrightarrow> memtable_built om timestamp (notify_durable r t)"
| sequence: "memtable_built om timestamp t \<Longrightarrow> record_sequence timestamp seq ts t = Inr t' \<Longrightarrow>
    memtable_built om timestamp t'"

context skip_map
begin

lemma prune_ok: "memtable_ok om valid t \<Longrightarrow> memtable_ok om valid (put_and_prune_overwritten om row t)"
  by (rule prune_cases [of t row]) (auto simp: put_inner_ok)

lemma memtable_ok_frame:
  "memtable_ok om valid (notify_durable r t) \<longleftrightarrow> memtable_ok om valid t"
  "memtable_ok om valid (t\<lparr>kt_sequence_tracker := tr\<rparr>) \<longleftrightarrow> memtable_ok om valid t"
  by (simp_all add: memtable_ok_def memtable_rows_def notify_durable_def)

lemma built_ok: "memtable_built om timestamp t \<Longrightarrow> memtable_ok om valid t"
proof (induction rule: memtable_built.induct)
  case (sequence t seq ts t')
  then show ?case
    by (auto simp: record_sequence_def memtable_ok_frame result_simps)
qed (simp_all add: new_ok kv_table_put_def put_inner_ok prune_ok record_touched_ok memtable_ok_frame)

end

text \<open>
  C19: In every state a memtable goes through, \<open>entries_size_in_bytes\<close> is the sum of the estimated
  sizes of its rows (modulo the word size), whatever was replaced or pruned on the way, and
  \<open>first_seq\<close>, \<open>last_seq\<close> and \<open>last_tick\<close> bound the sequence numbers and creation times of all rows.
\<close>
theorem memtable_accounting:
  assumes "skip_map om valid" "memtable_built om timestamp t"
  shows "kt_entries_size t = of_nat (\<Sum>r\<leftarrow>memtable_rows om t. estimated_size r)
    \<and> (\<forall>r\<in>set (memtable_rows om t). kt_first_seq t \<le> re_seq r \<and> re_seq r \<le> kt_last_seq t
          \<and> (\<forall>c. re_create_ts r = Some c \<longrightarrow> sint c \<le> sint (kt_last_tick t)))"
  using skip_map.built_ok [OF assms] by (simp add: memtable_ok_def)

definition sample_row :: "bytes \<Rightarrow> value_deletable \<Rightarrow> u64 \<Rightarrow> row_entry" where
  "sample_row k v seq = \<lparr>re_key = k, re_value = v, re_seq = seq, re_create_ts = Some seq, re_expire_ts = None\<rparr>"

definition sample_table :: "(sequenced_key \<times> row_entry) list kv_table" where
  "sample_table =
     kv_table_put btree (sample_row [2] Tombstone 6) (put_and_prune_overwritten btree (sample_row [1] (Value [8]) 5)
       (kv_table_put btree (sample_row [1] (Value [7]) 3) (kv_table_new btree)))"

lemma sample_table_built: "memtable_built btree timestamp sample_table"
  unfolding sample_table_def by (intro memtable_built.intros)

lemma sample_table_rows:
  "memtable_rows btree sample_table = [sample_row [1] (Value [8]) 5, sample_row [2] Tombstone 6]"
  by (simp add: sample_table_def kv_table_put_def put_inner_def put_and_prune_overwritten_def
      kv_table_new_def memtable_rows_def sequenced_key_of_def sample_row_def btree_def om_get_def
      entry_next_def om_range_def entries_range_def in_bounds_def range_next_def less_sequenced_key_def
      btree_remove_def)

text \<open>
  Witness of C19: a table in which the put at 5 pruned the version at 3.
\<close>
theorem memtable_accounting_witness:
  "memtable_built btree id sample_table \<and> kt_entries_size sample_table = 35
    \<and> kt_entries_size sample_table = of_nat (\<Sum>r\<leftarrow>memtable_rows btree sample_table. estimated_size r)"
  using memtable_accounting [OF skm.skip_map_axioms sample_table_built [of id]] sample_table_built [of id]
  by (simp add: sample_table_rows sample_row_def estimated_size_def opt_size_def)

text \<open>
  C17: A memtable iterator over a key range returns exactly the rows of the table whose keys are in
  the range, in the requested order of keys and with the newest version of each key first, whatever
  the direction.
\<close>
theorem memtable_range_rows:
  assumes "skip_map om valid" "memtable_built om timestamp t"
  shows "\<exists>out. yields mem_table_next (kv_table_range om t s e order) out
    \<and> sorted_wrt (row_le order) out
    \<and> mset out = mset (filter (\<lambda>r. in_bounds s e (re_key r)) (memtable_rows om t))"
  by (rule skip_map.range_yields [OF assms(1) skip_map.built_ok [OF assms]])

text \<open>
  Witness of C17: a descending scan of the sample table.
\<close>
theorem memtable_range_rows_witness:
  "\<exists>out. yields mem_table_next (kv_table_range btree sample_table (Included [1]) Unbounded Descending) out
    \<and> mset out = {#sample_row [1] (Value [8]) 5, sample_row [2] Tombstone 6#}"
proof -
  from memtable_range_rows [OF skm.skip_map_axioms sample_table_built [of id]] obtain out where
    "yields mem_table_next (kv_table_range btree sample_table (Included [1]) Unbounded Descending) out"
    "mset out = mset (filter (\<lambda>r. in_bounds (Included [1]) Unbounded (re_key r)) (memtable_rows btree sample_table))"
    by blast
  then show ?thesis by (auto simp: sample_table_rows sample_row_def in_bounds_def)
qed



lemma prune_reads:
  assumes "skip_map om valid" "memtable_ok om valid t" "re_seq row \<le> s"
  shows "dedup_rows (filter (\<lambda>r. re_seq r \<le> s) (memtable_rows om (put_and_prune_overwritten om row t)))
    = dedup_rows (filter (\<lambda>r. re_seq r \<le> s) (memtable_rows om (kv_table_put om row t)))"
  by (rule skip_map.prune_cases [OF assms(1,2), of row])
    (use assms(3) in \<open>auto simp: kv_table_put_def dedup_rows_overwritten\<close>)

text \<open>
  C18: Pruning the version that a put or a delete overwrites is invisible: every reader whose
  snapshot is at or after the written row sees, after the merging iterator has dropped the versions
  below a value, exactly the rows it sees after a plain \<open>put\<close>.
\<close>
theorem memtable_prune_invisible:
  assumes "skip_map om valid" "memtable_built om timestamp t" "re_seq row \<le> s"
  shows "dedup_rows (filter (\<lambda>r. re_seq r \<le> s) (memtable_rows om (put_and_prune_overwritten om row t)))
    = dedup_rows (filter (\<lambda>r. re_seq r \<le> s) (memtable_rows om (kv_table_put om row t)))"
  by (rule prune_reads [OF assms(1) skip_map.built_ok [OF assms(1,2)] assms(3)])

text \<open>
  Witness of C18: a delete over the sample table prunes the value at 5.
\<close>
theorem memtable_prune_invisible_witness:
  "dedup_rows (filter (\<lambda>r. re_seq r \<le> 9)
       (memtable_rows btree (put_and_prune_overwritten btree (sample_row [1] Tombstone 9) sample_table)))
    = dedup_rows (filter (\<lambda>r. re_seq r \<le> 9)
       (memtable_rows btree (kv_table_put btree (sample_row [1] Tombstone 9) sample_table)))
   \<and> re_seq (sample_row [1] Tombstone 9) \<le> 9"
proof -
  have le: "re_seq (sample_row [1] Tombstone 9) \<le> 9" by (simp add: sample_row_def)
  from memtable_prune_invisible [OF skm.skip_map_axioms sample_table_built [of id] le] le show ?thesis ..
qed

text \<open>
  C21: Filtering a frozen memtable keeps exactly the rows written after \<open>seq\<close>, in their order, and
  rebuilds the touched segments from the prefixes of the rows kept; the WAL position is unchanged.
\<close>
theorem filter_after_seq_exact:
  assumes "skip_map om valid" "memtable_built om timestamp (imm_table imm)"
    and "\<forall>r\<in>set (memtable_rows om (imm_table imm)). re_seq r > seq \<longrightarrow>
           (\<exists>n. prefix_len (re_key r) = Some n \<and> 0 < n \<and> n \<le> length (re_key r))"
  shows "\<exists>imm'. filter_after_seq om seq (Some prefix_len) imm = Inr imm'
    \<and> memtable_rows om (imm_table imm') = filter (\<lambda>r. re_seq r > seq) (memtable_rows om (imm_table imm))
    \<and> kt_touched_segments (imm_table imm')
        = (\<lambda>r. take (the (prefix_len (re_key r))) (re_key r)) ` set (memtable_rows om (imm_table imm'))
    \<and> imm_replay_after_wal_id imm' = imm_replay_after_wal_id imm"
  using skip_map.filter_after_seq_ok [OF assms(1) skip_map.built_ok [OF assms(1,2)], of "Some prefix_len" seq]
    assms(3)
  by (auto simp: skip_map.extracted_def [OF assms(1)])

text \<open>
  Witness of C21: one row of the sample table is newer than 5.
\<close>
theorem filter_after_seq_exact_witness:
  "\<exists>imm'. filter_after_seq btree 5 (Some (\<lambda>k. Some 1)) (immutable_memtable_new sample_table 4) = Inr imm'
    \<and> memtable_rows btree (imm_table imm') = [sample_row [2] Tombstone 6]"
  using filter_after_seq_exact [OF skm.skip_map_axioms, of id "immutable_memtable_new sample_table 4" 5 "\<lambda>k. Some 1"]
    sample_table_built [of id]
  by (auto simp: immutable_memtable_new_def sample_table_rows sample_row_def)

subsection \<open>Segments form an antichain\<close>

definition antichain :: "bytes set \<Rightarrow> bool" where
  "antichain S \<longleftrightarrow> (\<forall>p\<in>S. \<forall>q\<in>S. prefix p q \<longrightarrow> p = q)"

lemma only_successor_nests:
  assumes "finite S" "antichain S" "q \<in> S" "p < q" "prefix p q"
  shows "prefix p (Min (Set.filter (\<lambda>q. p < q) S))"
proof -
  let ?A = "Set.filter (\<lambda>q. p < q) S"
  have fin: "finite ?A" "q \<in> ?A" using assms by auto
  then have "Min ?A \<le> q" "Min ?A \<in> ?A" using Min_le [of ?A q] Min_in [of ?A] by blast+
  with assms(5) show ?thesis by (auto intro: prefix_between [of p _ q])
qed

lemma only_predecessor_nests:
  assumes "finite S" "antichain S" "q \<in> S" "q \<le> p" "prefix q p"
  shows "q = Max (Set.filter (\<lambda>q. q \<le> p) S)"
proof -
  let ?A = "Set.filter (\<lambda>q. q \<le> p) S"
  have fin: "finite ?A" "q \<in> ?A" using assms by auto
  then have m: "q \<le> Max ?A" "Max ?A \<in> ?A" using Max_ge [of ?A q] Max_in [of ?A] by blast+
  then have "prefix q (Max ?A)" using assms(5) by (auto intro: prefix_between [of q _ p])
  with m assms(2,3) show ?thesis by (auto simp: antichain_def)
qed

text \<open>
  C22: Checking a prefix against its two neighbours decides nesting with every touched segment:
  \<open>Ok(true)\<close> means the prefix is a member, \<open>Ok(false)\<close> that it may be added (the segments stay an
  antichain), and an error names a touched segment that nests with it.
\<close>
theorem ensure_valid_segment_sound:
  assumes "finite (kt_touched_segments t)" "antichain (kt_touched_segments t)"
  shows "case ensure_valid_segment p t of
      Inr True \<Rightarrow> p \<in> kt_touched_segments t
    | Inr False \<Rightarrow> p \<notin> kt_touched_segments t \<and> antichain (kt_touched_segments (record_touched_segments {p} t))
    | Inl e \<Rightarrow> \<exists>q\<in>kt_touched_segments t. e = InvalidSegmentPrefix p q \<and> p \<noteq> q \<and> (prefix p q \<or> prefix q p)"
proof -
  let ?S = "kt_touched_segments t"
  let ?A = "Set.filter (\<lambda>q. p < q) ?S" and ?B = "Set.filter (\<lambda>q. q \<le> p) ?S"
  have fin: "finite ?A" "finite ?B" using assms(1) by auto
  have minA: "?A \<noteq> {} \<Longrightarrow> Min ?A \<in> ?S \<and> p < Min ?A" using Min_in [OF fin(1)] by auto
  have maxB: "?B \<noteq> {} \<Longrightarrow> Max ?B \<in> ?S \<and> Max ?B \<le> p" using Max_in [OF fin(2)] by auto
  have inB: "p \<in> ?S \<Longrightarrow> ?B \<noteq> {} \<and> Max ?B = p"
    using only_predecessor_nests [OF assms, of p p] by auto
  have add: "antichain (kt_touched_segments (record_touched_segments {p} t))"
    if "\<not> (?A \<noteq> {} \<and> prefix p (Min ?A))" "?B = {} \<or> \<not> prefix (Max ?B) p"
  proof -
    have "\<not> prefix p q \<and> \<not> prefix q p" if q: "q \<in> ?S" for q
    proof (cases "p < q")
      case True
      then have "q \<in> ?A" using q by simp
      moreover have "\<not> prefix q p" using prefix_imp_le [of q p] True by auto
      ultimately show ?thesis
        using only_successor_nests [OF assms q True] \<open>\<not> (?A \<noteq> {} \<and> prefix p (Min ?A))\<close> by blast
    next
      case False
      then have "q \<in> ?B" using q by simp
      moreover from this have "\<not> prefix q p"
        using only_predecessor_nests [OF assms q] \<open>?B = {} \<or> \<not> prefix (Max ?B) p\<close> by auto
      moreover have "\<not> prefix p q"
        using prefix_imp_le [of p q] False \<open>\<not> prefix q p\<close> by (auto simp: not_less dest: order_antisym)
      ultimately show ?thesis by blast
    qed
    then have "antichain (insert p ?S)" using assms(2) by (auto simp: antichain_def)
    then show ?thesis by (auto simp: record_touched_segments_def)
  qed
  have succ: "case (if ?A \<noteq> {} \<and> prefix p (Min ?A) then Inl (InvalidSegmentPrefix p (Min ?A)) else Inr False) of
      Inr b \<Rightarrow> \<not> b \<and> p \<notin> ?S \<and> antichain (kt_touched_segments (record_touched_segments {p} t))
    | Inl e \<Rightarrow> \<exists>q\<in>?S. e = InvalidSegmentPrefix p q \<and> p \<noteq> q \<and> (prefix p q \<or> prefix q p)"
    if "?B = {} \<or> \<not> prefix (Max ?B) p"
  proof (cases "?A \<noteq> {} \<and> prefix p (Min ?A)")
    case True
    then have "Min ?A \<in> ?S" "p < Min ?A" using minA by blast+
    then have "p \<noteq> Min ?A" "Min ?A \<in> ?S" by (metis less_irrefl)+
    with True show ?thesis by (simp only: if_True sum.case simp_thms) blast
  next
    case False
    have "p \<notin> ?S" using inB that by auto
    with False add [OF False that] show ?thesis by (simp only: if_False sum.case simp_thms)
  qed
  show ?thesis
  proof (cases "?B = {} \<or> \<not> prefix (Max ?B) p")
    case True
    then have eq: "ensure_valid_segment p t
        = (if ?A \<noteq> {} \<and> prefix p (Min ?A) then Inl (InvalidSegmentPrefix p (Min ?A)) else Inr False)"
      by (auto simp: ensure_valid_segment_def Let_def)
    from succ [OF True, folded eq] show ?thesis by (cases "ensure_valid_segment p t") auto
  next
    case False
    then have "ensure_valid_segment p t
        = (if Max ?B = p then Inr True else Inl (InvalidSegmentPrefix p (Max ?B)))"
      by (auto simp: ensure_valid_segment_def Let_def)
    with False maxB show ?thesis by auto
  qed
qed

definition segmented_table :: "(sequenced_key \<times> row_entry) list kv_table" where
  "segmented_table = record_touched_segments {[1], [2, 3]} (kv_table_new btree)"

lemma segmented_table_touched: "kt_touched_segments segmented_table = {[1], [2, 3]}"
  by (simp add: segmented_table_def record_touched_segments_def kv_table_new_def)

text \<open>
  Witness of C22: the prefix \<open>[2]\<close> nests with the touched segment \<open>[2, 3]\<close> only, so it is refused.
\<close>
theorem ensure_valid_segment_sound_witness:
  "antichain (kt_touched_segments segmented_table)
    \<and> ensure_valid_segment [2] segmented_table = Inl (InvalidSegmentPrefix [2] [2, 3])"
proof -
  have anti: "antichain (kt_touched_segments segmented_table)"
    and fin: "finite (kt_touched_segments segmented_table)"
    by (auto simp: segmented_table_touched antichain_def)
  from ensure_valid_segment_sound [OF fin anti, of "[2]"] anti show ?thesis
    by (auto simp: segmented_table_touched antichain_def record_touched_segments_def
        split: sum.splits bool.splits)
qed

end
