(* ===== verification/ReadIterators.thy ===== *)
theory ReadIterators
  imports MergeIterator
begin

section \<open>Iterators built from iterators: \<open>filter_iterator.rs\<close>, \<open>iter.rs\<close>, \<open>merge_iterator.rs\<close>\<close>

text \<open>
  The read path stacks iterators: filters over leaves, merges over filters, merges over boxes.
  Each combinator takes the \<open>init\<close>, \<open>next\<close> and \<open>seek\<close> of what it wraps as arguments. For each of them
  it is shown that a wrapped source that satisfies the contract \<open>row_source\<close> gives a source that
  satisfies it again, with the rows the combinator is meant to return.
\<close>

subsection \<open>The empty iterator and boxes\<close>

datatype empty_iterator = EmptyIterator

definition empty_init :: "empty_iterator \<Rightarrow> empty_iterator result" where
  "empty_init it = Inr it"

definition empty_next :: "empty_iterator \<Rightarrow> (row_entry option \<times> empty_iterator) result" where
  "empty_next it = Inr (None, it)"

definition empty_seek :: "empty_iterator \<Rightarrow> bytes \<Rightarrow> empty_iterator result" where
  "empty_seek it next_key = Inr it"

interpretation emp: row_source "\<lambda>_. True" "\<lambda>_. []" empty_next empty_seek ord' "\<lambda>_ _. True" empty_init
    "\<lambda>_. True" "\<lambda>_. []"
  by unfold_locales (simp_all add: empty_next_def empty_seek_def empty_init_def)

text \<open>
  A box holds one of several kinds of iterator and dispatches the call; two kinds are a sum, more
  kinds are nested sums.
\<close>

fun box_init :: "('a \<Rightarrow> 'a result) \<Rightarrow> ('b \<Rightarrow> 'b result) \<Rightarrow> 'a + 'b \<Rightarrow> ('a + 'b) result" where
  "box_init f g (Inl a) = bind_result (f a) (\<lambda>a. Inr (Inl a))"
| "box_init f g (Inr b) = bind_result (g b) (\<lambda>b. Inr (Inr b))"

fun box_next :: "'a next_fn \<Rightarrow> 'b next_fn \<Rightarrow> ('a + 'b) next_fn" where
  "box_next f g (Inl a) = bind_result (f a) (\<lambda>(r, a). Inr (r, Inl a))"
| "box_next f g (Inr b) = bind_result (g b) (\<lambda>(r, b). Inr (r, Inr b))"

fun box_seek :: "'a seek_fn \<Rightarrow> 'b seek_fn \<Rightarrow> ('a + 'b) seek_fn" where
  "box_seek f g (Inl a) k = bind_result (f a k) (\<lambda>a. Inr (Inl a))"
| "box_seek f g (Inr b) k = bind_result (g b k) (\<lambda>b. Inr (Inr b))"

lemma box_source:
  assumes "row_source I rows nxt seek ord' behind init ready srows"
    and "row_source J rows' nxt' seek' ord' behind' init' ready' srows'"
  shows "row_source (case_sum I J) (case_sum rows rows') (box_next nxt nxt') (box_seek seek seek') ord'
    (case_sum behind behind') (box_init init init') (case_sum ready ready') (case_sum srows srows')"
proof -
  note a = row_source.axioms(1) [OF assms(1)] and b = row_source.axioms(1) [OF assms(2)]
  note ra = forward_iterator.axioms(1) [OF a] and rb = forward_iterator.axioms(1) [OF b]
  show ?thesis
  proof unfold_locales
    fix s assume I: "case_sum I J s"
    show "\<exists>s'. box_next nxt nxt' s = Inr (None, s') \<and> case_sum I J s' \<and> case_sum rows rows' s' = []"
      if "case_sum rows rows' s = []"
      using I that row_iterator.next_end [OF ra] row_iterator.next_end [OF rb] by (cases s) force+
    show "\<exists>s'. box_next nxt nxt' s = Inr (Some x, s') \<and> case_sum I J s' \<and> case_sum rows rows' s' = xs"
      if "case_sum rows rows' s = x # xs" for x xs
      using I that row_iterator.next_row [OF ra] row_iterator.next_row [OF rb] by (cases s) force+
    show "sorted_wrt (row_le ord') (case_sum rows rows' s)"
      using I forward_iterator.rows_sorted [OF a] forward_iterator.rows_sorted [OF b] by (cases s) auto
    show "case_sum behind behind' s' k"
      if "case_sum rows rows' s = x # xs" "box_next nxt nxt' s = Inr (Some x, s')" "precedes ord' (re_key x) k"
      for x xs s' k
      using I that forward_iterator.next_behind [OF a] forward_iterator.next_behind [OF b]
      by (cases s) (auto simp: result_simps)
    show "\<exists>s'. box_seek seek seek' s k = Inr s' \<and> case_sum I J s'
        \<and> case_sum rows rows' s' = dropWhile (\<lambda>e. precedes ord' (re_key e) k) (case_sum rows rows' s)"
      if "ord' = Ascending" "case_sum behind behind' s k" for k
      using I that forward_iterator.seek_forward [OF a] forward_iterator.seek_forward [OF b]
      by (cases s) force+
  next
    fix s assume "case_sum ready ready' s"
    then show "\<exists>s'. box_init init init' s = Inr s' \<and> case_sum I J s' \<and> case_sum rows rows' s' = case_sum srows srows' s"
      using row_source.init_ready [OF assms(1)] row_source.init_ready [OF assms(2)] by (cases s) force+
  qed
qed

subsection \<open>The filtering iterator\<close>

record 's filter_iterator =
  fi_iterator :: 's
  fi_predicate :: "row_entry \<Rightarrow> bool"

definition filter_iterator_new :: "'s \<Rightarrow> (row_entry \<Rightarrow> bool) \<Rightarrow> 's filter_iterator" where
  "filter_iterator_new iterator predicate = \<lparr>fi_iterator = iterator, fi_predicate = predicate\<rparr>"

definition new_with_max_seq :: "'s \<Rightarrow> u64 option \<Rightarrow> 's filter_iterator" where
  "new_with_max_seq iterator max_seq =
     (case max_seq of
        Some max_seq \<Rightarrow> filter_iterator_new iterator (\<lambda>entry. re_seq entry \<le> max_seq)
      | None \<Rightarrow> filter_iterator_new iterator (\<lambda>_. True))"

definition filter_init :: "('s \<Rightarrow> 's result) \<Rightarrow> 's filter_iterator \<Rightarrow> 's filter_iterator result" where
  "filter_init init it = bind_result (init (fi_iterator it)) (\<lambda>s. Inr (it\<lparr>fi_iterator := s\<rparr>))"

partial_function (option) filter_loop ::
    "'s next_fn \<Rightarrow> (row_entry \<Rightarrow> bool) \<Rightarrow> 's \<Rightarrow> (row_entry option \<times> 's) result option" where
  "filter_loop nxt predicate s =
     (case nxt s of
        Inl e \<Rightarrow> Some (Inl e)
      | Inr (None, s) \<Rightarrow> Some (Inr (None, s))
      | Inr (Some entry, s) \<Rightarrow>
          if predicate entry then Some (Inr (Some entry, s)) else filter_loop nxt predicate s)"

definition filter_next :: "'s next_fn \<Rightarrow> 's filter_iterator next_fn" where
  "filter_next nxt it =
     (case filter_loop nxt (fi_predicate it) (fi_iterator it) of
        None \<Rightarrow> Inl NonTermination
      | Some r \<Rightarrow> bind_result r (\<lambda>(entry, s). Inr (entry, it\<lparr>fi_iterator := s\<rparr>)))"

definition filter_seek :: "'s seek_fn \<Rightarrow> 's filter_iterator seek_fn" where
  "filter_seek seek it next_key =
     bind_result (seek (fi_iterator it) next_key) (\<lambda>s. Inr (it\<lparr>fi_iterator := s\<rparr>))"

definition filtered_rows :: "('s \<Rightarrow> row_entry list) \<Rightarrow> 's filter_iterator \<Rightarrow> row_entry list" where
  "filtered_rows rows it = filter (fi_predicate it) (rows (fi_iterator it))"

context forward_iterator
begin

lemma filter_loop_rows:
  assumes "inv s"
  shows "\<exists>r s'. filter_loop nxt P s = Some (Inr (r, s')) \<and> inv s'
    \<and> (case r of None \<Rightarrow> filter P (rows s) = [] \<and> filter P (rows s') = []
       | Some x \<Rightarrow> filter P (rows s) = x # filter P (rows s')
           \<and> (\<forall>k. precedes ord' (re_key x) k \<longrightarrow> behind s' k))"
  using assms
proof (induction "rows s" arbitrary: s)
  case Nil
  with next_end [of s] obtain s' where "nxt s = Inr (None, s')" "inv s'" "rows s' = []" by auto
  then show ?case using Nil.hyps by (subst filter_loop.simps) auto
next
  case (Cons x xs)
  from next_row [OF Cons.prems Cons.hyps(2) [symmetric]] obtain s' where
    s': "nxt s = Inr (Some x, s')" "inv s'" "rows s' = xs" by blast
  show ?case
  proof (cases "P x")
    case True
    have "behind s' k" if "precedes ord' (re_key x) k" for k
      by (rule next_behind [OF Cons.prems Cons.hyps(2) [symmetric] s'(1) that])
    with True s' show ?thesis
      by (subst filter_loop.simps) (simp add: Cons.hyps(2) [symmetric])
  next
    case False
    then have eqs: "filter_loop nxt P s = filter_loop nxt P s'" "filter P (rows s) = filter P (rows s')"
      using s' by (subst filter_loop.simps, simp, simp add: Cons.hyps(2) [symmetric])
    show ?thesis unfolding eqs by (rule Cons.hyps(1) [OF s'(3) [symmetric] s'(2)])
  qed
qed

lemma filter_next_rows:
  assumes "inv (fi_iterator it)"
  shows "\<exists>r it'. filter_next nxt it = Inr (r, it') \<and> inv (fi_iterator it') \<and> fi_predicate it' = fi_predicate it
    \<and> (case r of None \<Rightarrow> filtered_rows rows it = [] \<and> filtered_rows rows it' = []
       | Some x \<Rightarrow> filtered_rows rows it = x # filtered_rows rows it'
           \<and> (\<forall>k. precedes ord' (re_key x) k \<longrightarrow> behind (fi_iterator it') k))"
proof -
  from filter_loop_rows [OF assms, of "fi_predicate it"] obtain r s' where
    r: "filter_loop nxt (fi_predicate it) (fi_iterator it) = Some (Inr (r, s'))" "inv s'"
      "case r of None \<Rightarrow> filter (fi_predicate it) (rows (fi_iterator it)) = [] \<and> filter (fi_predicate it) (rows s') = []
       | Some x \<Rightarrow> filter (fi_predicate it) (rows (fi_iterator it)) = x # filter (fi_predicate it) (rows s')
           \<and> (\<forall>k. precedes ord' (re_key x) k \<longrightarrow> behind s' k)" by blast
  then show ?thesis
    by (intro exI [of _ r] exI [of _ "it\<lparr>fi_iterator := s'\<rparr>"])
      (simp add: filter_next_def filtered_rows_def split: option.splits)
qed

lemma filter_forward:
  "forward_iterator (\<lambda>it :: 's filter_iterator. inv (fi_iterator it)) (filtered_rows rows) (filter_next nxt) (filter_seek seek) ord'
     (\<lambda>it. behind (fi_iterator it))"
proof
  fix it :: "'s filter_iterator" assume I: "inv (fi_iterator it)"
  note f = filter_next_rows [OF I]
  show "\<exists>it'. filter_next nxt it = Inr (None, it') \<and> inv (fi_iterator it') \<and> filtered_rows rows it' = []"
    if "filtered_rows rows it = []"
    using f that by (auto split: option.splits)
  show "\<exists>it'. filter_next nxt it = Inr (Some x, it') \<and> inv (fi_iterator it') \<and> filtered_rows rows it' = xs"
    if "filtered_rows rows it = x # xs" for x xs
    using f that by (auto split: option.splits)
  show "behind (fi_iterator it') k"
    if "filter_next nxt it = Inr (Some x, it')" "precedes ord' (re_key x) k" for x it' k
    using f that by (auto split: option.splits)
  have sorted: "sorted_wrt (row_le ord') (rows (fi_iterator it))" by (rule rows_sorted [OF I])
  then show sorted': "sorted_wrt (row_le ord') (filtered_rows rows it)"
    by (simp add: filtered_rows_def sorted_wrt_filter)
  show "\<exists>it'. filter_seek seek it k = Inr it' \<and> inv (fi_iterator it')
      \<and> filtered_rows rows it' = dropWhile (\<lambda>e. precedes ord' (re_key e) k) (filtered_rows rows it)"
    if "ord' = Ascending" "behind (fi_iterator it) k" for k
  proof -
    from seek_forward [OF that(1) I that(2)] obtain s' where s': "seek (fi_iterator it) k = Inr s'" "inv s'"
      "rows s' = dropWhile (\<lambda>e. precedes ord' (re_key e) k) (rows (fi_iterator it))" by blast
    then show ?thesis
      unfolding sorted_dropWhile_filter [OF sorted'] sorted_dropWhile_filter [OF sorted]
      by (intro exI [of _ "it\<lparr>fi_iterator := s'\<rparr>"])
        (simp add: filter_seek_def filtered_rows_def conj_commute)
  qed
qed

end

lemma filter_source:
  fixes I :: "'s \<Rightarrow> bool"
  assumes "row_source I rows nxt seek ord' behind init ready srows"
  shows "row_source (\<lambda>it :: 's filter_iterator. I (fi_iterator it)) (filtered_rows rows) (filter_next nxt) (filter_seek seek) ord'
    (\<lambda>it. behind (fi_iterator it)) (filter_init init) (\<lambda>it. ready (fi_iterator it)) (filtered_rows srows)"
proof (rule row_source.intro [OF forward_iterator.filter_forward [OF row_source.axioms(1) [OF assms]]], unfold_locales)
  fix it :: "'s filter_iterator" assume "ready (fi_iterator it)"
  from row_source.init_ready [OF assms this] obtain s' where
    "init (fi_iterator it) = Inr s'" "I s'" "rows s' = srows (fi_iterator it)" by blast
  then show "\<exists>it'. filter_init init it = Inr it' \<and> I (fi_iterator it') \<and> filtered_rows rows it' = filtered_rows srows it"
    by (simp add: filter_init_def filtered_rows_def)
qed

subsection \<open>The merging iterator as a source\<close>

lemma dedup_rows_subset: "set (dedup_rows xs) \<subseteq> set xs"
proof (induction xs rule: dedup_rows.induct)
  case (2 x xs)
  then show ?case by (auto dest: set_dropWhileD split: if_splits)
qed simp

lemma dedup_rows_sorted: "sorted_wrt R xs \<Longrightarrow> sorted_wrt R (dedup_rows xs)"
proof (induction xs rule: dedup_rows.induct)
  case (2 x xs)
  let ?r = "if is_merge (re_value x) then xs else dropWhile (\<lambda>y. re_key y = re_key x) xs"
  have sub: "set ?r \<subseteq> set xs" by (auto dest: set_dropWhileD)
  have "sorted_wrt R ?r" using 2(2) by (auto intro: sorted_wrt_dropWhile)
  then have "sorted_wrt R (dedup_rows ?r)" by (rule 2(1))
  moreover have "\<forall>y\<in>set (dedup_rows ?r). R x y"
    using 2(2) sub dedup_rows_subset [of ?r] by (simp only: sorted_wrt.simps) blast
  ultimately show ?case by (simp only: dedup_rows.simps sorted_wrt.simps simp_thms)
qed simp

lemma distinct_rows_dropWhile: "distinct_rows xs \<Longrightarrow> distinct_rows (dropWhile P xs)"
  by (induction xs) auto

lemma dedup_rows_filter_key:
  assumes "\<And>a b. re_key a = re_key b \<Longrightarrow> P a = P b" "sorted_wrt (row_le ord') xs"
  shows "dedup_rows (filter P xs) = filter P (dedup_rows xs)"
  using assms(2)
proof (induction xs rule: dedup_rows.induct)
  case (2 x xs)
  define r where "r = (if is_merge (re_value x) then xs else dropWhile (\<lambda>y. re_key y = re_key x) xs)"
  have sorted_r: "sorted_wrt (row_le ord') r" using 2(2) by (auto simp: r_def intro: sorted_wrt_dropWhile)
  have IH: "dedup_rows (filter P r) = filter P (dedup_rows r)" using 2(1) sorted_r by (simp add: r_def)
  have r_eq: "r = (if is_merge (re_value x) then xs else filter (\<lambda>y. re_key y \<noteq> re_key x) xs)"
    using 2(2) sorted_dropWhile_key [of ord' xs x] by (simp add: r_def)
  show ?case
  proof (cases "P x")
    case True
    have "(if is_merge (re_value x) then filter P xs else dropWhile (\<lambda>y. re_key y = re_key x) (filter P xs)) = filter P r"
      using 2(2) sorted_dropWhile_key [of ord' "filter P xs" x]
      by (simp add: r_eq sorted_wrt_filter conj_commute)
    with True IH show ?thesis by (simp add: r_def [symmetric])
  next
    case False
    have "\<not> P y" if "re_key y = re_key x" for y using assms(1) [OF that] False by blast
    then have "filter P r = filter P xs" unfolding r_eq by (auto intro!: filter_cong)
    with False IH show ?thesis by (simp add: r_def [symmetric])
  qed
qed simp

context merge_sources
begin

definition all_rows :: "'s merge_iterator \<Rightarrow> row_entry list" where
  "all_rows it = (THE out. yields (merge_advance pop nxt) it out)"

definition merge_rows :: "'s merge_iterator \<Rightarrow> row_entry list" where
  "merge_rows it = (if mi_dedup it then dedup_rows (all_rows it) else all_rows it)"

definition merge_inv :: "'s merge_iterator \<Rightarrow> bool" where
  "merge_inv it \<longleftrightarrow> merge_ok it \<and> distinct_rows (all_rows it)"

lemma all_rows_eq: "yields (merge_advance pop nxt) it out \<Longrightarrow> all_rows it = out"
  unfolding all_rows_def by (blast intro: yields_unique)

lemma all_rows_props:
  assumes "merge_ok it"
  shows "yields (merge_advance pop nxt) it (all_rows it)" "sorted_wrt (row_le ord') (all_rows it)"
    "mset (all_rows it) = heap_rows (merge_entries it)"
proof -
  from advance_yields [OF assms] obtain out where out: "yields (merge_advance pop nxt) it out"
    "sorted_wrt (row_le ord') out" "mset out = heap_rows (merge_entries it)" by blast
  with all_rows_eq [OF out(1)] show "yields (merge_advance pop nxt) it (all_rows it)"
    "sorted_wrt (row_le ord') (all_rows it)" "mset (all_rows it) = heap_rows (merge_entries it)" by simp_all
qed

lemma all_rows_sort:
  "merge_ok it \<Longrightarrow> heap_rows (merge_entries it) = mset rs \<Longrightarrow> distinct_rows rs \<Longrightarrow> all_rows it = sort_rows ord' rs"
  by (rule sort_rows_eq) (simp_all add: all_rows_props)

lemma merge_next_end:
  assumes "merge_inv it" "merge_rows it = []"
  shows "merge_next pop nxt it = Inr (None, it)"
proof -
  from assms have ok: "merge_ok it" by (simp add: merge_inv_def)
  have "all_rows it = []"
    using assms(2) by (cases "all_rows it") (simp_all add: merge_rows_def split: if_splits)
  with all_rows_props(1) [OF ok] advance_end [OF ok] ok show ?thesis
    by (simp add: merge_next_def merge_ok_def)
qed

lemma merge_next_row:
  assumes "merge_inv it" "merge_rows it = x # xs"
  shows "\<exists>it'. merge_next pop nxt it = Inr (Some x, it') \<and> merge_inv it' \<and> merge_rows it' = xs"
proof -
  from assms have ok: "merge_ok it" and dist: "distinct_rows (all_rows it)" by (simp_all add: merge_inv_def)
  obtain ys where ys: "all_rows it = x # ys"
    using assms(2) by (cases "all_rows it") (auto simp: merge_rows_def split: if_splits)
  from advance_step [OF ok all_rows_props(1) [OF ok, unfolded ys]] obtain c it1 where
    adv: "merge_advance pop nxt it = Inr (Some x, it1)"
    and it1: "merge_ok it1" "mi_dedup it1 = mi_dedup it" "yields (merge_advance pop nxt) it1 ys" by blast
  have rows1: "all_rows it1 = ys" by (rule all_rows_eq [OF it1(3)])
  have init: "mi_initialized it" using ok by (simp add: merge_ok_def)
  show ?thesis
  proof (cases "mi_dedup it \<and> \<not> is_merge (re_value x)")
    case False
    then have "merge_next pop nxt it = Inr (Some x, it1)"
      using adv init by (auto simp: merge_next_def)
    moreover have "merge_inv it1" using it1(1) rows1 dist ys by (simp add: merge_inv_def)
    moreover have "merge_rows it1 = xs"
      using False assms(2) ys rows1 it1(2) by (auto simp: merge_rows_def split: if_splits)
    ultimately show ?thesis by blast
  next
    case True
    from skip_versions_yields [OF it1(1,3), of "re_key x"] obtain it2 where
      skip: "skip_versions pop nxt (re_key x) it1 = Some (Inr it2)"
      and it2: "merge_ok it2" "mi_dedup it2 = mi_dedup it1"
        "yields (merge_advance pop nxt) it2 (dropWhile (\<lambda>y. re_key y = re_key x) ys)" by blast
    have rows2: "all_rows it2 = dropWhile (\<lambda>y. re_key y = re_key x) ys" by (rule all_rows_eq [OF it2(3)])
    have "merge_next pop nxt it = Inr (Some x, it2)"
      using True adv init skip by (simp add: merge_next_def)
    moreover have "merge_inv it2"
      using it2(1) rows2 dist ys by (simp add: merge_inv_def distinct_rows_dropWhile)
    moreover have "merge_rows it2 = xs"
      using True assms(2) ys rows2 it1(2) it2(2) by (simp add: merge_rows_def)
    ultimately show ?thesis by blast
  qed
qed

lemma merge_rows_sorted: "merge_inv it \<Longrightarrow> sorted_wrt (row_le ord') (merge_rows it)"
  using all_rows_props(2) [of it] by (auto simp: merge_inv_def merge_rows_def intro: dedup_rows_sorted)

lemma merge_seek_source:
  assumes "ord' = Ascending" "merge_inv it"
  shows "\<exists>it'. merge_seek pop nxt seek it k = Inr it' \<and> merge_inv it'
    \<and> merge_rows it' = dropWhile (\<lambda>e. precedes ord' (re_key e) k) (merge_rows it)"
proof -
  let ?P = "\<lambda>e. \<not> precedes ord' (re_key e) k"
  from assms(2) have ok: "merge_ok it" and dist: "distinct_rows (all_rows it)" by (simp_all add: merge_inv_def)
  from seek_rows [OF ok assms(1), of k] obtain it' where
    it': "merge_seek pop nxt seek it k = Inr it'" "merge_ok it'" "mi_dedup it' = mi_dedup it"
      "heap_rows (merge_entries it') = filter_mset (\<lambda>x. \<not> re_key x < k) (heap_rows (merge_entries it))" by blast
  have dist': "distinct_rows (filter ?P (all_rows it))" using dist by (simp add: distinct_map_filter)
  have rows': "all_rows it' = filter ?P (all_rows it)"
  proof (rule sorted_rows_unique [symmetric])
    show "sorted_wrt (row_le ord') (filter ?P (all_rows it))" using all_rows_props(2) [OF ok] by (rule sorted_wrt_filter)
    show "sorted_wrt (row_le ord') (all_rows it')" by (rule all_rows_props(2) [OF it'(2)])
    show "mset (filter ?P (all_rows it)) = mset (all_rows it')"
      unfolding all_rows_props(3) [OF it'(2)] it'(4) all_rows_props(3) [OF ok, symmetric]
      using assms(1) by simp
    show "distinct_rows (filter ?P (all_rows it))" by (rule dist')
  qed
  have "merge_rows it' = filter ?P (merge_rows it)"
    unfolding merge_rows_def it'(3) rows' using dedup_rows_filter_key [OF _ all_rows_props(2) [OF ok], of ?P] by simp
  also have "\<dots> = dropWhile (\<lambda>e. precedes ord' (re_key e) k) (merge_rows it)"
    by (rule sorted_dropWhile_filter [OF merge_rows_sorted [OF assms(2)], symmetric])
  finally show ?thesis using it'(1,2) dist' rows' by (auto simp: merge_inv_def)
qed

text \<open>A merge that is still to be initialised, over sources that are.\<close>

definition merge_ready :: "'s merge_iterator \<Rightarrow> bool" where
  "merge_ready it \<longleftrightarrow>
     (\<exists>sources d. it = with_dedup d (merge_iterator_new_with_order sources ord') \<and> list_all ready sources
        \<and> distinct_rows (concat (map source_rows sources)))"

definition merge_source_rows :: "'s merge_iterator \<Rightarrow> row_entry list" where
  "merge_source_rows it =
     (let out = sort_rows ord' (concat (map (source_rows \<circ> snd) (mi_pending_iterators it)))
      in if mi_dedup it then dedup_rows out else out)"

lemma merge_init:
  assumes "merge_ready it"
  shows "\<exists>it'. merge_initialize pop init nxt it = Inr it' \<and> merge_inv it' \<and> merge_rows it' = merge_source_rows it"
proof -
  from assms obtain sources d where it: "it = with_dedup d (merge_iterator_new_with_order sources ord')"
    and ready: "list_all ready sources" and dist: "distinct_rows (concat (map source_rows sources))"
    by (auto simp: merge_ready_def)
  from initialize_rows [OF ready, of d] obtain it' where
    it': "merge_initialize pop init nxt it = Inr it'" "merge_ok it'" "mi_dedup it' = d"
      "heap_rows (merge_entries it') = (\<Sum>s\<in>#mset sources. mset (source_rows s))" unfolding it by blast
  have "mset (concat (map source_rows sources)) = (\<Sum>s\<in>#mset sources. mset (source_rows s))"
    by (induction sources) auto
  with it'(4) have rows: "all_rows it' = sort_rows ord' (concat (map source_rows sources))"
    by (intro all_rows_sort [OF it'(2) _ dist]) simp
  have "distinct_rows (all_rows it')"
    unfolding rows using dist distinct_rows_mset [of "sort_rows ord' (concat (map source_rows sources))"] by simp
  moreover have "map (source_rows \<circ> snd) (enumerate 0 sources) = map source_rows sources"
    unfolding map_map [symmetric] map_snd_enumerate ..
  then have "merge_source_rows it = merge_rows it'"
    by (simp add: merge_source_rows_def merge_rows_def rows it'(3) it with_dedup_def
        merge_iterator_new_with_order_def)
  ultimately show ?thesis using it'(1,2) by (auto simp: merge_inv_def)
qed

lemma merge_source:
  "row_source merge_inv merge_rows (merge_next pop nxt) (merge_seek pop nxt seek) ord' (\<lambda>_ _. True)
     (merge_initialize pop init nxt) merge_ready merge_source_rows"
proof
  fix it assume I: "merge_inv it"
  show "\<exists>it'. merge_next pop nxt it = Inr (None, it') \<and> merge_inv it' \<and> merge_rows it' = []"
    if "merge_rows it = []" using I that merge_next_end [OF I that] by blast
  show "\<exists>it'. merge_next pop nxt it = Inr (Some x, it') \<and> merge_inv it' \<and> merge_rows it' = xs"
    if "merge_rows it = x # xs" for x xs by (rule merge_next_row [OF I that])
  show "sorted_wrt (row_le ord') (merge_rows it)" by (rule merge_rows_sorted [OF I])
  show "\<exists>it'. merge_seek pop nxt seek it k = Inr it' \<and> merge_inv it'
      \<and> merge_rows it' = dropWhile (\<lambda>e. precedes ord' (re_key e) k) (merge_rows it)"
    if "ord' = Ascending" for k by (rule merge_seek_source [OF that I])
qed (auto intro: merge_init)

end

end
