(* ===== verification/MergeOperator.thy ===== *)
theory MergeOperator
  imports ReadIterators
begin

section \<open>Merge operands: \<open>merge_operator.rs\<close>\<close>

text \<open>
  The application's merge operator is an argument, its \<open>merge_batch\<close>. The iterator collects the
  merge operands of a key in batches of 100, combines each batch, and combines the results with the
  value below them. The locale \<open>merge_operator\<close> states what the trait documents: an associative
  operator applied from the oldest operand to the newest. Under it the batches make no difference.
\<close>

subsection \<open>Definitions\<close>

type_synonym merge_batch = "bytes \<Rightarrow> bytes option \<Rightarrow> bytes list \<Rightarrow> merge_operator_error + bytes"

fun merge_batch_loop ::
    "(bytes \<Rightarrow> bytes option \<Rightarrow> bytes \<Rightarrow> merge_operator_error + bytes) \<Rightarrow> bytes \<Rightarrow> bytes option \<Rightarrow> bytes list
      \<Rightarrow> merge_operator_error + bytes option" where
  "merge_batch_loop mrg key result [] = Inr result"
| "merge_batch_loop mrg key result (operand # operands) =
     (case mrg key result operand of
        Inl e \<Rightarrow> Inl e
      | Inr v \<Rightarrow> merge_batch_loop mrg key (Some v) operands)"

definition default_merge_batch ::
    "(bytes \<Rightarrow> bytes option \<Rightarrow> bytes \<Rightarrow> merge_operator_error + bytes) \<Rightarrow> merge_batch" where
  "default_merge_batch mrg key existing_value operands =
     (case merge_batch_loop mrg key existing_value operands of
        Inl e \<Rightarrow> Inl e
      | Inr None \<Rightarrow> Inl EmptyBatch
      | Inr (Some v) \<Rightarrow> Inr v)"

definition MERGE_BATCH_SIZE :: nat where
  "MERGE_BATCH_SIZE = 100"

definition required_next :: "'s next_fn \<Rightarrow> 's next_fn" where
  "required_next nxt delegate =
     bind_result (nxt delegate) (\<lambda>(entry, delegate).
       case entry of
         Some e \<Rightarrow> if is_merge (re_value e) then Inl MergeOperatorMissing else Inr (Some e, delegate)
       | None \<Rightarrow> Inr (None, delegate))"

fun merge_options :: "('a \<Rightarrow> 'a \<Rightarrow> 'a) \<Rightarrow> 'a option \<Rightarrow> 'a option \<Rightarrow> 'a option" where
  "merge_options f (Some current) (Some nxt) = Some (f current nxt)"
| "merge_options f None nxt = nxt"
| "merge_options f current None = current"

definition i64_max :: "i64 \<Rightarrow> i64 \<Rightarrow> i64" where
  "i64_max a b = (if sint b < sint a then a else b)"

definition i64_min :: "i64 \<Rightarrow> i64 \<Rightarrow> i64" where
  "i64_min a b = (if sint b < sint a then b else a)"

record merge_tracker =
  mt_max_create_ts :: "i64 option"
  mt_min_expire_ts :: "i64 option"
  mt_seq :: u64

definition merge_tracker_update :: "row_entry \<Rightarrow> merge_tracker \<Rightarrow> merge_tracker result" where
  "merge_tracker_update entry t =
     (let t = t\<lparr>mt_max_create_ts := merge_options i64_max (mt_max_create_ts t) (re_create_ts entry)\<rparr>;
          t = t\<lparr>mt_min_expire_ts := merge_options i64_min (mt_min_expire_ts t) (re_expire_ts entry)\<rparr>
      in if mt_seq t < re_seq entry then Inl (InvalidSequenceOrder (mt_seq t) (re_seq entry))
         else Inr (t\<lparr>mt_seq := max (mt_seq t) (re_seq entry)\<rparr>))"

record 's merge_operator_iterator =
  moi_delegate :: 's
  moi_buffered_entry :: "row_entry option"
  moi_merge_different_expire_ts :: bool
  moi_snapshot_barrier_seq :: "u64 option"

definition merge_operator_iterator_new ::
    "'s \<Rightarrow> bool \<Rightarrow> u64 option \<Rightarrow> 's merge_operator_iterator" where
  "merge_operator_iterator_new delegate merge_different_expire_ts snapshot_barrier_seq =
     \<lparr>moi_delegate = delegate, moi_buffered_entry = None,
      moi_merge_different_expire_ts = merge_different_expire_ts,
      moi_snapshot_barrier_seq = snapshot_barrier_seq\<rparr>"

definition is_matching_entry :: "bool \<Rightarrow> row_entry \<Rightarrow> bytes \<Rightarrow> i64 option \<Rightarrow> bool" where
  "is_matching_entry merge_different_expire_ts entry key first_expire_ts \<longleftrightarrow>
     re_key entry = key \<and> (merge_different_expire_ts \<or> first_expire_ts = re_expire_ts entry)"

fun process_entries :: "row_entry list \<Rightarrow> merge_tracker \<Rightarrow> (bytes list \<times> merge_tracker) result" where
  "process_entries [] t = Inr ([], t)"
| "process_entries (entry # batch) t =
     bind_result (merge_tracker_update entry t) (\<lambda>t.
     bind_result (process_entries batch t) (\<lambda>(operands, t).
       Inr ((case as_bytes (re_value entry) of Some v \<Rightarrow> v # operands | None \<Rightarrow> operands), t)))"

fun merge_result :: "merge_operator_error + 'a \<Rightarrow> 'a result" where
  "merge_result (Inl e) = Inl (MergeOperatorError e)"
| "merge_result (Inr v) = Inr v"

definition process_batch ::
    "merge_batch \<Rightarrow> bytes \<Rightarrow> row_entry list \<Rightarrow> merge_tracker \<Rightarrow> (bytes \<times> merge_tracker) result" where
  "process_batch mb key batch t =
     bind_result (process_entries (rev batch) t) (\<lambda>(operands, t).
     bind_result (merge_result (mb key None operands)) (\<lambda>r. Inr (r, t)))"

text \<open>
  The loop of \<open>merge_with_older_entries\<close>. It returns the base entry, if there is one, with the
  results of the full batches, the last batch and the state of the iterator.
\<close>

partial_function (option) collect_loop ::
    "merge_batch \<Rightarrow> 's next_fn \<Rightarrow> bytes \<Rightarrow> i64 option \<Rightarrow> row_entry option \<Rightarrow> 's merge_operator_iterator
      \<Rightarrow> bytes list \<Rightarrow> row_entry list \<Rightarrow> merge_tracker
      \<Rightarrow> (row_entry option \<times> 's merge_operator_iterator \<times> bytes list \<times> row_entry list \<times> merge_tracker) result option" where
  "collect_loop mb nxt key first_expire_ts next_entry it results batch t =
     (case next_entry of
        None \<Rightarrow> Some (Inr (None, it, results, batch, t))
      | Some entry \<Rightarrow>
          if \<not> is_matching_entry (moi_merge_different_expire_ts it) entry key first_expire_ts
          then Some (Inr (None, it\<lparr>moi_buffered_entry := Some entry\<rparr>, results, batch, t))
          else if \<not> is_merge (re_value entry)
          then Some (Inr (Some entry, it, results, batch, t))
          else
            (case (if length (batch @ [entry]) \<ge> MERGE_BATCH_SIZE
                   then bind_result (process_batch mb key (batch @ [entry]) t)
                          (\<lambda>(r, t). Inr (results @ [r], [], t))
                   else Inr (results, batch @ [entry], t)) of
               Inl e \<Rightarrow> Some (Inl e)
             | Inr (results, batch, t) \<Rightarrow>
                 (case nxt (moi_delegate it) of
                    Inl e \<Rightarrow> Some (Inl e)
                  | Inr (next_entry, delegate) \<Rightarrow>
                      collect_loop mb nxt key first_expire_ts next_entry (it\<lparr>moi_delegate := delegate\<rparr>)
                        results batch t)))"

declare collect_loop.simps [code]

definition merge_with_older_entries ::
    "merge_batch \<Rightarrow> 's next_fn \<Rightarrow> row_entry \<Rightarrow> 's merge_operator_iterator
      \<Rightarrow> (row_entry option \<times> 's merge_operator_iterator) result" where
  "merge_with_older_entries mb nxt first_entry it =
     (case collect_loop mb nxt (re_key first_entry) (re_expire_ts first_entry) (Some first_entry) it [] []
             \<lparr>mt_max_create_ts = None, mt_min_expire_ts = None, mt_seq = re_seq first_entry\<rparr> of
        None \<Rightarrow> Inl NonTermination
      | Some r \<Rightarrow>
          bind_result r (\<lambda>(base, it, results, batch, t).
          bind_result
            (if batch \<noteq> []
             then bind_result (process_batch mb (re_key first_entry) batch t) (\<lambda>(r, t). Inr (results @ [r], t))
             else Inr (results, t)) (\<lambda>(results, t).
          let base_value = (case base of Some b \<Rightarrow> as_bytes (re_value b) | None \<Rightarrow> None);
              found_base = (base \<noteq> None)
          in bind_result (case base of Some b \<Rightarrow> merge_tracker_update b t | None \<Rightarrow> Inr t) (\<lambda>t.
             if results = [] \<and> base_value = None then Inr (None, it)
             else bind_result (merge_result (mb (re_key first_entry) base_value (rev results))) (\<lambda>final_result.
               Inr (Some \<lparr>re_key = re_key first_entry,
                          re_value = (if found_base then Value final_result else Merge final_result),
                          re_seq = mt_seq t,
                          re_create_ts = mt_max_create_ts t,
                          re_expire_ts = mt_min_expire_ts t\<rparr>, it))))))"

definition merge_operator_init ::
    "('s \<Rightarrow> 's result) \<Rightarrow> 's merge_operator_iterator \<Rightarrow> 's merge_operator_iterator result" where
  "merge_operator_init init it =
     bind_result (init (moi_delegate it)) (\<lambda>s. Inr (it\<lparr>moi_delegate := s\<rparr>))"

definition merge_operator_next ::
    "merge_batch \<Rightarrow> 's next_fn \<Rightarrow> 's merge_operator_iterator next_fn" where
  "merge_operator_next mb nxt it =
     bind_result
       (case moi_buffered_entry it of
          Some entry \<Rightarrow> Inr (Some entry, it\<lparr>moi_buffered_entry := None\<rparr>)
        | None \<Rightarrow> bind_result (nxt (moi_delegate it)) (\<lambda>(r, s). Inr (r, it\<lparr>moi_delegate := s\<rparr>))) (\<lambda>(r, it).
     case r of
       Some entry \<Rightarrow>
         if is_merge (re_value entry)
         then (case moi_snapshot_barrier_seq it of
                 Some barrier \<Rightarrow>
                   if re_seq entry > barrier then Inr (Some entry, it)
                   else merge_with_older_entries mb nxt entry it
               | None \<Rightarrow> merge_with_older_entries mb nxt entry it)
         else Inr (Some entry, it)
     | None \<Rightarrow> Inr (None, it))"

definition merge_operator_seek :: "'s seek_fn \<Rightarrow> 's merge_operator_iterator seek_fn" where
  "merge_operator_seek seek it next_key =
     bind_result (seek (moi_delegate it) next_key) (\<lambda>s.
       Inr (it\<lparr>moi_buffered_entry := None, moi_delegate := s\<rparr>))"

subsection \<open>The documented laws of a merge operator\<close>

definition total :: "(bytes \<Rightarrow> bytes \<Rightarrow> bytes) \<Rightarrow> bytes list \<Rightarrow> bytes" where
  "total g xs = foldl g (hd xs) (tl xs)"

lemma total_Cons [simp]: "total g (x # xs) = foldl g x xs"
  by (simp add: total_def)

locale merge_operator =
  fixes mb :: merge_batch
    and f :: "bytes \<Rightarrow> bytes \<Rightarrow> bytes \<Rightarrow> bytes"
  assumes batch_none: "mb k None (x # xs) = Inr (foldl (f k) x xs)"
    and batch_some: "mb k (Some b) xs = Inr (foldl (f k) b xs)"
    and assoc: "f k (f k a b) c = f k a (f k b c)"
begin

lemma foldl_assoc: "f k a (foldl (f k) x xs) = foldl (f k) (f k a x) xs"
  by (induction xs arbitrary: x) (simp_all add: assoc [symmetric])

text \<open>Combining a list in chunks and then the results is combining the list.\<close>

lemma foldl_total: "xs \<noteq> [] \<Longrightarrow> f k a (total (f k) xs) = foldl (f k) a xs"
  by (cases xs) (simp_all add: foldl_assoc)

lemma foldl_chunks:
  "\<forall>c\<in>set cs. c \<noteq> [] \<Longrightarrow> foldl (f k) a (map (total (f k)) cs) = foldl (f k) a (concat cs)"
  by (induction cs arbitrary: a) (simp_all add: foldl_total)

lemma total_chunks:
  assumes "cs \<noteq> []" "\<forall>c\<in>set cs. c \<noteq> []"
  shows "total (f k) (map (total (f k)) cs) = total (f k) (concat cs)"
proof -
  from assms obtain c cs' where cs: "cs = c # cs'" "c \<noteq> []" by (cases cs) auto
  have "total (f k) (map (total (f k)) cs) = foldl (f k) (total (f k) c) (concat cs')"
    using assms(2) cs foldl_chunks [of cs' k "total (f k) c"] by simp
  with cs(2) show ?thesis by (cases c) (simp_all add: cs(1))
qed

lemma batch_total: "xs \<noteq> [] \<Longrightarrow> mb k None xs = Inr (total (f k) xs)"
  by (cases xs) (simp_all add: batch_none)

end

lemma default_merge_batch_laws:
  assumes "\<And>k v. mrg k None v = Inr v" "\<And>k a v. mrg k (Some a) v = Inr (f k a v)"
    and "\<And>k a b c. f k (f k a b) c = f k a (f k b c)"
  shows "merge_operator (default_merge_batch mrg) f"
proof -
  have loop: "merge_batch_loop mrg k (Some a) xs = Inr (Some (foldl (f k) a xs))" for k a xs
    by (induction xs arbitrary: a) (simp_all add: assms(2))
  show ?thesis
    by unfold_locales (simp_all add: default_merge_batch_def loop assms(1,3))
qed

text \<open>The operator that appends byte strings, the sources' example of a buffer.\<close>

definition append_merge :: "bytes \<Rightarrow> bytes option \<Rightarrow> bytes \<Rightarrow> merge_operator_error + bytes" where
  "append_merge key existing v = (case existing of None \<Rightarrow> Inr v | Some a \<Rightarrow> Inr (a @ v))"

interpretation appending: merge_operator "default_merge_batch append_merge" "\<lambda>_ a b. a @ b"
  by (rule default_merge_batch_laws) (simp_all add: append_merge_def)

subsection \<open>What the iterator returns\<close>

definition operand :: "row_entry \<Rightarrow> bytes" where
  "operand r = (case as_bytes (re_value r) of Some v \<Rightarrow> v | None \<Rightarrow> [])"

fun combine :: "(bytes \<Rightarrow> bytes \<Rightarrow> bytes) \<Rightarrow> bytes option \<Rightarrow> bytes list \<Rightarrow> bytes" where
  "combine g (Some b) ops = foldl g b ops"
| "combine g None ops = total g ops"

definition track_create :: "row_entry list \<Rightarrow> i64 option \<Rightarrow> i64 option" where
  "track_create = fold (\<lambda>r acc. merge_options i64_max acc (re_create_ts r))"

definition track_expire :: "row_entry list \<Rightarrow> i64 option \<Rightarrow> i64 option" where
  "track_expire = fold (\<lambda>r acc. merge_options i64_min acc (re_expire_ts r))"

definition base_of :: "(row_entry \<Rightarrow> bool) \<Rightarrow> row_entry list \<Rightarrow> row_entry option" where
  "base_of matching rs = (case rs of [] \<Rightarrow> None | r # _ \<Rightarrow> if matching r then Some r else None)"

definition merged_row :: "(bytes \<Rightarrow> bytes \<Rightarrow> bytes \<Rightarrow> bytes) \<Rightarrow> row_entry list \<Rightarrow> row_entry option \<Rightarrow> row_entry" where
  "merged_row f ms base =
     (let x = hd ms; v = combine (f (re_key x)) (Option.bind base (as_bytes \<circ> re_value)) (rev (map operand ms));
          used = ms @ (case base of None \<Rightarrow> [] | Some b \<Rightarrow> [b])
      in \<lparr>re_key = re_key x, re_value = (if base \<noteq> None then Value v else Merge v), re_seq = re_seq x,
          re_create_ts = track_create used None, re_expire_ts = track_expire used None\<rparr>)"

function merged_rows ::
    "(bytes \<Rightarrow> bytes \<Rightarrow> bytes \<Rightarrow> bytes) \<Rightarrow> bool \<Rightarrow> u64 option \<Rightarrow> row_entry list \<Rightarrow> row_entry list" where
  "merged_rows f dexp barrier [] = []"
| "merged_rows f dexp barrier (x # xs) =
     (if is_merge (re_value x) \<and> (case barrier of Some b \<Rightarrow> re_seq x \<le> b | None \<Rightarrow> True)
      then let matching = (\<lambda>r. is_matching_entry dexp r (re_key x) (re_expire_ts x));
               collected = (\<lambda>r. matching r \<and> is_merge (re_value r));
               rest = dropWhile collected xs;
               base = base_of matching rest
           in merged_row f (x # takeWhile collected xs) base
                # merged_rows f dexp barrier (if base = None then rest else tl rest)
      else x # merged_rows f dexp barrier xs)"
  by pat_completeness auto
termination
proof (relation "measure (\<lambda>(_, _, _, xs). length xs)", goal_cases)
  case (2 f dexp barrier x xs matching collected rest base)
  then have "length (if base = None then rest else tl rest) \<le> length xs"
    using length_dropWhile_le [of collected xs] by auto
  then show ?case by simp
qed auto

lemma i64_comm: "i64_max a b = i64_max b a" "i64_min a b = i64_min b a"
proof -
  have "i64_max a b = i64_max b a \<and> i64_min a b = i64_min b a"
  proof (cases "sint a = sint b")
    case True
    then have "a = b" by (rule signed_word_eqI)
    then show ?thesis by simp
  qed (auto simp: i64_max_def i64_min_def)
  then show "i64_max a b = i64_max b a" "i64_min a b = i64_min b a" by simp_all
qed

lemma i64_assoc: "i64_max (i64_max a b) c = i64_max a (i64_max b c)" "i64_min (i64_min a b) c = i64_min a (i64_min b c)"
  by (simp_all add: i64_max_def i64_min_def)

lemma i64_swap: "i64_max (i64_max a b) c = i64_max (i64_max a c) b" "i64_min (i64_min a b) c = i64_min (i64_min a c) b"
  unfolding i64_assoc i64_comm(1) [of b c] i64_comm(2) [of b c] by (rule refl)+

lemma merge_options_commute:
  "merge_options i64_max (merge_options i64_max a b) c = merge_options i64_max (merge_options i64_max a c) b"
  "merge_options i64_min (merge_options i64_min a b) c = merge_options i64_min (merge_options i64_min a c) b"
  using i64_swap i64_comm by (cases a; cases b; cases c; simp)+

lemma track_perm:
  assumes "mset xs = mset ys"
  shows "track_create xs = track_create ys" "track_expire xs = track_expire ys"
  unfolding track_create_def track_expire_def
  by (rule fold_multiset_equiv [OF _ assms]; simp add: fun_eq_iff merge_options_commute)+

lemma track_append:
  "track_create (xs @ ys) a = track_create ys (track_create xs a)"
  "track_expire (xs @ ys) a = track_expire ys (track_expire xs a)"
  by (simp_all add: track_create_def track_expire_def)

definition track :: "row_entry list \<Rightarrow> merge_tracker \<Rightarrow> merge_tracker" where
  "track rs t = t\<lparr>mt_max_create_ts := track_create rs (mt_max_create_ts t),
                 mt_min_expire_ts := track_expire rs (mt_min_expire_ts t)\<rparr>"

lemma track_track: "track ys (track xs t) = track (xs @ ys) t"
  by (simp add: track_def track_append)

lemma track_Nil [simp]: "track [] t = t"
  by (simp add: track_def track_create_def track_expire_def)

lemma track_seq [simp]: "mt_seq (track rs t) = mt_seq t"
  by (simp add: track_def)

lemma update_track: "re_seq r \<le> mt_seq t \<Longrightarrow> merge_tracker_update r t = Inr (track [r] t)"
  by (simp add: merge_tracker_update_def track_def track_create_def track_expire_def Let_def not_less max_absorb1)

lemma process_entries_track:
  assumes "\<forall>r\<in>set rs. re_seq r \<le> mt_seq t \<and> is_merge (re_value r)"
  shows "process_entries rs t = Inr (map operand rs, track rs t)"
  using assms
proof (induction rs arbitrary: t)
  case (Cons r rs)
  then have "process_entries rs (track [r] t) = Inr (map operand rs, track rs (track [r] t))" by simp
  moreover have "as_bytes (re_value r) = Some (operand r)"
    using Cons.prems by (cases "re_value r") (auto simp: operand_def)
  ultimately show ?case using Cons.prems by (simp add: update_track track_track)
qed simp

context merge_operator
begin

lemma process_batch_total:
  assumes "\<forall>r\<in>set batch. re_seq r \<le> mt_seq t \<and> is_merge (re_value r)" "batch \<noteq> []"
  shows "process_batch mb key batch t = Inr (total (f key) (rev (map operand batch)), track batch t)"
proof -
  have "process_entries (rev batch) t = Inr (map operand (rev batch), track (rev batch) t)"
    using assms(1) by (intro process_entries_track) simp
  moreover have "track (rev batch) t = track batch t"
    by (simp add: track_def track_perm [of "rev batch" batch])
  ultimately show ?thesis using assms(2) batch_total [of "map operand (rev batch)" key]
    by (simp add: process_batch_def rev_map)
qed

end

text \<open>The rows still to come: the buffered entry and what the delegate has left.\<close>

definition moi_rows :: "('s \<Rightarrow> row_entry list) \<Rightarrow> 's merge_operator_iterator \<Rightarrow> row_entry list" where
  "moi_rows rows it =
     (case moi_buffered_entry it of None \<Rightarrow> [] | Some e \<Rightarrow> [e]) @ rows (moi_delegate it)"

definition chunk_totals :: "(bytes \<Rightarrow> bytes \<Rightarrow> bytes) \<Rightarrow> row_entry list list \<Rightarrow> bytes list" where
  "chunk_totals g chunks = map (\<lambda>c. total g (rev (map operand c))) chunks"

context forward_iterator
begin

lemma collect_loop_rows:
  assumes op: "merge_operator mb f"
    and "inv (moi_delegate it)" "moi_buffered_entry it = None"
    and "next_entry = None \<longrightarrow> rows (moi_delegate it) = []"
    and "pend = (case next_entry of None \<Rightarrow> [] | Some e \<Rightarrow> e # rows (moi_delegate it))"
    and "matching = (\<lambda>r. is_matching_entry (moi_merge_different_expire_ts it) r key fe)"
    and "collected = (\<lambda>r. matching r \<and> is_merge (re_value r))"
    and "\<forall>r\<in>set pend. matching r \<longrightarrow> re_seq r \<le> mt_seq t0"
    and "\<forall>r\<in>set batch. re_seq r \<le> mt_seq t0 \<and> is_merge (re_value r)"
    and "\<forall>c\<in>set chunks. c \<noteq> []"
  shows "\<exists>it' chunks' batch'.
      collect_loop mb nxt key fe next_entry it (chunk_totals (f key) chunks) batch (track (concat chunks) t0)
        = Some (Inr (base_of matching (dropWhile collected pend), it', chunk_totals (f key) chunks', batch',
                     track (concat chunks') t0))
    \<and> concat chunks' @ batch' = concat chunks @ batch @ takeWhile collected pend
    \<and> (\<forall>c\<in>set chunks'. c \<noteq> [])
    \<and> (\<forall>r\<in>set batch'. re_seq r \<le> mt_seq t0 \<and> is_merge (re_value r))
    \<and> inv (moi_delegate it') \<and> moi_merge_different_expire_ts it' = moi_merge_different_expire_ts it
    \<and> moi_snapshot_barrier_seq it' = moi_snapshot_barrier_seq it
    \<and> moi_rows rows it' = (if base_of matching (dropWhile collected pend) = None then dropWhile collected pend
                         else tl (dropWhile collected pend))"
  using assms(2-)
proof (induction "length pend" arbitrary: it next_entry pend batch chunks)
  case 0
  then show ?case
    by (intro exI [of _ it] exI [of _ chunks] exI [of _ batch], subst collect_loop.simps)
      (auto simp: base_of_def moi_rows_def split: option.splits)
next
  case (Suc n)
  then obtain entry where entry: "next_entry = Some entry" "pend = entry # rows (moi_delegate it)"
    by (auto split: option.splits)
  show ?case
  proof (cases "collected entry")
    case False
    then show ?thesis
      using Suc.prems entry
      by (intro exI [of _ "if matching entry then it else it\<lparr>moi_buffered_entry := Some entry\<rparr>"]
          exI [of _ chunks] exI [of _ batch], subst collect_loop.simps)
        (auto simp: base_of_def moi_rows_def)
  next
    case True
    then have entry_ok: "re_seq entry \<le> mt_seq t0" "is_merge (re_value entry)"
      "is_matching_entry (moi_merge_different_expire_ts it) entry key fe"
      using Suc.prems(4,5,6,7) entry by auto
    let ?full = "length (batch @ [entry]) \<ge> MERGE_BATCH_SIZE"
    define chunks1 where "chunks1 = (if ?full then chunks @ [batch @ [entry]] else chunks)"
    define batch1 where "batch1 = (if ?full then [] else batch @ [entry])"
    have parts: "concat chunks1 @ batch1 = concat chunks @ batch @ [entry]" "\<forall>c\<in>set chunks1. c \<noteq> []"
      "\<forall>r\<in>set batch1. re_seq r \<le> mt_seq t0 \<and> is_merge (re_value r)"
      using Suc.prems(8,9) entry_ok by (auto simp: chunks1_def batch1_def)
    have full: "?full \<Longrightarrow> process_batch mb key (batch @ [entry]) (track (concat chunks) t0)
        = Inr (total (f key) (rev (map operand (batch @ [entry]))), track (concat chunks @ batch @ [entry]) t0)"
      using merge_operator.process_batch_total [OF op, of "batch @ [entry]" "track (concat chunks) t0" key]
        Suc.prems(8) entry_ok by (simp add: track_track)
    have step: "(if ?full then bind_result (process_batch mb key (batch @ [entry]) (track (concat chunks) t0))
            (\<lambda>(r, t). Inr (chunk_totals (f key) chunks @ [r], [], t))
          else Inr (chunk_totals (f key) chunks, batch @ [entry], track (concat chunks) t0))
        = (Inr (chunk_totals (f key) chunks1, batch1, track (concat chunks1) t0)
             :: (bytes list \<times> row_entry list \<times> merge_tracker) result)"
      using full by (simp add: chunks1_def batch1_def chunk_totals_def)
    obtain r s where r: "nxt (moi_delegate it) = Inr (r, s)" "inv s" "r = None \<longrightarrow> rows s = []"
      "rows (moi_delegate it) = (case r of None \<Rightarrow> [] | Some e \<Rightarrow> e # rows s)"
      using next_end [OF Suc.prems(1)] next_row [OF Suc.prems(1)]
      by (cases "rows (moi_delegate it)") force+
    let ?it = "it\<lparr>moi_delegate := s\<rparr>"
    have loop: "collect_loop mb nxt key fe next_entry it (chunk_totals (f key) chunks) batch (track (concat chunks) t0)
        = collect_loop mb nxt key fe r ?it (chunk_totals (f key) chunks1) batch1 (track (concat chunks1) t0)"
      by (subst collect_loop.simps) (simp only: entry(1) option.case entry_ok r(1) simp_thms if_True if_False step
          sum.case prod.case)
    have "\<exists>it' chunks' batch'.
      collect_loop mb nxt key fe r ?it (chunk_totals (f key) chunks1) batch1 (track (concat chunks1) t0)
        = Some (Inr (base_of matching (dropWhile collected (rows (moi_delegate it))), it',
                     chunk_totals (f key) chunks', batch', track (concat chunks') t0))
    \<and> concat chunks' @ batch' = concat chunks1 @ batch1 @ takeWhile collected (rows (moi_delegate it))
    \<and> (\<forall>c\<in>set chunks'. c \<noteq> [])
    \<and> (\<forall>r\<in>set batch'. re_seq r \<le> mt_seq t0 \<and> is_merge (re_value r))
    \<and> inv (moi_delegate it') \<and> moi_merge_different_expire_ts it' = moi_merge_different_expire_ts ?it
    \<and> moi_snapshot_barrier_seq it' = moi_snapshot_barrier_seq ?it
    \<and> moi_rows rows it' = (if base_of matching (dropWhile collected (rows (moi_delegate it))) = None
                         then dropWhile collected (rows (moi_delegate it))
                         else tl (dropWhile collected (rows (moi_delegate it))))"
    proof (rule Suc.hyps(1))
      show "rows (moi_delegate it) = (case r of None \<Rightarrow> [] | Some e \<Rightarrow> e # rows (moi_delegate ?it))"
        using r(4) by (cases r) simp_all
      show "n = length (rows (moi_delegate it))" using Suc.hyps(2) entry(2) by simp
      show "\<forall>r\<in>set (rows (moi_delegate it)). matching r \<longrightarrow> re_seq r \<le> mt_seq t0"
        using Suc.prems(7) unfolding entry(2) by simp
    qed (use Suc.prems(2,5,6) r(2,3) parts(2,3) in simp_all)
    moreover have "dropWhile collected pend = dropWhile collected (rows (moi_delegate it))"
      "concat chunks @ batch @ takeWhile collected pend
         = concat chunks1 @ batch1 @ takeWhile collected (rows (moi_delegate it))"
      using True entry(2) arg_cong [OF parts(1), of "\<lambda>xs. xs @ takeWhile collected (rows (moi_delegate it))"]
      by simp_all
    moreover have "moi_merge_different_expire_ts ?it = moi_merge_different_expire_ts it"
      "moi_snapshot_barrier_seq ?it = moi_snapshot_barrier_seq it" by simp_all
    ultimately show ?thesis by (simp only: loop)
  qed
qed

end

context merge_operator
begin

lemma concat_chunks: "concat (map (\<lambda>c. rev (map operand c)) (rev chunks)) = rev (map operand (concat chunks))"
  by (induction chunks) simp_all

text \<open>The last call of \<open>merge_batch\<close> combines all operands with the base.\<close>

lemma final_result:
  assumes "\<forall>c\<in>set chunks. c \<noteq> []" "chunks \<noteq> []"
  shows "mb k base (rev (chunk_totals (f k) chunks)) = Inr (combine (f k) base (rev (map operand (concat chunks))))"
proof -
  let ?cs = "map (\<lambda>c. rev (map operand c)) (rev chunks)"
  have cs: "rev (chunk_totals (f k) chunks) = map (total (f k)) ?cs" "\<forall>c\<in>set ?cs. c \<noteq> []" "?cs \<noteq> []"
    using assms by (auto simp: chunk_totals_def rev_map)
  show ?thesis
  proof (cases base)
    case None
    have "mb k None (map (total (f k)) ?cs) = Inr (total (f k) (map (total (f k)) ?cs))"
      using cs(3) by (intro batch_total) simp
    also have "total (f k) (map (total (f k)) ?cs) = total (f k) (concat ?cs)" by (rule total_chunks [OF cs(3,2)])
    finally show ?thesis using None by (simp add: cs(1) concat_chunks)
  next
    case (Some b)
    then show ?thesis unfolding cs(1) batch_some Some using foldl_chunks [OF cs(2), of k b]
      by (simp add: concat_chunks)
  qed
qed

end

lemma is_matching_key: "is_matching_entry d r key fe \<Longrightarrow> re_key r = key"
  by (simp add: is_matching_entry_def)

context forward_iterator
begin

lemma merge_with_older_rows:
  assumes op: "merge_operator mb f"
    and I: "inv (moi_delegate it)" "moi_buffered_entry it = None" "is_merge (re_value x)"
    and sorted: "sorted_wrt (row_le ord') (x # rows (moi_delegate it))"
    and m: "matching = (\<lambda>r. is_matching_entry (moi_merge_different_expire_ts it) r (re_key x) (re_expire_ts x))"
    and c: "collected = (\<lambda>r. matching r \<and> is_merge (re_value r))"
    and rest: "rest = dropWhile collected (rows (moi_delegate it))" and base: "base = base_of matching rest"
  shows "\<exists>it'. merge_with_older_entries mb nxt x it
      = Inr (Some (merged_row f (x # takeWhile collected (rows (moi_delegate it))) base), it')
    \<and> inv (moi_delegate it') \<and> moi_merge_different_expire_ts it' = moi_merge_different_expire_ts it
    \<and> moi_snapshot_barrier_seq it' = moi_snapshot_barrier_seq it
    \<and> moi_rows rows it' = (if base = None then rest else tl rest)"
proof -
  let ?t0 = "\<lparr>mt_max_create_ts = None, mt_min_expire_ts = None, mt_seq = re_seq x\<rparr>"
  let ?pend = "x # rows (moi_delegate it)" and ?ms = "x # takeWhile collected (rows (moi_delegate it))"
  have older: "re_seq r \<le> re_seq x" if "r \<in> set ?pend" "matching r" for r
    using that sorted is_matching_key [of _ r "re_key x"] by (auto simp: m row_le_def)
  have x: "collected x" using I(3) by (simp add: c m is_matching_entry_def)
  from collect_loop_rows [OF op I(1,2), of "Some x" ?pend matching "re_key x" "re_expire_ts x" collected ?t0 "[]" "[]"]
  obtain it' chunks batch where
    loop: "collect_loop mb nxt (re_key x) (re_expire_ts x) (Some x) it (chunk_totals (f (re_key x)) []) []
             (track (concat []) ?t0)
        = Some (Inr (base_of matching (dropWhile collected ?pend), it', chunk_totals (f (re_key x)) chunks, batch,
                     track (concat chunks) ?t0))"
    and parts: "concat chunks @ batch = concat [] @ [] @ takeWhile collected ?pend"
      "\<forall>c\<in>set chunks. c \<noteq> []"
      "\<forall>r\<in>set batch. re_seq r \<le> mt_seq ?t0 \<and> is_merge (re_value r)"
    and it': "inv (moi_delegate it')" "moi_merge_different_expire_ts it' = moi_merge_different_expire_ts it"
      "moi_snapshot_barrier_seq it' = moi_snapshot_barrier_seq it"
      "moi_rows rows it' = (if base_of matching (dropWhile collected ?pend) = None then dropWhile collected ?pend
                         else tl (dropWhile collected ?pend))"
    using older m c by auto
  have eqs: "base_of matching (dropWhile collected ?pend) = base" "dropWhile collected ?pend = rest"
    "takeWhile collected ?pend = ?ms" using x by (simp_all add: rest base)
  define chunks1 where "chunks1 = (if batch = [] then chunks else chunks @ [batch])"
  have chunks1: "concat chunks1 = ?ms" "\<forall>c\<in>set chunks1. c \<noteq> []" "chunks1 \<noteq> []"
    using parts(1,2) unfolding eqs by (auto simp: chunks1_def)
  have last_batch: "(if batch \<noteq> []
        then bind_result (process_batch mb (re_key x) batch (track (concat chunks) ?t0))
               (\<lambda>(r, t). Inr (chunk_totals (f (re_key x)) chunks @ [r], t))
        else Inr (chunk_totals (f (re_key x)) chunks, track (concat chunks) ?t0))
      = (Inr (chunk_totals (f (re_key x)) chunks1, track ?ms ?t0) :: (bytes list \<times> merge_tracker) result)"
    using merge_operator.process_batch_total [OF op, of batch "track (concat chunks) ?t0" "re_key x"] parts(3)
      chunks1(1)
    by (auto simp: chunks1_def chunk_totals_def track_track)
  have base_seq: "re_seq b \<le> re_seq x" if "base = Some b" for b
  proof -
    from that obtain rs where "rest = b # rs" "matching b" by (auto simp: base base_of_def split: list.splits if_splits)
    then have "b \<in> set (rows (moi_delegate it))" unfolding rest by (metis list.set_intros(1) set_dropWhileD)
    with older [of b] \<open>matching b\<close> show ?thesis by simp
  qed
  let ?used = "?ms @ (case base of None \<Rightarrow> [] | Some b \<Rightarrow> [b])"
  have track_base: "(case base of Some b \<Rightarrow> merge_tracker_update b (track ?ms ?t0) | None \<Rightarrow> Inr (track ?ms ?t0))
      = (Inr (track ?used ?t0) :: merge_tracker result)"
    using base_seq by (cases base) (auto simp: update_track track_track)
  let ?bv = "case base of Some b \<Rightarrow> as_bytes (re_value b) | None \<Rightarrow> None"
  have bv: "?bv = Option.bind base (as_bytes \<circ> re_value)" by (cases base) simp_all
  have fin: "mb (re_key x) ?bv (rev (chunk_totals (f (re_key x)) chunks1))
      = Inr (combine (f (re_key x)) ?bv (rev (map operand ?ms)))"
    using merge_operator.final_result [OF op chunks1(2,3), of "re_key x" ?bv] unfolding chunks1(1) .
  have ne: "chunk_totals (f (re_key x)) chunks1 \<noteq> []" using chunks1(3) by (simp add: chunk_totals_def)
  have t0: "track (concat []) ?t0 = ?t0" "chunk_totals (f (re_key x)) [] = []" by (simp_all add: chunk_totals_def)
  have "merge_with_older_entries mb nxt x it = Inr (Some (merged_row f ?ms base), it')"
    unfolding merge_with_older_entries_def loop [unfolded t0] option.case bind_result.simps prod.case eqs(2,3) base [symmetric]
      last_batch Let_def track_base
    using ne fin by (simp add: merged_row_def bv track_def Let_def)
  with it' eqs show ?thesis by auto
qed

definition moi_ok :: "'s merge_operator_iterator \<Rightarrow> bool" where
  "moi_ok it \<longleftrightarrow> inv (moi_delegate it) \<and> sorted_wrt (row_le ord') (moi_rows rows it)"

definition moi_output :: "(bytes \<Rightarrow> bytes \<Rightarrow> bytes \<Rightarrow> bytes) \<Rightarrow> 's merge_operator_iterator \<Rightarrow> row_entry list" where
  "moi_output f it = merged_rows f (moi_merge_different_expire_ts it) (moi_snapshot_barrier_seq it) (moi_rows rows it)"

text \<open>The first step of \<open>next\<close> takes the buffered entry, or the next row of the delegate.\<close>

lemma moi_fetch:
  assumes "moi_ok it"
  shows "\<exists>r it'. (case moi_buffered_entry it of
          Some entry \<Rightarrow> Inr (Some entry, it\<lparr>moi_buffered_entry := None\<rparr>)
        | None \<Rightarrow> bind_result (nxt (moi_delegate it)) (\<lambda>(r, s). Inr (r, it\<lparr>moi_delegate := s\<rparr>))) = Inr (r, it')
    \<and> inv (moi_delegate it') \<and> moi_buffered_entry it' = None
    \<and> moi_merge_different_expire_ts it' = moi_merge_different_expire_ts it
    \<and> moi_snapshot_barrier_seq it' = moi_snapshot_barrier_seq it
    \<and> moi_rows rows it = (case r of None \<Rightarrow> [] | Some x \<Rightarrow> x # rows (moi_delegate it'))
    \<and> (r = None \<longrightarrow> rows (moi_delegate it') = [])"
proof (cases "moi_buffered_entry it")
  case (Some e)
  with assms show ?thesis
    by (intro exI [of _ "Some e"] exI [of _ "it\<lparr>moi_buffered_entry := None\<rparr>"]) (simp add: moi_ok_def moi_rows_def)
next
  case None
  from assms have I: "inv (moi_delegate it)" by (simp add: moi_ok_def)
  show ?thesis
  proof (cases "rows (moi_delegate it)")
    case Nil
    with next_end [OF I] obtain s where "nxt (moi_delegate it) = Inr (None, s)" "inv s" "rows s = []" by blast
    with None Nil show ?thesis
      by (intro exI [of _ None] exI [of _ "it\<lparr>moi_delegate := s\<rparr>"]) (simp add: moi_rows_def)
  next
    case (Cons x xs)
    with next_row [OF I] obtain s where "nxt (moi_delegate it) = Inr (Some x, s)" "inv s" "rows s = xs" by blast
    with None Cons show ?thesis
      by (intro exI [of _ "Some x"] exI [of _ "it\<lparr>moi_delegate := s\<rparr>"]) (simp add: moi_rows_def)
  qed
qed

lemma moi_next_step:
  assumes op: "merge_operator mb f" and ok: "moi_ok it"
  shows "case moi_output f it of
      [] \<Rightarrow> \<exists>it'. merge_operator_next mb nxt it = Inr (None, it') \<and> moi_ok it' \<and> moi_output f it' = []
    | y # ys \<Rightarrow> \<exists>it'. merge_operator_next mb nxt it = Inr (Some y, it') \<and> moi_ok it' \<and> moi_output f it' = ys"
proof -
  from moi_fetch [OF ok] obtain r it1 where
    fetch: "(case moi_buffered_entry it of
          Some entry \<Rightarrow> Inr (Some entry, it\<lparr>moi_buffered_entry := None\<rparr>)
        | None \<Rightarrow> bind_result (nxt (moi_delegate it)) (\<lambda>(r, s). Inr (r, it\<lparr>moi_delegate := s\<rparr>))) = Inr (r, it1)"
    and it1: "inv (moi_delegate it1)" "moi_buffered_entry it1 = None"
      "moi_merge_different_expire_ts it1 = moi_merge_different_expire_ts it"
      "moi_snapshot_barrier_seq it1 = moi_snapshot_barrier_seq it"
    and rows: "moi_rows rows it = (case r of None \<Rightarrow> [] | Some x \<Rightarrow> x # rows (moi_delegate it1))"
      "r = None \<longrightarrow> rows (moi_delegate it1) = []" by blast
  have it1_rows: "moi_rows rows it1 = rows (moi_delegate it1)" using it1(2) by (simp add: moi_rows_def)
  show ?thesis
  proof (cases r)
    case None
    then have "merge_operator_next mb nxt it = Inr (None, it1)" using fetch by (simp add: merge_operator_next_def)
    moreover have "moi_rows rows it = []" "moi_rows rows it1 = []" using None rows it1_rows by simp_all
    ultimately show ?thesis using it1 by (simp add: moi_output_def moi_ok_def)
  next
    case (Some x)
    have sorted: "sorted_wrt (row_le ord') (x # rows (moi_delegate it1))"
      using ok rows(1) Some by (simp add: moi_ok_def)
    show ?thesis
    proof (cases "is_merge (re_value x) \<and> (case moi_snapshot_barrier_seq it of Some b \<Rightarrow> re_seq x \<le> b | None \<Rightarrow> True)")
      case False
      then have "merge_operator_next mb nxt it = Inr (Some x, it1)"
        using fetch Some it1(4) by (auto simp: merge_operator_next_def split: option.splits)
      moreover have "moi_output f it = x # moi_output f it1"
        unfolding moi_output_def it1(3,4) it1_rows rows(1) Some option.case
        using False by (auto split: option.splits)
      moreover have "moi_ok it1" using it1(1) sorted by (simp add: moi_ok_def it1_rows)
      ultimately show ?thesis by simp
    next
      case True
      define matching where "matching = (\<lambda>r. is_matching_entry (moi_merge_different_expire_ts it1) r (re_key x) (re_expire_ts x))"
      define collected where "collected = (\<lambda>r. matching r \<and> is_merge (re_value r))"
      define rest where "rest = dropWhile collected (rows (moi_delegate it1))"
      define base where "base = base_of matching rest"
      from True have merge: "is_merge (re_value x)" by simp
      from merge_with_older_rows [OF op it1(1,2) merge sorted matching_def collected_def rest_def base_def]
      obtain it2 where
        it2: "merge_with_older_entries mb nxt x it1
            = Inr (Some (merged_row f (x # takeWhile collected (rows (moi_delegate it1))) base), it2)"
          "inv (moi_delegate it2)" "moi_merge_different_expire_ts it2 = moi_merge_different_expire_ts it1"
          "moi_snapshot_barrier_seq it2 = moi_snapshot_barrier_seq it1"
          "moi_rows rows it2 = (if base = None then rest else tl rest)" by blast
      have "merge_operator_next mb nxt it = merge_with_older_entries mb nxt x it1"
        using fetch Some it1(4) True by (auto simp: merge_operator_next_def split: option.splits)
      moreover have "moi_output f it
          = merged_row f (x # takeWhile collected (rows (moi_delegate it1))) base # moi_output f it2"
        unfolding moi_output_def it2(3,4,5) it1(3,4) rows(1) Some option.case merged_rows.simps
        using True by (simp add: Let_def matching_def collected_def rest_def base_def it1(3))
      moreover have "moi_ok it2"
      proof -
        have "sorted_wrt (row_le ord') rest" using sorted by (simp add: rest_def sorted_wrt_dropWhile)
        then have "sorted_wrt (row_le ord') (if base = None then rest else tl rest)"
          by (cases rest) simp_all
        with it2(2,5) show ?thesis by (simp add: moi_ok_def)
      qed
      ultimately show ?thesis using it2(1) by simp
    qed
  qed
qed

lemma merge_operator_rows:
  assumes "merge_operator mb f"
  shows "row_iterator moi_ok (moi_output f) (merge_operator_next mb nxt)"
proof
  fix it assume ok: "moi_ok it"
  show "\<exists>it'. merge_operator_next mb nxt it = Inr (None, it') \<and> moi_ok it' \<and> moi_output f it' = []"
    if "moi_output f it = []" using moi_next_step [OF assms ok] that by simp
  show "\<exists>it'. merge_operator_next mb nxt it = Inr (Some x, it') \<and> moi_ok it' \<and> moi_output f it' = xs"
    if "moi_output f it = x # xs" for x xs using moi_next_step [OF assms ok] that by simp
qed

text \<open>A seek goes on with the delegate's rows and forgets the buffered entry.\<close>

lemma moi_seek:
  assumes "moi_ok it" "ord' = Ascending" "behind (moi_delegate it) k"
  shows "\<exists>it'. merge_operator_seek seek it k = Inr it' \<and> moi_ok it'
    \<and> moi_merge_different_expire_ts it' = moi_merge_different_expire_ts it
    \<and> moi_snapshot_barrier_seq it' = moi_snapshot_barrier_seq it
    \<and> moi_rows rows it' = dropWhile (\<lambda>e. precedes ord' (re_key e) k) (rows (moi_delegate it))"
proof -
  from assms(1) have I: "inv (moi_delegate it)" by (simp add: moi_ok_def)
  from seek_forward [OF assms(2) I assms(3)] obtain s where s: "seek (moi_delegate it) k = Inr s" "inv s"
    "rows s = dropWhile (\<lambda>e. precedes ord' (re_key e) k) (rows (moi_delegate it))" by blast
  have "sorted_wrt (row_le ord') (rows s)" by (rule rows_sorted [OF s(2)])
  with s show ?thesis
    by (intro exI [of _ "it\<lparr>moi_buffered_entry := None, moi_delegate := s\<rparr>"])
      (simp add: merge_operator_seek_def moi_ok_def moi_rows_def)
qed

end

end
