(* ===== verification/Batch.thy ===== *)
theory Batch
  imports MemTable MergeOperator
begin

section \<open>Write batches: \<open>batch.rs\<close>, \<open>config.rs\<close>\<close>

text \<open>
  A write batch keeps, for each key, the operations that still matter: the last put or delete and
  the merges after it. Its iterator gives them as rows, newest operation first, to transactions that
  read their own writes; \<open>extract_entries\<close> folds them into one row per key when the batch is
  committed. The development shows what a batch holds after any sequence of calls, and that the rows
  of a commit are those of applying the operations one after the other.

  The \<open>i64\<close> addition of \<open>checked_expire_ts\<close> wraps, as it does in a release build.
\<close>

subsection \<open>Time to live\<close>

datatype ttl = TtlDefault | NoExpiry | ExpireAfterMillis u64 | ExpireAtMillis i64

record put_options =
  po_ttl :: ttl

record merge_op_options =
  mo_ttl :: ttl

definition put_checked_expire_ts :: "i64 \<Rightarrow> u64 \<Rightarrow> i64 option" where
  "put_checked_expire_ts now_millis ttl_millis =
     (if ttl_millis > 0x7FFFFFFFFFFFFFFF then None
      else let expire_ts = now_millis + ttl_millis
           in if sint expire_ts < sint now_millis then None else Some expire_ts)"

definition put_expire_ts_from :: "put_options \<Rightarrow> u64 option \<Rightarrow> i64 \<Rightarrow> i64 option" where
  "put_expire_ts_from opts default_ttl_millis now_millis =
     (case po_ttl opts of
        TtlDefault \<Rightarrow> (case default_ttl_millis of
                         None \<Rightarrow> None
                       | Some default_ttl_millis \<Rightarrow> put_checked_expire_ts now_millis default_ttl_millis)
      | NoExpiry \<Rightarrow> None
      | ExpireAfterMillis ttl_millis \<Rightarrow> put_checked_expire_ts now_millis ttl_millis
      | ExpireAtMillis timestamp_millis \<Rightarrow> Some timestamp_millis)"

definition merge_checked_expire_ts :: "i64 \<Rightarrow> u64 \<Rightarrow> i64 option" where
  "merge_checked_expire_ts now_millis ttl_millis =
     (if ttl_millis > 0x7FFFFFFFFFFFFFFF then None
      else let expire_ts = now_millis + ttl_millis
           in if sint expire_ts < sint now_millis then None else Some expire_ts)"

definition merge_expire_ts_from :: "merge_op_options \<Rightarrow> u64 option \<Rightarrow> i64 \<Rightarrow> i64 option" where
  "merge_expire_ts_from opts default_ttl_millis now_millis =
     (case mo_ttl opts of
        TtlDefault \<Rightarrow> (case default_ttl_millis of
                         None \<Rightarrow> None
                       | Some default_ttl_millis \<Rightarrow> merge_checked_expire_ts now_millis default_ttl_millis)
      | NoExpiry \<Rightarrow> None
      | ExpireAfterMillis ttl_millis \<Rightarrow> merge_checked_expire_ts now_millis ttl_millis
      | ExpireAtMillis timestamp_millis \<Rightarrow> Some timestamp_millis)"

subsection \<open>Batches\<close>

datatype write_op = WPut bytes put_options | WDelete | WMerge bytes merge_op_options

record write_batch =
  wb_ops :: "(bytes \<times> write_op list) list"
  wb_op_count :: nat
  wb_has_merge_ops :: bool

fun to_row_entry :: "write_op \<Rightarrow> bytes \<Rightarrow> u64 \<Rightarrow> i64 option \<Rightarrow> i64 option \<Rightarrow> row_entry" where
  "to_row_entry (WPut v _) key seq create_ts expire_ts = row_entry_new key (Value v) seq create_ts expire_ts"
| "to_row_entry WDelete key seq create_ts expire_ts = row_entry_new key Tombstone seq create_ts expire_ts"
| "to_row_entry (WMerge v _) key seq create_ts expire_ts = row_entry_new key (Merge v) seq create_ts expire_ts"

definition write_batch_new :: write_batch where
  "write_batch_new = \<lparr>wb_ops = [], wb_op_count = 0, wb_has_merge_ops = False\<rparr>"

definition assert_kv :: "bytes \<Rightarrow> bytes \<Rightarrow> unit result" where
  "assert_kv key v =
     assert_or (key \<noteq> []) ''key cannot be empty''
       (assert_or (length key \<le> 0xFFFFFFFF) ''key size must be <= u32::MAX''
         (assert_or (length v \<le> 0xFFFFFFFF) ''value size must be <= u32::MAX'' (Inr ())))"

definition put_bytes_with_options :: "bytes \<Rightarrow> bytes \<Rightarrow> put_options \<Rightarrow> write_batch \<Rightarrow> write_batch result" where
  "put_bytes_with_options key v options b =
     bind_result (assert_kv key v) (\<lambda>_.
       let previous = map_of (wb_ops b) key;
           b = b\<lparr>wb_ops := btree_insert key [WPut v options] (wb_ops b)\<rparr>;
           b = b\<lparr>wb_op_count := wb_op_count b + 1\<rparr>
       in Inr (case previous of
                 Some previous \<Rightarrow> b\<lparr>wb_op_count := wb_op_count b - length previous\<rparr>
               | None \<Rightarrow> b))"

definition merge_with_options :: "bytes \<Rightarrow> bytes \<Rightarrow> merge_op_options \<Rightarrow> write_batch \<Rightarrow> write_batch result" where
  "merge_with_options key v options b =
     bind_result (assert_kv key v) (\<lambda>_.
       let op = WMerge v options;
           b = (case map_of (wb_ops b) key of
                  Some ops \<Rightarrow> b\<lparr>wb_ops := btree_insert key (ops @ [op]) (wb_ops b)\<rparr>
                | None \<Rightarrow> b\<lparr>wb_ops := btree_insert key [op] (wb_ops b)\<rparr>)
       in Inr (b\<lparr>wb_has_merge_ops := True, wb_op_count := wb_op_count b + 1\<rparr>))"

definition batch_delete :: "bytes \<Rightarrow> write_batch \<Rightarrow> write_batch result" where
  "batch_delete key b =
     bind_result (assert_kv key []) (\<lambda>_.
       let previous = map_of (wb_ops b) key;
           b = b\<lparr>wb_ops := btree_insert key [WDelete] (wb_ops b)\<rparr>;
           b = b\<lparr>wb_op_count := wb_op_count b + 1\<rparr>
       in Inr (case previous of
                 Some previous \<Rightarrow> b\<lparr>wb_op_count := wb_op_count b - length previous\<rparr>
               | None \<Rightarrow> b))"

definition batch_is_empty :: "write_batch \<Rightarrow> bool" where
  "batch_is_empty b \<longleftrightarrow> wb_ops b = []"

definition batch_keys :: "write_batch \<Rightarrow> bytes set" where
  "batch_keys b = set (map fst (wb_ops b))"

subsection \<open>The iterator over a batch\<close>

record write_batch_iterator =
  wbi_iter :: "row_entry list"
  wbi_ordering :: iteration_order

definition write_op_to_row_entry :: "bytes \<Rightarrow> write_op \<Rightarrow> u64 \<Rightarrow> i64 option \<Rightarrow> u64 option \<Rightarrow> row_entry" where
  "write_op_to_row_entry key op seq now default_ttl_millis =
     (let expire_ts =
            (case (op, now) of
               (WPut _ opts, Some now) \<Rightarrow> put_expire_ts_from opts default_ttl_millis now
             | (WMerge _ opts, Some now) \<Rightarrow> merge_expire_ts_from opts default_ttl_millis now
             | _ \<Rightarrow> None)
      in to_row_entry op key seq now expire_ts)"

text \<open>\<open>BTreeMap::range\<close> panics when the range is inverted, or empty with both ends excluded.\<close>

fun range_panics :: "'k::linorder bound \<Rightarrow> 'k bound \<Rightarrow> bool" where
  "range_panics (Included a) (Included b) = (b < a)"
| "range_panics (Included a) (Excluded b) = (b < a)"
| "range_panics (Excluded a) (Included b) = (b < a)"
| "range_panics (Excluded a) (Excluded b) = (b \<le> a)"
| "range_panics _ _ = False"

definition btree_range :: "'k::linorder bound \<Rightarrow> 'k bound \<Rightarrow> ('k \<times> 'v) list \<Rightarrow> ('k \<times> 'v) list result" where
  "btree_range s e m =
     assert_or (\<not> range_panics s e) ''range start is greater than range end in BTreeMap'' (Inr (entries_range s e m))"

definition write_batch_iterator_new ::
    "write_batch \<Rightarrow> bytes bound \<Rightarrow> bytes bound \<Rightarrow> iteration_order \<Rightarrow> u64 \<Rightarrow> i64 option \<Rightarrow> u64 option
      \<Rightarrow> write_batch_iterator result" where
  "write_batch_iterator_new batch s e ordering' seq now default_ttl_millis =
     bind_result (btree_range s e (wb_ops batch)) (\<lambda>entries.
       let entries = (case ordering' of Ascending \<Rightarrow> entries | Descending \<Rightarrow> rev entries);
           pairs = concat (map (\<lambda>(key, ops). map (\<lambda>op. (key, op)) (rev ops)) entries)
       in Inr \<lparr>wbi_iter = map (\<lambda>(key, op). write_op_to_row_entry key op seq now default_ttl_millis) pairs,
               wbi_ordering = ordering'\<rparr>)"

definition write_batch_init :: "write_batch_iterator \<Rightarrow> write_batch_iterator result" where
  "write_batch_init it = Inr it"

definition write_batch_next :: "write_batch_iterator next_fn" where
  "write_batch_next it =
     (case wbi_iter it of
        [] \<Rightarrow> Inr (None, it)
      | r # rs \<Rightarrow> Inr (Some r, it\<lparr>wbi_iter := rs\<rparr>))"

fun write_batch_seek_loop :: "iteration_order \<Rightarrow> bytes \<Rightarrow> row_entry list \<Rightarrow> row_entry list" where
  "write_batch_seek_loop ordering' next_key [] = []"
| "write_batch_seek_loop ordering' next_key (entry # iter) =
     (if (case ordering' of Ascending \<Rightarrow> re_key entry < next_key | Descending \<Rightarrow> re_key entry > next_key)
      then write_batch_seek_loop ordering' next_key iter
      else entry # iter)"

definition write_batch_seek :: "write_batch_iterator seek_fn" where
  "write_batch_seek it next_key =
     Inr (it\<lparr>wbi_iter := write_batch_seek_loop (wbi_ordering it) next_key (wbi_iter it)\<rparr>)"

subsection \<open>The rows of a commit\<close>

partial_function (option) extract_loop ::
    "'s next_fn \<Rightarrow> (bytes \<Rightarrow> nat option) option \<Rightarrow> 's \<Rightarrow> row_entry list \<Rightarrow> bytes set \<Rightarrow> u64
      \<Rightarrow> (row_entry list \<times> bytes set \<times> u64) result option" where
  "extract_loop nxt extractor it entries touched_segments entries_bytes =
     (case nxt it of
        Inl e \<Rightarrow> Some (Inl e)
      | Inr (None, it) \<Rightarrow> Some (Inr (entries, touched_segments, entries_bytes))
      | Inr (Some entry, it) \<Rightarrow>
          if entries \<noteq> [] \<and> re_key (last entries) = re_key entry
          then (if re_expire_ts (last entries) = re_expire_ts entry
                then Some (Inl (Panic ''iterator emitted duplicate keys''))
                else Some (Inl (IncompatibleMergeTtls (re_key entry) (re_expire_ts (last entries)) (re_expire_ts entry))))
          else
            (case (case extractor of
                     Some ext \<Rightarrow> bind_result (extract_segment_prefix ext (re_key entry)) (\<lambda>p. Inr (insert p touched_segments))
                   | None \<Rightarrow> Inr touched_segments) of
               Inl e \<Rightarrow> Some (Inl e)
             | Inr touched_segments \<Rightarrow>
                 extract_loop nxt extractor it (entries @ [entry]) touched_segments
                   (entries_bytes + of_nat (length (re_key entry) + value_len (re_value entry)))))"

declare extract_loop.simps [code]

definition run_loop :: "'a result option \<Rightarrow> 'a result" where
  "run_loop r = (case r of None \<Rightarrow> Inl NonTermination | Some r \<Rightarrow> r)"

definition extract_entries ::
    "write_batch \<Rightarrow> u64 \<Rightarrow> i64 \<Rightarrow> u64 option \<Rightarrow> merge_batch option \<Rightarrow> (bytes \<Rightarrow> nat option) option
      \<Rightarrow> (row_entry list \<times> bytes set \<times> u64) result" where
  "extract_entries b seq now default_ttl_millis merger extractor =
     bind_result (write_batch_iterator_new b Unbounded Unbounded Ascending seq (Some now) default_ttl_millis) (\<lambda>it.
       if wb_has_merge_ops b
       then (case merger of
               Some mb \<Rightarrow>
                 run_loop (extract_loop (merge_operator_next mb write_batch_next) extractor
                   (merge_operator_iterator_new it False None) [] {} 0)
             | None \<Rightarrow> Inl MergeOperatorMissing)
       else run_loop (extract_loop write_batch_next extractor it [] {} 0))"

subsection \<open>Time to live is exact or absent\<close>

lemma sint_plus_unsigned:
  fixes a b :: i64
  assumes "uint b < 2 ^ 63"
  shows "sint (a + b) = (if sint a + uint b < 2 ^ 63 then sint a + uint b else sint a + uint b - 2 ^ 64)"
proof -
  have r: "- (2 ^ 63) \<le> sint a" "sint a < 2 ^ 63" using sint_range_size [of a] by (simp_all add: word_size)
  have "sint (a + b) = signed_take_bit 63 (sint a + sint b)" using sint_word_ariths(1) [of a b] by simp
  also have "sint b = uint b" using assms signed_take_bit_int_eq_self [of 63 "uint b"] uint_ge_0 [of b]
    by (simp add: sint_uint)
  also have "signed_take_bit 63 (sint a + uint b)
      = (if sint a + uint b < 2 ^ 63 then sint a + uint b else sint a + uint b - 2 ^ 64)"
  proof (cases "sint a + uint b < 2 ^ 63")
    case True
    moreover have "- (2 ^ 63) \<le> sint a + uint b" using r(1) uint_ge_0 [of b] by linarith
    ultimately show ?thesis using signed_take_bit_int_eq_self [of 63 "sint a + uint b"] by simp
  next
    case False
    have "(sint a + uint b + 2 ^ 63) mod 2 ^ 64 = (sint a + uint b + 2 ^ 63 - 2 ^ 64) mod 2 ^ 64"
      by (rule minus_mod_self2 [symmetric])
    also have "\<dots> = sint a + uint b + 2 ^ 63 - 2 ^ 64"
      using False r assms by (intro mod_pos_pos_trivial) simp_all
    finally show ?thesis using False by (simp add: signed_take_bit_eq_take_bit_shift take_bit_eq_mod)
  qed
  finally show ?thesis .
qed

lemma merge_ttl_eq_put_ttl: "merge_checked_expire_ts = put_checked_expire_ts"
  by (simp add: fun_eq_iff merge_checked_expire_ts_def put_checked_expire_ts_def)

text \<open>C38: the expiry time is the exact sum, and it is absent exactly when the ttl or the sum does not fit an i64.\<close>

theorem expire_ts_exact:
  "put_checked_expire_ts now ttl_millis =
     (if uint ttl_millis < 2 ^ 63 \<and> sint now + uint ttl_millis < 2 ^ 63
      then Some (word_of_int (sint now + uint ttl_millis)) else None)"
proof -
  have gt: "ttl_millis > 0x7FFFFFFFFFFFFFFF \<longleftrightarrow> \<not> uint ttl_millis < 2 ^ 63"
    by (auto simp: word_less_alt)
  have "now + ttl_millis = word_of_int (sint now + uint ttl_millis)" by simp
  moreover have "0 \<le> uint ttl_millis" by simp
  ultimately show ?thesis
    unfolding put_checked_expire_ts_def gt Let_def
    using sint_plus_unsigned [of ttl_millis now] by (cases "uint ttl_millis < 2 ^ 63") auto
qed

subsection \<open>What a batch holds\<close>

fun is_wmerge :: "write_op \<Rightarrow> bool" where
  "is_wmerge (WMerge _ _) = True"
| "is_wmerge _ = False"

definition ops_ok :: "write_op list \<Rightarrow> bool" where
  "ops_ok ops \<longleftrightarrow> ops \<noteq> [] \<and> list_all is_wmerge (tl ops)"

definition batch_ok :: "write_batch \<Rightarrow> bool" where
  "batch_ok b \<longleftrightarrow> strict_keys (wb_ops b)
     \<and> (\<forall>(k, ops)\<in>set (wb_ops b). k \<noteq> [] \<and> ops_ok ops \<and> (\<not> wb_has_merge_ops b \<longrightarrow> \<not> is_wmerge (hd ops) \<and> tl ops = []))
     \<and> wb_op_count b = (\<Sum>p\<leftarrow>wb_ops b. length (snd p))"

fun apply_write :: "bytes \<times> write_op \<Rightarrow> write_batch \<Rightarrow> write_batch result" where
  "apply_write (key, WPut v opts) b = put_bytes_with_options key v opts b"
| "apply_write (key, WMerge v opts) b = merge_with_options key v opts b"
| "apply_write (key, WDelete) b = batch_delete key b"

fun apply_writes :: "(bytes \<times> write_op) list \<Rightarrow> write_batch \<Rightarrow> write_batch result" where
  "apply_writes [] b = Inr b"
| "apply_writes (w # ws) b = bind_result (apply_write w b) (apply_writes ws)"

text \<open>The operations on a key, and those of them that still matter (newest first).\<close>

definition key_history :: "bytes \<Rightarrow> (bytes \<times> write_op) list \<Rightarrow> write_op list" where
  "key_history k ws = map snd (filter (\<lambda>w. fst w = k) ws)"

fun live :: "write_op list \<Rightarrow> write_op list" where
  "live [] = []"
| "live (op # older) = (if is_wmerge op then op # live older else [op])"

definition live_ops :: "bytes \<Rightarrow> (bytes \<times> write_op) list \<Rightarrow> write_op list" where
  "live_ops k ws = rev (live (rev (key_history k ws)))"

lemma live_Nil_iff [simp]: "live ops = [] \<longleftrightarrow> ops = []"
  by (cases ops) auto

lemma assert_kv_Inr: "assert_kv key v = Inr u \<Longrightarrow> key \<noteq> []"
  by (simp add: assert_kv_def result_simps)

lemma apply_writes_append: "apply_writes (ws @ vs) b = bind_result (apply_writes ws b) (apply_writes vs)"
proof (induction ws arbitrary: b)
  case (Cons w ws)
  then show ?case by (cases "apply_write w b") simp_all
qed simp

text \<open>The three operations replace or extend the operations of the key and count them.\<close>

definition next_ops :: "write_op \<Rightarrow> write_op list option \<Rightarrow> write_op list" where
  "next_ops op previous = (if is_wmerge op then (case previous of Some ops \<Rightarrow> ops | None \<Rightarrow> []) @ [op] else [op])"

lemma apply_write_ops:
  assumes "apply_write (k, op) b = Inr b'" "batch_ok b"
  shows "k \<noteq> []" "wb_ops b' = btree_insert k (next_ops op (map_of (wb_ops b) k)) (wb_ops b)"
    "wb_has_merge_ops b' = (wb_has_merge_ops b \<or> is_wmerge op)"
    "wb_op_count b' = (\<Sum>p\<leftarrow>wb_ops b'. length (snd p))"
proof -
  have strict: "strict_keys (wb_ops b)" and cnt: "wb_op_count b = (\<Sum>p\<leftarrow>wb_ops b. length (snd p))"
    using assms(2) by (simp_all add: batch_ok_def)
  note sum = sum_btree_insert [OF strict, of length k]
  have le: "length ops \<le> (\<Sum>p\<leftarrow>wb_ops b. length (snd p))" if "map_of (wb_ops b) k = Some ops" for ops
    using map_of_SomeD [OF that] member_le_sum_list [of "length ops" "map (\<lambda>p. length (snd p)) (wb_ops b)"] by force
  have "k \<noteq> [] \<and> wb_ops b' = btree_insert k (next_ops op (map_of (wb_ops b) k)) (wb_ops b)
    \<and> wb_has_merge_ops b' = (wb_has_merge_ops b \<or> is_wmerge op)
    \<and> wb_op_count b' = (\<Sum>p\<leftarrow>wb_ops b'. length (snd p))"
  proof (cases op)
    case (WPut v opts)
    with assms(1) obtain u where "assert_kv k v = Inr u" by (auto simp: put_bytes_with_options_def result_simps)
    with assms(1) WPut cnt le sum [of "[WPut v opts]"] show ?thesis
      by (cases "map_of (wb_ops b) k") (auto simp: put_bytes_with_options_def next_ops_def dest: assert_kv_Inr)
  next
    case WDelete
    with assms(1) obtain u where "assert_kv k [] = Inr u" by (auto simp: batch_delete_def result_simps)
    with assms(1) WDelete cnt le sum [of "[WDelete]"] show ?thesis
      by (cases "map_of (wb_ops b) k") (auto simp: batch_delete_def next_ops_def dest: assert_kv_Inr)
  next
    case (WMerge v opts)
    with assms(1) obtain u where "assert_kv k v = Inr u" by (auto simp: merge_with_options_def result_simps)
    with assms(1) WMerge cnt sum [of "next_ops op (map_of (wb_ops b) k)"] show ?thesis
      by (cases "map_of (wb_ops b) k") (auto simp: merge_with_options_def next_ops_def dest: assert_kv_Inr)
  qed
  then show "k \<noteq> []" "wb_ops b' = btree_insert k (next_ops op (map_of (wb_ops b) k)) (wb_ops b)"
    "wb_has_merge_ops b' = (wb_has_merge_ops b \<or> is_wmerge op)"
    "wb_op_count b' = (\<Sum>p\<leftarrow>wb_ops b'. length (snd p))" by simp_all
qed

lemma next_ops_ok:
  assumes "\<And>ops. previous = Some ops \<Longrightarrow> ops_ok ops"
  shows "ops_ok (next_ops op previous)"
  using assms by (cases previous) (auto simp: next_ops_def ops_ok_def)

lemma apply_write_ok:
  assumes "apply_write w b = Inr b'" "batch_ok b"
  shows "batch_ok b'"
proof -
  obtain k op where w: "w = (k, op)" by (cases w)
  note eqs = apply_write_ops [OF assms(1) [unfolded w] assms(2)]
  have strict: "strict_keys (wb_ops b)" using assms(2) by (simp add: batch_ok_def)
  have prev: "ops_ok ops \<and> (\<not> wb_has_merge_ops b \<longrightarrow> \<not> is_wmerge (hd ops) \<and> tl ops = [])"
    if "map_of (wb_ops b) k = Some ops" for ops
    using map_of_SomeD [OF that] assms(2) by (auto simp: batch_ok_def)
  have ok: "ops_ok (next_ops op (map_of (wb_ops b) k))" using prev by (intro next_ops_ok) blast
  have "\<not> is_wmerge op \<Longrightarrow> next_ops op p = [op]" for p by (simp add: next_ops_def)
  with ok eqs assms(2) show ?thesis
    unfolding batch_ok_def eqs(2) set_btree_insert [OF strict]
    by (auto simp: btree_insert_strict)
qed

lemma write_batch_new_ok: "batch_ok write_batch_new"
  by (simp add: batch_ok_def write_batch_new_def)

lemma key_history_snoc: "key_history k (ws @ [w]) = key_history k ws @ (if fst w = k then [snd w] else [])"
  by (simp add: key_history_def)

lemma apply_writes_contents:
  "apply_writes ws write_batch_new = Inr b \<Longrightarrow>
    batch_ok b \<and> (\<forall>k. map_of (wb_ops b) k = (if key_history k ws = [] then None else Some (live_ops k ws)))"
proof (induction ws arbitrary: b rule: rev_induct)
  case Nil
  then show ?case using write_batch_new_ok by (auto simp: write_batch_new_def key_history_def)
next
  case (snoc w ws)
  from snoc.prems obtain b0 where b0: "apply_writes ws write_batch_new = Inr b0" "apply_write w b0 = Inr b"
    by (auto simp: apply_writes_append result_simps)
  obtain k op where w: "w = (k, op)" by (cases w)
  from snoc.IH [OF b0(1)] have ok: "batch_ok b0"
    and get: "\<And>k. map_of (wb_ops b0) k = (if key_history k ws = [] then None else Some (live_ops k ws))" by auto
  note eqs = apply_write_ops [OF b0(2) [unfolded w] ok]
  have "map_of (wb_ops b) k' = (if key_history k' (ws @ [w]) = [] then None else Some (live_ops k' (ws @ [w])))" for k'
  proof (cases "k' = k")
    case True
    have "next_ops op (map_of (wb_ops b0) k) = live_ops k (ws @ [w])"
      unfolding get live_ops_def key_history_snoc w by (simp add: next_ops_def)
    then show ?thesis using True by (simp add: eqs(2) map_of_btree_insert key_history_snoc w)
  next
    case False
    then show ?thesis by (simp add: eqs(2) map_of_btree_insert key_history_snoc live_ops_def get w)
  qed
  with apply_write_ok [OF b0(2) ok] show ?case by blast
qed

subsection \<open>The rows of the iterator\<close>

definition group_rows :: "u64 \<Rightarrow> i64 option \<Rightarrow> u64 option \<Rightarrow> bytes \<times> write_op list \<Rightarrow> row_entry list" where
  "group_rows seq now dttl = (\<lambda>(k, ops). map (\<lambda>op. write_op_to_row_entry k op seq now dttl) (rev ops))"

lemma write_op_to_row_entry_simps [simp]:
  "re_key (write_op_to_row_entry k op seq now dttl) = k"
  "re_seq (write_op_to_row_entry k op seq now dttl) = seq"
  "re_create_ts (write_op_to_row_entry k op seq now dttl) = now"
  by (cases op; simp add: write_op_to_row_entry_def row_entry_new_def Let_def)+

lemma group_rows_mem:
  "r \<in> set (group_rows seq now dttl p) \<Longrightarrow> re_key r = fst p \<and> re_seq r = seq \<and> re_create_ts r = now"
  by (cases p) (auto simp: group_rows_def)

lemma write_batch_iterator_rows:
  "write_batch_iterator_new b s e ord' seq now dttl = Inr it \<longleftrightarrow> \<not> range_panics s e \<and>
     it = \<lparr>wbi_iter = concat (map (group_rows seq now dttl)
              (case ord' of Ascending \<Rightarrow> entries_range s e (wb_ops b) | Descending \<Rightarrow> rev (entries_range s e (wb_ops b)))),
           wbi_ordering = ord'\<rparr>"
  by (auto simp: write_batch_iterator_new_def btree_range_def assert_or_def group_rows_def map_concat
      comp_def case_prod_unfold)

lemma precedes_eq: "precedes Ascending = (<)" "precedes Descending = (\<lambda>a b. b < a)"
  by (simp_all add: fun_eq_iff)

lemma sorted_groups:
  "sorted_wrt (precedes ord') (map fst ps) \<Longrightarrow> sorted_wrt (row_le ord') (concat (map (group_rows seq now dttl) ps))"
proof (induction ps)
  case (Cons p ps)
  have "sorted_wrt (row_le ord') (group_rows seq now dttl p)"
    by (cases p) (auto simp: group_rows_def sorted_wrt_map row_le_def sorted_wrt_iff_nth_less)
  moreover have "row_le ord' x y" if "x \<in> set (group_rows seq now dttl p)" "q \<in> set ps" "y \<in> set (group_rows seq now dttl q)" for x y q
  proof -
    have "precedes ord' (fst p) (fst q)" using Cons.prems that(2) by simp
    then show ?thesis using group_rows_mem [OF that(1)] group_rows_mem [OF that(3)] by (auto simp: row_le_def)
  qed
  ultimately show ?case using Cons by (auto simp: sorted_wrt_append)
qed simp

lemma batch_rows_sorted:
  assumes "batch_ok b" "write_batch_iterator_new b s e ord' seq now dttl = Inr it"
  shows "sorted_wrt (row_le ord') (wbi_iter it)" "wbi_ordering it = ord'"
proof -
  have strict: "strict_keys (entries_range s e (wb_ops b))"
    using assms(1) by (simp add: batch_ok_def entries_range_def strict_keys_filter)
  then have "sorted_wrt (precedes ord')
      (map fst (case ord' of Ascending \<Rightarrow> entries_range s e (wb_ops b) | Descending \<Rightarrow> rev (entries_range s e (wb_ops b))))"
    by (cases ord') (simp_all add: precedes_eq rev_map [symmetric] sorted_wrt_rev)
  with assms(2) show "sorted_wrt (row_le ord') (wbi_iter it)" "wbi_ordering it = ord'"
    unfolding write_batch_iterator_rows by (simp_all add: sorted_groups)
qed

lemma write_batch_seek_loop_eq:
  "write_batch_seek_loop ord' k rs = dropWhile (\<lambda>e. precedes ord' (re_key e) k) rs"
  by (induction rs) (simp_all split: iteration_order.split)

definition batch_iter_ok :: "iteration_order \<Rightarrow> write_batch_iterator \<Rightarrow> bool" where
  "batch_iter_ok ord' it \<longleftrightarrow> sorted_wrt (row_le ord') (wbi_iter it) \<and> wbi_ordering it = ord'"

interpretation wbi: row_source "batch_iter_ok ord'" wbi_iter write_batch_next write_batch_seek ord' "\<lambda>_ _. True"
    write_batch_init "batch_iter_ok ord'" wbi_iter
  by unfold_locales
    (auto simp: batch_iter_ok_def write_batch_next_def write_batch_seek_def write_batch_init_def
      write_batch_seek_loop_eq intro: sorted_wrt_dropWhile)

subsection \<open>The rows of a commit are those of the operations, one after the other\<close>

fun extract_rows ::
    "(bytes \<Rightarrow> nat option) option \<Rightarrow> row_entry list \<Rightarrow> row_entry list \<Rightarrow> bytes set \<Rightarrow> u64
      \<Rightarrow> (row_entry list \<times> bytes set \<times> u64) result" where
  "extract_rows extractor [] entries segs n = Inr (entries, segs, n)"
| "extract_rows extractor (entry # rs) entries segs n =
     (if entries \<noteq> [] \<and> re_key (last entries) = re_key entry
      then (if re_expire_ts (last entries) = re_expire_ts entry
            then Inl (Panic ''iterator emitted duplicate keys'')
            else Inl (IncompatibleMergeTtls (re_key entry) (re_expire_ts (last entries)) (re_expire_ts entry)))
      else bind_result
             (case extractor of
                Some ext \<Rightarrow> bind_result (extract_segment_prefix ext (re_key entry)) (\<lambda>p. Inr (insert p segs))
              | None \<Rightarrow> Inr segs)
             (\<lambda>segs. extract_rows extractor rs (entries @ [entry]) segs
                (n + of_nat (length (re_key entry) + value_len (re_value entry)))))"

lemma extract_loop_rows:
  fixes rows :: "'s \<Rightarrow> row_entry list"
  assumes it: "row_iterator I rows nxt" and "I s" "rows s = rs"
  shows "extract_loop nxt extractor s entries segs n = Some (extract_rows extractor rs entries segs n)"
  using assms(2,3)
proof (induction rs arbitrary: s entries segs n)
  case Nil
  from row_iterator.next_end [OF it Nil] obtain s' where "nxt s = Inr (None, s')" by blast
  then show ?case by (simp add: extract_loop.simps [of nxt extractor s])
next
  case (Cons x xs)
  from row_iterator.next_row [OF it Cons.prems] obtain s' where s': "nxt s = Inr (Some x, s')" "I s'" "rows s' = xs"
    by blast
  note IH = Cons.IH [OF s'(2,3)]
  show ?case
    unfolding extract_loop.simps [of nxt extractor s] s'(1) sum.case prod.case option.case IH
    by (cases extractor) (auto split: sum.splits)
qed

text \<open>The effect of an operation on what the batch says about its key.\<close>

fun apply_op :: "(bytes \<Rightarrow> bytes \<Rightarrow> bytes) \<Rightarrow> value_deletable option \<Rightarrow> write_op \<Rightarrow> value_deletable option" where
  "apply_op g _ (WPut v _) = Some (Value v)"
| "apply_op g _ WDelete = Some Tombstone"
| "apply_op g None (WMerge a _) = Some (Merge a)"
| "apply_op g (Some Tombstone) (WMerge a _) = Some (Value a)"
| "apply_op g (Some (Value v)) (WMerge a _) = Some (Value (g v a))"
| "apply_op g (Some (Merge v)) (WMerge a _) = Some (Merge (g v a))"

fun op_expire :: "i64 \<Rightarrow> u64 option \<Rightarrow> write_op \<Rightarrow> i64 option" where
  "op_expire now dttl (WPut _ opts) = put_expire_ts_from opts dttl now"
| "op_expire now dttl (WMerge _ opts) = merge_expire_ts_from opts dttl now"
| "op_expire now dttl WDelete = None"

definition committed_row ::
    "(bytes \<Rightarrow> bytes \<Rightarrow> bytes \<Rightarrow> bytes) \<Rightarrow> u64 \<Rightarrow> i64 \<Rightarrow> u64 option \<Rightarrow> bytes \<Rightarrow> write_op list \<Rightarrow> row_entry" where
  "committed_row f seq now dttl k ops =
     \<lparr>re_key = k, re_value = the (foldl (apply_op (f k)) None ops), re_seq = seq, re_create_ts = Some now,
      re_expire_ts = op_expire now dttl (last ops)\<rparr>"

lemma row_of_op: "write_op_to_row_entry k op seq (Some now) dttl =
    \<lparr>re_key = k, re_value = (case op of WPut v _ \<Rightarrow> Value v | WDelete \<Rightarrow> Tombstone | WMerge v _ \<Rightarrow> Merge v),
     re_seq = seq, re_create_ts = Some now, re_expire_ts = op_expire now dttl op\<rparr>"
  by (cases op) (simp_all add: write_op_to_row_entry_def row_entry_new_def)

fun wop_bytes :: "write_op \<Rightarrow> bytes" where
  "wop_bytes (WMerge a _) = a"
| "wop_bytes (WPut a _) = a"
| "wop_bytes WDelete = []"

lemma foldl_merges:
  "list_all is_wmerge ms \<Longrightarrow> foldl (apply_op g) (Some (Value v)) ms = Some (Value (foldl g v (map wop_bytes ms)))"
  "list_all is_wmerge ms \<Longrightarrow> foldl (apply_op g) (Some (Merge v)) ms = Some (Merge (foldl g v (map wop_bytes ms)))"
proof (induction ms arbitrary: v)
  case (Cons m ms)
  { case 1 with Cons show ?case by (cases m) simp_all }
  { case 2 with Cons show ?case by (cases m) simp_all }
qed simp_all

lemma foldl_merges_total:
  assumes "list_all is_wmerge ms" "ms \<noteq> []"
  shows "foldl (apply_op g) None ms = Some (Merge (total g (map wop_bytes ms)))"
    "foldl (apply_op g) (Some Tombstone) ms = Some (Value (total g (map wop_bytes ms)))"
proof -
  from assms obtain m ms' where "ms = m # ms'" "is_wmerge m" "list_all is_wmerge ms'" by (cases ms) auto
  then show "foldl (apply_op g) None ms = Some (Merge (total g (map wop_bytes ms)))"
    "foldl (apply_op g) (Some Tombstone) ms = Some (Value (total g (map wop_bytes ms)))"
    by (cases m; simp add: foldl_merges)+
qed

lemma track_const:
  assumes "rs \<noteq> []"
  shows "(\<forall>r\<in>set rs. re_expire_ts r = e) \<Longrightarrow> track_expire rs None = e"
    "(\<forall>r\<in>set rs. re_create_ts r = e) \<Longrightarrow> track_create rs None = e"
proof -
  have same: "merge_options i64_min e e = e" "merge_options i64_max e e = e"
    by (cases e; simp add: i64_min_def i64_max_def)+
  have e: "(\<forall>r\<in>set rs. re_expire_ts r = e) \<Longrightarrow> track_expire rs e = e" for rs
    by (induction rs) (simp_all add: track_expire_def same)
  have c: "(\<forall>r\<in>set rs. re_create_ts r = e) \<Longrightarrow> track_create rs e = e" for rs
    by (induction rs) (simp_all add: track_create_def same)
  from assms obtain x xs where rs: "rs = x # xs" by (cases rs) auto
  show "(\<forall>r\<in>set rs. re_expire_ts r = e) \<Longrightarrow> track_expire rs None = e"
    using e [of xs] rs by (simp add: track_expire_def)
  show "(\<forall>r\<in>set rs. re_create_ts r = e) \<Longrightarrow> track_create rs None = e"
    using c [of xs] rs by (simp add: track_create_def)
qed

text \<open>Without \<open>merge_different_expire_ts\<close>, a returned row has the expiry time of the newest row it stands for.\<close>

lemma merged_rows_head:
  "\<exists>b bs. merged_rows f False None (y # ys) = b # bs \<and> re_key b = re_key y \<and> re_expire_ts b = re_expire_ts y"
proof (cases "is_merge (re_value y)")
  case True
  define matching where "matching = (\<lambda>r. is_matching_entry False r (re_key y) (re_expire_ts y))"
  define collected where "collected = (\<lambda>r. matching r \<and> is_merge (re_value r))"
  define base where "base = base_of matching (dropWhile collected ys)"
  define used where "used = (y # takeWhile collected ys) @ (case base of None \<Rightarrow> [] | Some b \<Rightarrow> [b])"
  have "matching b" if "base = Some b" for b
    using that by (cases "dropWhile collected ys") (simp_all add: base_def base_of_def split: if_splits)
  moreover have "matching r" if "r \<in> set (takeWhile collected ys)" for r
    using set_takeWhileD [OF that] by (simp add: collected_def)
  ultimately have "re_expire_ts r = re_expire_ts y" if "r \<in> set used" for r
    using that by (cases base) (auto simp: used_def matching_def is_matching_entry_def)
  then have "\<forall>r\<in>set used. re_expire_ts r = re_expire_ts y" by blast
  then have "track_expire used None = re_expire_ts y" by (intro track_const) (simp_all add: used_def)
  then have "re_expire_ts (merged_row f (y # takeWhile collected ys) base) = re_expire_ts y"
    by (simp add: merged_row_def Let_def used_def)
  moreover have "re_key (merged_row f (y # takeWhile collected ys) base) = re_key y"
    by (simp add: merged_row_def Let_def)
  moreover have "\<exists>bs. merged_rows f False None (y # ys) = merged_row f (y # takeWhile collected ys) base # bs"
    unfolding merged_rows.simps using True
    by (simp only: Let_def matching_def [symmetric] collected_def [symmetric] base_def [symmetric]) simp
  ultimately show ?thesis by blast
qed simp

definition uniform_ttl :: "i64 \<Rightarrow> u64 option \<Rightarrow> write_op list \<Rightarrow> bool" where
  "uniform_ttl now dttl ops \<longleftrightarrow> (\<forall>op\<in>set ops. op_expire now dttl op = op_expire now dttl (last ops))"

lemma base_of_other: "\<forall>y\<in>set ys. \<not> matching y \<Longrightarrow> base_of matching ys = None"
  by (cases ys) (simp_all add: base_of_def)

lemma takeWhile_group:
  assumes "\<forall>x\<in>set xs. P x" "ys = [] \<or> \<not> P (hd ys)"
  shows "takeWhile P (xs @ ys) = xs" "dropWhile P (xs @ ys) = ys"
  using assms by (induction xs; cases ys; simp)+

lemma merged_row_ops:
  assumes ms: "ms \<noteq> []" "list_all is_wmerge ms"
    and ops: "base = None \<and> ops = ms
      \<or> (\<exists>o'. base = Some (write_op_to_row_entry k o' seq (Some now) dttl) \<and> \<not> is_wmerge o' \<and> ops = o' # ms)"
    and uni: "uniform_ttl now dttl ops"
  shows "merged_row f (map (\<lambda>op. write_op_to_row_entry k op seq (Some now) dttl) (rev ms)) base
    = committed_row f seq now dttl k ops"
proof -
  define R where "R = (\<lambda>op. write_op_to_row_entry k op seq (Some now) dttl)"
  define e where "e = op_expire now dttl (last ops)"
  define used where "used = map R (rev ms) @ (case base of None \<Rightarrow> [] | Some b \<Rightarrow> [b])"
  have hd: "hd (map R (rev ms)) = R (last ms)" using ms(1) by (simp add: hd_map hd_rev)
  have set: "set used = R ` set ops" using ops by (auto simp: used_def R_def)
  have "map operand (map R ms) = map wop_bytes ms"
    using ms(2) by (auto simp: list_all_iff operand_def R_def row_of_op split: write_op.splits)
  then have vals: "rev (map operand (map R (rev ms))) = map wop_bytes ms" by (simp add: rev_map)
  have e: "track_expire used None = e"
    using uni ms(1) set by (intro track_const) (auto simp: used_def uniform_ttl_def e_def R_def row_of_op)
  have c: "track_create used None = Some now"
    using ms(1) set by (intro track_const) (auto simp: used_def R_def row_of_op)
  have v: "(if base \<noteq> None then Value v else Merge v) = the (foldl (apply_op (f k)) None ops)"
    if "v = combine (f k) (Option.bind base (as_bytes \<circ> re_value)) (map wop_bytes ms)" for v
  proof (cases base)
    case None
    with ops that show ?thesis using foldl_merges_total(1) [OF ms(2,1)] by simp
  next
    case (Some b)
    with ops obtain o' where b: "b = R o'" "\<not> is_wmerge o'" "ops = o' # ms" by (auto simp: R_def)
    with Some that show ?thesis
      using foldl_merges(1) [OF ms(2)] foldl_merges_total(2) [OF ms(2,1)]
      by (cases o') (simp_all add: R_def row_of_op)
  qed
  have k: "re_key (R (last ms)) = k" "re_seq (R (last ms)) = seq" by (simp_all add: R_def)
  show ?thesis
    unfolding R_def [symmetric] merged_row_def Let_def hd vals k v [OF refl] used_def [symmetric] e c
      committed_row_def e_def ..
qed

lemma merged_group:
  assumes ok: "ops_ok ops" and uni: "uniform_ttl now dttl ops" and ys: "\<forall>y\<in>set ys. re_key y \<noteq> k"
  shows "merged_rows f False None (group_rows seq (Some now) dttl (k, ops) @ ys)
    = committed_row f seq now dttl k ops # merged_rows f False None ys"
proof -
  define R where "R = (\<lambda>op. write_op_to_row_entry k op seq (Some now) dttl)"
  have R: "re_key (R op) = k" "is_merge (re_value (R op)) = is_wmerge op" "re_expire_ts (R op) = op_expire now dttl op" for op
    by (cases op; simp add: R_def row_of_op)+
  obtain o' ts where ops: "ops = o' # ts" "list_all is_wmerge ts" using ok by (cases ops) (auto simp: ops_ok_def)
  define ms where "ms = (if is_wmerge o' then ops else ts)"
  define base where "base = (if is_wmerge o' then None else Some (R o'))"
  have ms: "list_all is_wmerge ms" using ops by (simp add: ms_def)
  have group: "group_rows seq (Some now) dttl (k, ops) = map R (rev ms) @ (if is_wmerge o' then [] else [R o'])"
    by (simp add: group_rows_def R_def ops(1) ms_def)
  show ?thesis
  proof (cases "ms = []")
    case True
    then have single: "\<not> is_wmerge o'" "ops = [o']" using ops(1) by (auto simp: ms_def split: if_splits)
    then have row: "R o' = committed_row f seq now dttl k ops"
      by (cases o') (simp_all add: R_def row_of_op committed_row_def)
    have "group_rows seq (Some now) dttl (k, ops) @ ys = R o' # ys" using single(1) True by (simp add: group)
    moreover have "merged_rows f False None (R o' # ys) = R o' # merged_rows f False None ys"
      using single(1) R(2) [of o'] by simp
    ultimately show ?thesis by (simp only: row)
  next
    case False
    then obtain x xs where x: "rev ms = x # xs" by (cases "rev ms") auto
    have set_ms: "set (x # xs) = set ms" unfolding x [symmetric] by (rule set_rev)
    have "set ms \<subseteq> set ops" by (auto simp: ms_def ops(1))
    then have sub: "set (x # xs) \<subseteq> set ops" by (rule ord_eq_le_trans [OF set_ms])
    have merges: "is_wmerge op" if "op \<in> set (x # xs)" for op
      using that ms set_ms unfolding list_all_iff by blast
    define matching where "matching = (\<lambda>r. is_matching_entry False r (re_key (R x)) (re_expire_ts (R x)))"
    define collected where "collected = (\<lambda>r. matching r \<and> is_merge (re_value r))"
    have m: "matching (R op)" if "op \<in> set ops" for op
    proof -
      have "x \<in> set ops" using sub by simp
      with that uni have "op_expire now dttl x = op_expire now dttl (last ops)" "op_expire now dttl op = op_expire now dttl (last ops)"
        unfolding uniform_ttl_def by blast+
      then have "op_expire now dttl x = op_expire now dttl op" by (rule trans [OF _ sym])
      then show ?thesis by (simp add: matching_def is_matching_entry_def R)
    qed
    have ys': "\<forall>y\<in>set ys. \<not> matching y" using ys R(1) by (auto simp: matching_def is_matching_entry_def)
    have c: "\<forall>r\<in>set (map R xs). collected r"
    proof
      fix r assume "r \<in> set (map R xs)"
      then obtain op where "r = R op" "op \<in> set (x # xs)" by auto
      with sub m [of op] R(2) [of op] merges [of op] show "collected r" unfolding collected_def by blast
    qed
    have nc: "\<not> collected (R o')" if "\<not> is_wmerge o'" using that R(2) by (simp add: collected_def)
    define rest where "rest = (if is_wmerge o' then [] else [R o']) @ ys"
    have tw: "takeWhile collected (map R xs @ rest) = map R xs" "dropWhile collected (map R xs @ rest) = rest"
    proof -
      have "rest = [] \<or> \<not> collected (hd rest)"
        using nc ys' by (cases "is_wmerge o'"; cases ys) (simp_all add: rest_def collected_def)
      then show "takeWhile collected (map R xs @ rest) = map R xs" "dropWhile collected (map R xs @ rest) = rest"
        by (rule takeWhile_group [OF c])+
    qed
    have b: "base_of matching rest = base" "(if base = None then rest else tl rest) = ys"
      using m [of o'] ops(1) base_of_other [OF ys'] by (cases "is_wmerge o'"; simp add: rest_def base_def base_of_def)+
    have "is_merge (re_value (R x))" using merges [of x] R(2) [of x] by simp
    then have "merged_rows f False None (R x # map R xs @ rest) = merged_row f (R x # map R xs) base # merged_rows f False None ys"
      unfolding merged_rows.simps
      by (simp only: Let_def matching_def [symmetric] collected_def [symmetric] tw b) simp
    moreover have "merged_row f (map R (rev ms)) base = committed_row f seq now dttl k ops"
      unfolding R_def by (rule merged_row_ops [OF False ms _ uni]) (auto simp: base_def ms_def R_def ops(1))
    ultimately show ?thesis by (simp add: group x rest_def)
  qed
qed

text \<open>Operations of a key with different expiry times leave two rows for the key.\<close>

lemma merged_group_mixed:
  assumes ok: "ops_ok ops" and mixed: "\<not> uniform_ttl now dttl ops"
  shows "\<exists>a b zs. merged_rows f False None (group_rows seq (Some now) dttl (k, ops) @ ys) = a # b # zs
    \<and> re_key a = k \<and> re_key b = k \<and> re_expire_ts a = op_expire now dttl (last ops) \<and> re_expire_ts b \<noteq> re_expire_ts a"
proof -
  define R where "R = (\<lambda>op. write_op_to_row_entry k op seq (Some now) dttl)"
  have R: "re_key (R op) = k" "is_merge (re_value (R op)) = is_wmerge op" "re_expire_ts (R op) = op_expire now dttl op" for op
    by (cases op; simp add: R_def row_of_op)+
  from ok obtain x us where x: "rev ops = x # us" by (cases "rev ops") (auto simp: ops_ok_def)
  have last: "last ops = x" using x by (simp add: last_rev [of "x # us"] rev_swap)
  have "\<exists>op\<in>set us. op_expire now dttl op \<noteq> op_expire now dttl x"
  proof -
    have "set ops = set (x # us)" unfolding x [symmetric] by simp
    with mixed last show ?thesis by (auto simp: uniform_ttl_def)
  qed
  then obtain vs y ws where us: "us = vs @ y # ws" "op_expire now dttl y \<noteq> op_expire now dttl x"
    "\<forall>op\<in>set vs. op_expire now dttl op = op_expire now dttl x"
    using split_list_first_prop [of us "\<lambda>op. op_expire now dttl op \<noteq> op_expire now dttl x"] by auto
  have ops: "ops = rev ws @ y # rev vs @ [x]" using x us(1) by (simp add: rev_swap)
  then have merges: "\<forall>op\<in>set (vs @ [x]). is_wmerge op"
    using ok by (cases "rev ws") (auto simp: ops_ok_def list_all_iff)
  define matching where "matching = (\<lambda>r. is_matching_entry False r (re_key (R x)) (re_expire_ts (R x)))"
  define collected where "collected = (\<lambda>r. matching r \<and> is_merge (re_value r))"
  define rest where "rest = R y # map R ws @ ys"
  have nm: "\<not> matching (R y)" using us(2) by (simp add: matching_def is_matching_entry_def R)
  have c: "\<forall>r\<in>set (map R vs). collected r"
    using us(3) merges by (auto simp: collected_def matching_def is_matching_entry_def R)
  have tw: "takeWhile collected (map R vs @ rest) = map R vs" "dropWhile collected (map R vs @ rest) = rest"
    using takeWhile_group [OF c, of rest] nm by (simp_all add: rest_def collected_def)
  have base: "base_of matching rest = None" using nm by (simp add: rest_def base_of_def)
  have "is_merge (re_value (R x))" using merges R(2) [of x] by simp
  then have step: "merged_rows f False None (R x # map R vs @ rest) = merged_row f (R x # map R vs) None # merged_rows f False None rest"
    unfolding merged_rows.simps
    by (simp only: Let_def matching_def [symmetric] collected_def [symmetric] tw base) simp
  obtain b bs where b: "merged_rows f False None rest = b # bs" "re_key b = k" "re_expire_ts b = op_expire now dttl y"
    using merged_rows_head [of f "R y" "map R ws @ ys"] by (auto simp: rest_def R)
  have "track_expire (R x # map R vs) None = op_expire now dttl x"
    using us(3) by (intro track_const) (auto simp: R)
  then have "re_expire_ts (merged_row f (R x # map R vs) None) = op_expire now dttl (last ops)"
    by (simp add: merged_row_def Let_def last)
  moreover have "re_key (merged_row f (R x # map R vs) None) = k" by (simp add: merged_row_def Let_def R)
  moreover have "group_rows seq (Some now) dttl (k, ops) @ ys = R x # map R vs @ rest"
    unfolding group_rows_def by (simp add: x us(1) R_def rest_def)
  ultimately show ?thesis using step b us(2) last by auto
qed

text \<open>The loop of \<open>extract_entries\<close> over rows of ascending keys.\<close>

definition extractable :: "(bytes \<Rightarrow> nat option) option \<Rightarrow> bytes \<Rightarrow> bool" where
  "extractable extractor k \<longleftrightarrow>
     (case extractor of None \<Rightarrow> True | Some ext \<Rightarrow> (case ext k of None \<Rightarrow> False | Some n \<Rightarrow> 0 < n \<and> n \<le> length k))"

definition touched_by :: "(bytes \<Rightarrow> nat option) option \<Rightarrow> row_entry list \<Rightarrow> bytes set" where
  "touched_by extractor rs =
     (case extractor of None \<Rightarrow> {} | Some ext \<Rightarrow> (\<lambda>r. take (the (ext (re_key r))) (re_key r)) ` set rs)"

definition rows_bytes :: "row_entry list \<Rightarrow> u64" where
  "rows_bytes rs = (\<Sum>r\<leftarrow>rs. of_nat (length (re_key r) + value_len (re_value r)))"

lemma extract_rows_ascending:
  assumes "sorted_wrt (<) (map re_key rs)" "entries \<noteq> [] \<longrightarrow> (\<forall>r\<in>set rs. re_key (last entries) < re_key r)"
    "\<forall>r\<in>set rs. extractable extractor (re_key r)"
  shows "extract_rows extractor (rs @ zs) entries segs n
    = extract_rows extractor zs (entries @ rs) (segs \<union> touched_by extractor rs) (n + rows_bytes rs)"
  using assms
proof (induction rs arbitrary: entries segs n)
  case Nil
  then show ?case by (cases extractor) (simp_all add: touched_by_def rows_bytes_def)
next
  case (Cons r rs)
  have new: "\<not> (entries \<noteq> [] \<and> re_key (last entries) = re_key r)" using Cons.prems(2) by auto
  have "extractable extractor (re_key r)" using Cons.prems(3) by simp
  then have seg: "(case extractor of
        Some ext \<Rightarrow> bind_result (extract_segment_prefix ext (re_key r)) (\<lambda>p. Inr (insert p segs))
      | None \<Rightarrow> Inr segs) = Inr (segs \<union> touched_by extractor [r])"
    by (auto simp: extractable_def extract_segment_prefix_def touched_by_def split: option.splits)
  have ext: "touched_by extractor (r # rs) = touched_by extractor [r] \<union> touched_by extractor rs"
    by (cases extractor) (simp_all add: touched_by_def)
  have "extract_rows extractor (r # rs @ zs) entries segs n
      = extract_rows extractor (rs @ zs) (entries @ [r]) (segs \<union> touched_by extractor [r])
          (n + of_nat (length (re_key r) + value_len (re_value r)))"
    unfolding extract_rows.simps seg if_not_P [OF new] by simp
  also have "\<dots> = extract_rows extractor zs ((entries @ [r]) @ rs) ((segs \<union> touched_by extractor [r]) \<union> touched_by extractor rs)
      (n + of_nat (length (re_key r) + value_len (re_value r)) + rows_bytes rs)"
    using Cons.prems by (intro Cons.IH) simp_all
  finally show ?case by (simp add: ext rows_bytes_def Un_assoc add.assoc)
qed

lemma foldl_live: "foldl (apply_op g) None (rev (live xs)) = foldl (apply_op g) None (rev xs)"
proof (induction xs)
  case (Cons op older)
  then show ?case by (cases op) simp_all
qed simp

lemma committed_row_live:
  "key_history k ws \<noteq> [] \<Longrightarrow> committed_row f seq now dttl k (live_ops k ws) = committed_row f seq now dttl k (key_history k ws)"
  using foldl_live [of "f k" "rev (key_history k ws)"]
  by (cases "rev (key_history k ws)") (auto simp: committed_row_def live_ops_def last_rev rev_swap)

lemma key_history_Nil: "key_history k ws = [] \<longleftrightarrow> k \<notin> fst ` set ws"
  by (auto simp: key_history_def filter_empty_conv)

lemma apply_writes_ops:
  assumes "apply_writes ws write_batch_new = Inr b"
  shows "wb_ops b = map (\<lambda>k. (k, live_ops k ws)) (sorted_list_of_set (fst ` set ws))"
proof (rule strict_keys_unique)
  from apply_writes_contents [OF assms] have ok: "batch_ok b"
    and get: "\<And>k. map_of (wb_ops b) k = (if key_history k ws = [] then None else Some (live_ops k ws))" by auto
  show strict: "strict_keys (wb_ops b)" using ok by (simp add: batch_ok_def)
  show "strict_keys (map (\<lambda>k. (k, live_ops k ws)) (sorted_list_of_set (fst ` set ws)))" by (simp add: comp_def)
  have "p \<in> set (wb_ops b) \<longleftrightarrow> fst p \<in> fst ` set ws \<and> snd p = live_ops (fst p) ws" for p
    using map_of_eq_Some_iff [OF strict_keys_distinct [OF strict], of "fst p" "snd p"] get [of "fst p"] key_history_Nil [of "fst p" ws]
    by (auto split: if_splits)
  then show "set (wb_ops b) = set (map (\<lambda>k. (k, live_ops k ws)) (sorted_list_of_set (fst ` set ws)))"
    by (auto simp: prod_eq_iff set_eq_iff)
qed

lemma merged_groups:
  assumes "distinct (map fst ps)" "\<forall>p\<in>set ps. ops_ok (snd p) \<and> uniform_ttl now dttl (snd p)"
    "\<forall>z\<in>set zs. re_key z \<notin> fst ` set ps"
  shows "merged_rows f False None (concat (map (group_rows seq (Some now) dttl) ps) @ zs)
    = map (\<lambda>p. committed_row f seq now dttl (fst p) (snd p)) ps @ merged_rows f False None zs"
  using assms
proof (induction ps)
  case (Cons p ps)
  obtain k ops where p: "p = (k, ops)" by (cases p)
  have "re_key y \<noteq> k" if "y \<in> set (concat (map (group_rows seq (Some now) dttl) ps) @ zs)" for y
    using that Cons.prems(1,3) by (auto simp: p dest!: group_rows_mem)
  then have "merged_rows f False None (group_rows seq (Some now) dttl (k, ops) @ concat (map (group_rows seq (Some now) dttl) ps) @ zs)
      = committed_row f seq now dttl k ops # merged_rows f False None (concat (map (group_rows seq (Some now) dttl) ps) @ zs)"
    using Cons.prems(2) by (intro merged_group) (auto simp: p)
  moreover have "merged_rows f False None (concat (map (group_rows seq (Some now) dttl) ps) @ zs)
      = map (\<lambda>p. committed_row f seq now dttl (fst p) (snd p)) ps @ merged_rows f False None zs"
    using Cons.prems by (intro Cons.IH) auto
  ultimately show ?case by (simp add: p)
qed simp

text \<open>\<open>extract_entries\<close> is the loop over the merged rows of the batch.\<close>

lemma extract_entries_rows:
  assumes op: "merge_operator mb f" and ok: "batch_ok b"
  shows "extract_entries b seq now dttl (Some mb) extractor
    = extract_rows extractor (merged_rows f False None (concat (map (group_rows seq (Some now) dttl) (wb_ops b)))) [] {} 0"
proof -
  define rs where "rs = concat (map (group_rows seq (Some now) dttl) (wb_ops b))"
  define it where "it = \<lparr>wbi_iter = rs, wbi_ordering = Ascending\<rparr>"
  have all: "entries_range Unbounded Unbounded (wb_ops b) = wb_ops b" by (simp add: entries_range_def in_bounds_def)
  have new: "write_batch_iterator_new b Unbounded Unbounded Ascending seq (Some now) dttl = Inr it"
    unfolding write_batch_iterator_rows by (simp add: all it_def rs_def)
  from batch_rows_sorted [OF ok new] have iter_ok: "batch_iter_ok Ascending it" by (simp add: batch_iter_ok_def)
  show ?thesis
  proof (cases "wb_has_merge_ops b")
    case True
    define m where "m = merge_operator_iterator_new it False None"
    have m: "wbi.moi_ok Ascending m" "wbi.moi_output f m = merged_rows f False None rs"
      using iter_ok wbi.rows_sorted [OF iter_ok]
      by (simp_all add: m_def wbi.moi_ok_def wbi.moi_output_def merge_operator_iterator_new_def moi_rows_def it_def)
    show ?thesis
      unfolding extract_entries_def new bind_result.simps if_P [OF True] option.case m_def [symmetric]
        extract_loop_rows [OF wbi.merge_operator_rows [OF op] m] run_loop_def rs_def ..
  next
    case False
    have plain: "\<not> is_merge (re_value r)" if "r \<in> set rs" for r
    proof -
      from that obtain k ops op where "(k, ops) \<in> set (wb_ops b)" "op \<in> set ops"
        and r: "r = write_op_to_row_entry k op seq (Some now) dttl" by (auto simp: rs_def group_rows_def)
      moreover from this(1) ok False have "\<not> is_wmerge (hd ops)" "tl ops = []"
        unfolding batch_ok_def by blast+
      ultimately have "\<not> is_wmerge op" by (cases ops) simp_all
      then show ?thesis unfolding r by (cases op) (simp_all add: row_of_op)
    qed
    have "\<forall>r\<in>set xs. \<not> is_merge (re_value r) \<Longrightarrow> merged_rows f False None xs = xs" for xs by (induction xs) simp_all
    with plain have same: "merged_rows f False None rs = rs" by blast
    have "extract_loop write_batch_next extractor it [] {} 0 = Some (extract_rows extractor rs [] {} 0)"
      by (rule extract_loop_rows [OF wbi.row_iterator_axioms iter_ok]) (simp add: it_def)
    then show ?thesis
      unfolding extract_entries_def new bind_result.simps if_not_P [OF False] rs_def [symmetric] same
      by (simp add: run_loop_def)
  qed
qed

definition committed_rows ::
    "(bytes \<Rightarrow> bytes \<Rightarrow> bytes \<Rightarrow> bytes) \<Rightarrow> u64 \<Rightarrow> i64 \<Rightarrow> u64 option \<Rightarrow> (bytes \<times> write_op) list \<Rightarrow> row_entry list" where
  "committed_rows f seq now dttl ws =
     map (\<lambda>k. committed_row f seq now dttl k (key_history k ws)) (sorted_list_of_set (fst ` set ws))"

lemma committed_rows_ops:
  assumes "apply_writes ws write_batch_new = Inr b"
  shows "map (\<lambda>p. committed_row f seq now dttl (fst p) (snd p)) (wb_ops b) = committed_rows f seq now dttl ws"
  unfolding apply_writes_ops [OF assms] committed_rows_def
  by (auto simp: committed_row_live key_history_Nil)

lemma apply_writes_ok:
  assumes "apply_writes ws write_batch_new = Inr b"
  shows "batch_ok b" "distinct (map fst (wb_ops b))" "\<forall>p\<in>set (wb_ops b). ops_ok (snd p)"
    "\<forall>p\<in>set (wb_ops b). fst p \<in> fst ` set ws \<and> snd p = live_ops (fst p) ws"
proof -
  from apply_writes_contents [OF assms] show ok: "batch_ok b" by blast
  then show "distinct (map fst (wb_ops b))" by (simp add: batch_ok_def strict_keys_distinct)
  from ok show "\<forall>p\<in>set (wb_ops b). ops_ok (snd p)" by (auto simp: batch_ok_def)
  show "\<forall>p\<in>set (wb_ops b). fst p \<in> fst ` set ws \<and> snd p = live_ops (fst p) ws"
    unfolding apply_writes_ops [OF assms] by simp
qed

lemma strict_map_key: "sorted_wrt (<) (map fst ps) \<Longrightarrow> sorted_wrt (<) (map re_key (map (\<lambda>p. committed_row f seq now dttl (fst p) (snd p)) ps))"
  by (simp add: comp_def committed_row_def)

text \<open>
  C12: committing a batch writes one row per key, in key order, with the value of applying the
  operations on the key one after the other, when the operations that still matter for a key agree
  on the expiry time.
\<close>

theorem extract_entries_commit:
  assumes op: "merge_operator mb f" and writes: "apply_writes ws write_batch_new = Inr b"
    and ttls: "\<forall>k. uniform_ttl now dttl (live_ops k ws)" and segs: "\<forall>k\<in>fst ` set ws. extractable extractor k"
  shows "extract_entries b seq now dttl (Some mb) extractor
    = Inr (committed_rows f seq now dttl ws, touched_by extractor (committed_rows f seq now dttl ws),
           rows_bytes (committed_rows f seq now dttl ws))"
proof -
  note ok = apply_writes_ok [OF writes]
  let ?C = "map (\<lambda>p. committed_row f seq now dttl (fst p) (snd p)) (wb_ops b)"
  have "\<forall>p\<in>set (wb_ops b). ops_ok (snd p) \<and> uniform_ttl now dttl (snd p)" using ok(3,4) ttls by simp
  then have rows: "merged_rows f False None (concat (map (group_rows seq (Some now) dttl) (wb_ops b))) = ?C"
    using merged_groups [OF ok(2), of now dttl "[]" f seq] by simp
  have "strict_keys (wb_ops b)" using ok(1) by (simp add: batch_ok_def)
  then have "sorted_wrt (<) (map re_key ?C)" by (rule strict_map_key)
  moreover have "\<forall>p\<in>set (wb_ops b). extractable extractor (fst p)" using segs ok(4) by blast
  then have "\<forall>r\<in>set ?C. extractable extractor (re_key r)" by (simp add: committed_row_def)
  ultimately have "extract_rows extractor (?C @ []) [] {} 0
      = extract_rows extractor [] ([] @ ?C) ({} \<union> touched_by extractor ?C) (0 + rows_bytes ?C)"
    by (intro extract_rows_ascending) simp_all
  then have "extract_rows extractor ?C [] {} 0 = Inr (?C, touched_by extractor ?C, rows_bytes ?C)"
    unfolding append_Nil2 by (simp only: extract_rows.simps append_Nil Un_empty_left add_0_left)
  then show ?thesis
    unfolding extract_entries_rows [OF op ok(1)] rows committed_rows_ops [OF writes] .
qed

text \<open>
  C37: a batch in which the operations that still matter for some key have different expiry times is
  refused with the error that names the two; the panic for duplicate keys is never reached.
\<close>

theorem extract_entries_mixed_ttl:
  assumes op: "merge_operator mb f" and writes: "apply_writes ws write_batch_new = Inr b"
    and mixed: "\<not> uniform_ttl now dttl (live_ops k ws)" and segs: "\<forall>k\<in>fst ` set ws. extractable extractor k"
  shows "\<exists>k p c. extract_entries b seq now dttl (Some mb) extractor = Inl (IncompatibleMergeTtls k p c)
    \<and> \<not> uniform_ttl now dttl (live_ops k ws) \<and> p \<noteq> c"
proof -
  note ok = apply_writes_ok [OF writes]
  let ?C = "\<lambda>p. committed_row f seq now dttl (fst p) (snd p)"
  have "live_ops k ws \<noteq> []" using mixed by (auto simp: uniform_ttl_def)
  then have "k \<in> fst ` set ws" using key_history_Nil [of k ws] by (auto simp: live_ops_def)
  then have "(k, live_ops k ws) \<in> set (wb_ops b)" unfolding apply_writes_ops [OF writes] by simp
  with mixed have "\<exists>p\<in>set (wb_ops b). \<not> uniform_ttl now dttl (snd p)" by force
  then obtain us p vs where ps: "wb_ops b = us @ p # vs" "\<not> uniform_ttl now dttl (snd p)"
    "\<forall>q\<in>set us. uniform_ttl now dttl (snd q)"
    using split_list_first_prop [of "wb_ops b" "\<lambda>p. \<not> uniform_ttl now dttl (snd p)"] by auto
  let ?zs = "concat (map (group_rows seq (Some now) dttl) (p # vs))"
  have sorted: "sorted_wrt (<) (map fst (us @ [p]))" "distinct (map fst us)"
    using ok(1,2) ps(1) by (simp_all add: batch_ok_def sorted_wrt_append)
  have "\<forall>z\<in>set ?zs. re_key z \<in> fst ` set (p # vs)" by (auto dest!: group_rows_mem)
  moreover have "fst ` set us \<inter> fst ` set (p # vs) = {}" using ok(2) ps(1) by simp
  ultimately have "\<forall>z\<in>set ?zs. re_key z \<notin> fst ` set us" by blast
  then have rows: "merged_rows f False None (concat (map (group_rows seq (Some now) dttl) (wb_ops b)))
      = map ?C us @ merged_rows f False None ?zs"
    using merged_groups [OF sorted(2), of now dttl ?zs f seq] ok(3) ps by simp
  obtain a c zs where ac: "merged_rows f False None ?zs = a # c # zs" "re_key a = fst p" "re_key c = fst p"
    "re_expire_ts a = op_expire now dttl (last (snd p))" "re_expire_ts c \<noteq> re_expire_ts a"
    using merged_group_mixed [of "snd p" now dttl f seq "fst p" "concat (map (group_rows seq (Some now) dttl) vs)"] ok(3) ps
    by auto
  have "sorted_wrt (<) (map re_key (map ?C us @ [a]))"
    using sorted(1) ac(2) by (simp add: sorted_wrt_append comp_def committed_row_def)
  moreover have "\<forall>p\<in>set (wb_ops b). extractable extractor (fst p)" using segs ok(4) by blast
  then have "\<forall>r\<in>set (map ?C us @ [a]). extractable extractor (re_key r)"
    using ps(1) ac(2) by (auto simp: committed_row_def)
  ultimately have "extract_rows extractor ((map ?C us @ [a]) @ c # zs) [] {} 0
      = extract_rows extractor (c # zs) ([] @ map ?C us @ [a]) ({} \<union> touched_by extractor (map ?C us @ [a]))
          (0 + rows_bytes (map ?C us @ [a]))"
    by (intro extract_rows_ascending) simp_all
  also have "\<dots> = Inl (IncompatibleMergeTtls (fst p) (re_expire_ts a) (re_expire_ts c))"
    using ac(2,3,5) by simp
  finally have "extract_entries b seq now dttl (Some mb) extractor
      = Inl (IncompatibleMergeTtls (fst p) (re_expire_ts a) (re_expire_ts c))"
    unfolding extract_entries_rows [OF op ok(1)] rows ac(1) by simp
  moreover have "snd p = live_ops (fst p) ws" using ok(4) ps(1) by simp
  ultimately show ?thesis using ps(2) ac(5) by metis
qed

text \<open>
  C36: after any sequence of puts, deletes and merges a batch holds, in strict key order, the last put
  or delete of each key and the merges after it, counts exactly these operations, and remembers
  whether there was a merge.
\<close>

theorem write_batch_contents:
  assumes "apply_writes ws write_batch_new = Inr b"
  shows "wb_ops b = map (\<lambda>k. (k, live_ops k ws)) (sorted_list_of_set (fst ` set ws))
    \<and> wb_op_count b = (\<Sum>k\<leftarrow>sorted_list_of_set (fst ` set ws). length (live_ops k ws))
    \<and> (\<exists>w\<in>set ws. is_wmerge (snd w)) = wb_has_merge_ops b"
proof -
  note ops = apply_writes_ops [OF assms]
  have "wb_op_count b = (\<Sum>p\<leftarrow>wb_ops b. length (snd p))" using apply_writes_ok(1) [OF assms] by (simp add: batch_ok_def)
  then have "wb_op_count b = (\<Sum>k\<leftarrow>sorted_list_of_set (fst ` set ws). length (live_ops k ws))"
    unfolding ops by (simp add: comp_def)
  moreover have "(\<exists>w\<in>set ws. is_wmerge (snd w)) = wb_has_merge_ops b"
    using assms
  proof (induction ws arbitrary: b rule: rev_induct)
    case (snoc w ws)
    from snoc.prems obtain b0 where b0: "apply_writes ws write_batch_new = Inr b0" "apply_write w b0 = Inr b"
      by (auto simp: apply_writes_append result_simps)
    obtain k op where w: "w = (k, op)" by (cases w)
    show ?case
      using snoc.IH [OF b0(1)] apply_write_ops(3) [OF b0(2) [unfolded w] apply_writes_ok(1) [OF b0(1)]] w by auto
  qed (simp add: write_batch_new_def)
  ultimately show ?thesis using ops by blast
qed

text \<open>A batch with an overwritten delete and merges on a put.\<close>

definition sample_writes :: "(bytes \<times> write_op) list" where
  "sample_writes =
     [([2], WDelete), ([1], WPut [10] \<lparr>po_ttl = NoExpiry\<rparr>), ([1], WMerge [11] \<lparr>mo_ttl = TtlDefault\<rparr>),
      ([2], WPut [20] \<lparr>po_ttl = TtlDefault\<rparr>), ([1], WMerge [12] \<lparr>mo_ttl = TtlDefault\<rparr>)]"

definition sample_batch :: write_batch where
  "sample_batch =
     \<lparr>wb_ops = [([1], [WPut [10] \<lparr>po_ttl = NoExpiry\<rparr>, WMerge [11] \<lparr>mo_ttl = TtlDefault\<rparr>, WMerge [12] \<lparr>mo_ttl = TtlDefault\<rparr>]),
                ([2], [WPut [20] \<lparr>po_ttl = TtlDefault\<rparr>])],
      wb_op_count = 4, wb_has_merge_ops = True\<rparr>"

lemma sample_batch_eq: "apply_writes sample_writes write_batch_new = Inr sample_batch"
  by (simp add: sample_writes_def sample_batch_def write_batch_new_def put_bytes_with_options_def
      merge_with_options_def batch_delete_def assert_kv_def)

lemma sample_keys: "sorted_list_of_set (fst ` set sample_writes) = [[1], [2]]"
  by (simp add: sample_writes_def insert_commute)

lemma live_ops_mem: "op \<in> set (live_ops k ws) \<Longrightarrow> op \<in> snd ` set ws"
proof -
  have "set (live xs) \<subseteq> set xs" for xs by (induction xs) auto
  then show "op \<in> set (live_ops k ws) \<Longrightarrow> op \<in> snd ` set ws" by (force simp: live_ops_def key_history_def)
qed

lemma sample_ttls: "\<forall>k. uniform_ttl 0 None (live_ops k sample_writes)"
proof
  fix k
  have all: "\<forall>op\<in>snd ` set sample_writes. op_expire 0 None op = None"
    by (simp add: sample_writes_def put_expire_ts_from_def merge_expire_ts_from_def)
  have none: "op_expire 0 None op = None" if "op \<in> set (live_ops k sample_writes)" for op
    by (rule bspec [OF all live_ops_mem [OF that]])
  show "uniform_ttl 0 None (live_ops k sample_writes)" unfolding uniform_ttl_def
  proof
    fix op assume op: "op \<in> set (live_ops k sample_writes)"
    then have "last (live_ops k sample_writes) \<in> set (live_ops k sample_writes)" by (intro last_in_set) auto
    from none [OF op] none [OF this] show "op_expire 0 None op = op_expire 0 None (last (live_ops k sample_writes))"
      by (rule trans [OF _ sym])
  qed
qed

text \<open>Witness of C12: two keys, a put with two merges and an overwritten delete.\<close>

theorem extract_entries_commit_witness:
  "extract_entries sample_batch 7 0 None (Some (default_merge_batch append_merge)) (Some (\<lambda>_. Some 1))
    = Inr ([\<lparr>re_key = [1], re_value = Value [10, 11, 12], re_seq = 7, re_create_ts = Some 0, re_expire_ts = None\<rparr>,
            \<lparr>re_key = [2], re_value = Value [20], re_seq = 7, re_create_ts = Some 0, re_expire_ts = None\<rparr>],
           {[1], [2]}, 6)"
proof -
  have "\<forall>k\<in>fst ` set sample_writes. extractable (Some (\<lambda>_. Some 1)) k"
    by (simp add: sample_writes_def extractable_def)
  note e = extract_entries_commit [OF appending.merge_operator_axioms sample_batch_eq sample_ttls this, of 7]
  have rows: "committed_rows (\<lambda>_ a b. a @ b) 7 0 None sample_writes
      = [\<lparr>re_key = [1], re_value = Value [10, 11, 12], re_seq = 7, re_create_ts = Some 0, re_expire_ts = None\<rparr>,
         \<lparr>re_key = [2], re_value = Value [20], re_seq = 7, re_create_ts = Some 0, re_expire_ts = None\<rparr>]"
    unfolding committed_rows_def sample_keys
    by (simp add: committed_row_def key_history_def sample_writes_def put_expire_ts_from_def merge_expire_ts_from_def)
  show ?thesis unfolding e rows by (simp add: touched_by_def rows_bytes_def)
qed

text \<open>Witness of C37: under a default ttl the put without expiry and the merges after it disagree.\<close>

theorem extract_entries_mixed_ttl_witness:
  "\<exists>k p c. extract_entries sample_batch 7 0 (Some 5) (Some (default_merge_batch append_merge)) None
     = Inl (IncompatibleMergeTtls k p c) \<and> p \<noteq> c"
proof -
  have "\<not> uniform_ttl 0 (Some 5) (live_ops [1] sample_writes)"
    by (simp add: uniform_ttl_def live_ops_def key_history_def sample_writes_def put_expire_ts_from_def
        merge_expire_ts_from_def merge_checked_expire_ts_def)
  moreover have "\<forall>k\<in>fst ` set sample_writes. extractable None k" by (simp add: extractable_def)
  ultimately show ?thesis
    using extract_entries_mixed_ttl [OF appending.merge_operator_axioms sample_batch_eq, of 0 "Some 5" "[1]" None 7] by blast
qed

text \<open>Witness of C36: the sample batch.\<close>

theorem write_batch_contents_witness:
  "wb_op_count sample_batch = 4 \<and> map fst (wb_ops sample_batch) = [[1], [2]] \<and> live_ops [2] sample_writes = [WPut [20] \<lparr>po_ttl = TtlDefault\<rparr>]"
  using write_batch_contents [OF sample_batch_eq] sample_keys
  by (simp add: sample_batch_def)

end
