(* ===== verification/Visible.thy ===== *)
theory Visible
  imports Batch
begin

section \<open>What a reader should see\<close>


text \<open>
  The reference for the read path, on lists of rows.

  The value of a key, given its versions from the newest to the oldest: a value is the answer, a
  tombstone means there is none, and a merge operand is applied to what the older versions give.
\<close>

fun resolve :: "(bytes \<Rightarrow> bytes \<Rightarrow> bytes) \<Rightarrow> row_entry list \<Rightarrow> bytes option" where
  "resolve g [] = None"
| "resolve g (r # rs) =
     (case re_value r of
        Value v \<Rightarrow> Some v
      | Tombstone \<Rightarrow> None
      | Merge m \<Rightarrow> Some (case resolve g rs of None \<Rightarrow> m | Some b \<Rightarrow> g b m))"

definition versions :: "bytes \<Rightarrow> row_entry list \<Rightarrow> row_entry list" where
  "versions k rs = filter (\<lambda>r. re_key r = k) rs"

definition visible_entry :: "(bytes \<Rightarrow> bytes \<Rightarrow> bytes \<Rightarrow> bytes) \<Rightarrow> row_entry list \<Rightarrow> bytes \<Rightarrow> (bytes \<times> bytes) option" where
  "visible_entry f rs k = map_option (Pair k) (resolve (f k) (versions k rs))"

text \<open>The entries a scan should return for rows in iteration order.\<close>

definition scan_result :: "(bytes \<Rightarrow> bytes \<Rightarrow> bytes \<Rightarrow> bytes) \<Rightarrow> row_entry list \<Rightarrow> (bytes \<times> bytes) list" where
  "scan_result f rs = List.map_filter (visible_entry f rs) (remdups_adj (map re_key rs))"

definition entry_of :: "row_entry \<Rightarrow> bytes \<times> bytes" where
  "entry_of r = (re_key r, operand r)"

definition visible_rows :: "row_entry list \<Rightarrow> row_entry list" where
  "visible_rows rs = filter (\<lambda>r. \<not> is_tombstone (re_value r)) rs"

lemma combine_snoc: "xs \<noteq> [] \<or> b \<noteq> None \<Longrightarrow> combine g b (xs @ [y]) = g (combine g b xs) y"
  by (cases b; cases xs) simp_all

text \<open>Merge operands above a base give the operands combined from the oldest to the newest.\<close>

lemma resolve_merges:
  assumes "ms \<noteq> []" "\<forall>m\<in>set ms. is_merge (re_value m)" "rs = [] \<or> \<not> is_merge (re_value (hd rs))"
  shows "resolve g (ms @ rs)
    = Some (combine g (case rs of [] \<Rightarrow> None | r # _ \<Rightarrow> as_bytes (re_value r)) (rev (map operand ms)))"
  using assms(1,2)
proof (induction ms)
  case (Cons m ms)
  from Cons.prems(2) obtain v where v: "re_value m = Merge v" by (cases "re_value m") simp_all
  have op: "operand m = v" by (simp add: operand_def v)
  let ?b = "case rs of [] \<Rightarrow> None | r # _ \<Rightarrow> as_bytes (re_value r)"
  have base: "resolve g rs = ?b" using assms(3) by (cases rs; cases "re_value (hd rs)") simp_all
  show ?case
  proof (cases "ms = []")
    case True
    with v base op show ?thesis by (cases ?b) simp_all
  next
    case False
    with Cons have "resolve g (ms @ rs) = Some (combine g ?b (rev (map operand ms)))" by simp
    with v False op show ?thesis by (simp add: combine_snoc)
  qed
qed simp

text \<open>The rows of one key: the merge operands above the newest version that is not one.\<close>

definition top_merges :: "row_entry list \<Rightarrow> row_entry list" where
  "top_merges g = takeWhile (\<lambda>r. is_merge (re_value r)) g"

definition top_base :: "row_entry list \<Rightarrow> row_entry option" where
  "top_base g = (case dropWhile (\<lambda>r. is_merge (re_value r)) g of [] \<Rightarrow> None | b # _ \<Rightarrow> Some b)"

lemma dedup_group:
  assumes "\<forall>r\<in>set g. re_key r = k" "\<forall>r\<in>set rs. re_key r \<noteq> k"
  shows "dedup_rows (g @ rs) = top_merges g @ (case top_base g of None \<Rightarrow> [] | Some b \<Rightarrow> [b]) @ dedup_rows rs"
  using assms(1)
proof (induction g)
  case Nil
  then show ?case by (simp add: top_merges_def top_base_def)
next
  case (Cons x g)
  show ?case
  proof (cases "is_merge (re_value x)")
    case True
    with Cons show ?thesis by (simp add: top_merges_def top_base_def)
  next
    case False
    have "dropWhile (\<lambda>y. re_key y = k) (g @ rs) = rs"
      using Cons.prems assms(2) by (cases rs) (simp_all add: dropWhile_append2)
    with False Cons.prems show ?thesis by (simp add: top_merges_def top_base_def)
  qed
qed

definition group_output :: "(bytes \<Rightarrow> bytes \<Rightarrow> bytes \<Rightarrow> bytes) \<Rightarrow> row_entry list \<Rightarrow> row_entry list" where
  "group_output f g =
     (if top_merges g = [] then (case top_base g of None \<Rightarrow> [] | Some b \<Rightarrow> [b])
      else [merged_row f (top_merges g) (top_base g)])"

lemma merged_dedup_group:
  assumes "\<forall>r\<in>set g. re_key r = k" "\<forall>r\<in>set ys. re_key r \<noteq> k"
  shows "merged_rows f True None (top_merges g @ (case top_base g of None \<Rightarrow> [] | Some b \<Rightarrow> [b]) @ ys)
    = group_output f g @ merged_rows f True None ys"
proof -
  define rest where "rest = (case top_base g of None \<Rightarrow> [] | Some b \<Rightarrow> [b]) @ ys"
  have base: "re_key b = k \<and> \<not> is_merge (re_value b)" if "top_base g = Some b" for b
  proof -
    from that obtain bs where bs: "dropWhile (\<lambda>r. is_merge (re_value r)) g = b # bs"
      unfolding top_base_def by (cases "dropWhile (\<lambda>r. is_merge (re_value r)) g") simp_all
    then have "b \<in> set g" by (metis list.set_intros(1) set_dropWhileD)
    with bs assms(1) show ?thesis using hd_dropWhile [of "\<lambda>r. is_merge (re_value r)" g] by auto
  qed
  show ?thesis
  proof (cases "top_merges g")
    case Nil
    then show ?thesis using base by (cases "top_base g") (simp_all add: group_output_def)
  next
    case (Cons x xs)
    have mem: "re_key r = k \<and> is_merge (re_value r)" if "r \<in> set (x # xs)" for r
      using that assms(1) set_takeWhileD [of r "\<lambda>r. is_merge (re_value r)" g] unfolding Cons [symmetric] top_merges_def by simp
    have x: "re_key x = k" "is_merge (re_value x)" using mem [of x] by simp_all
    define matching where "matching = (\<lambda>r. is_matching_entry True r (re_key x) (re_expire_ts x))"
    define collected where "collected = (\<lambda>r. matching r \<and> is_merge (re_value r))"
    have m: "matching r \<longleftrightarrow> re_key r = k" for r by (simp add: matching_def is_matching_entry_def x(1))
    have c: "\<forall>r\<in>set xs. collected r" using mem by (simp add: collected_def m)
    have nc: "rest = [] \<or> \<not> collected (hd rest)"
      using base assms(2) by (cases "top_base g"; cases ys) (simp_all add: rest_def collected_def m)
    have b: "base_of matching rest = top_base g" "(if top_base g = None then rest else tl rest) = ys"
      using base assms(2) by (cases "top_base g"; cases ys; simp add: rest_def base_of_def m)+
    have "merged_rows f True None (x # xs @ rest) = merged_row f (x # xs) (top_base g) # merged_rows f True None ys"
      unfolding merged_rows.simps using x(2)
      by (simp only: Let_def matching_def [symmetric] collected_def [symmetric] takeWhile_group [OF c nc] b) simp
    then show ?thesis unfolding rest_def [symmetric] Cons group_output_def by simp
  qed
qed

lemma group_visible:
  assumes "\<forall>r\<in>set g. re_key r = k"
  shows "map entry_of (visible_rows (group_output f g)) = (case resolve (f k) g of None \<Rightarrow> [] | Some v \<Rightarrow> [(k, v)])"
proof -
  let ?rest = "dropWhile (\<lambda>r. is_merge (re_value r)) g"
  have g: "g = top_merges g @ ?rest" by (simp add: top_merges_def)
  have rest: "?rest = [] \<or> \<not> is_merge (re_value (hd ?rest))" using hd_dropWhile by blast
  have base: "Option.bind (top_base g) (as_bytes \<circ> re_value) = (case ?rest of [] \<Rightarrow> None | r # _ \<Rightarrow> as_bytes (re_value r))"
    unfolding top_base_def by (cases ?rest) (simp_all only: list.case Option.bind.simps o_apply)
  show ?thesis
  proof (cases "top_merges g = []")
    case True
    then have eq: "?rest = g" using g by simp
    show ?thesis
    proof (cases g)
      case (Cons b bs)
      then have "top_base g = Some b" using eq by (simp add: top_base_def)
      moreover have "re_key b = k" "\<not> is_merge (re_value b)" using assms rest eq Cons by simp_all
      ultimately show ?thesis using True Cons
        by (cases "re_value b") (simp_all add: group_output_def visible_rows_def entry_of_def operand_def)
    qed (simp add: top_merges_def group_output_def top_base_def visible_rows_def)
  next
    case False
    have "\<forall>m\<in>set (top_merges g). is_merge (re_value m)" by (auto simp: top_merges_def dest: set_takeWhileD)
    from resolve_merges [OF False this rest, of "f k"]
    have res: "resolve (f k) g = Some (combine (f k) (Option.bind (top_base g) (as_bytes \<circ> re_value)) (rev (map operand (top_merges g))))"
      unfolding g [symmetric] base .
    have "re_key (hd (top_merges g)) = k"
      using assms set_takeWhileD [OF hd_in_set [OF False, unfolded top_merges_def]] by (simp add: top_merges_def)
    then show ?thesis
      using False by (simp add: res group_output_def visible_rows_def entry_of_def merged_row_def Let_def operand_def)
  qed
qed

text \<open>Rows in iteration order are the versions of the first key followed by the rows of the later keys.\<close>

lemma sorted_first_group:
  assumes "sorted_wrt (row_le ord') (x # xs)"
  defines "g \<equiv> takeWhile (\<lambda>r. re_key r = re_key x) (x # xs)" and "rest \<equiv> dropWhile (\<lambda>r. re_key r = re_key x) (x # xs)"
  shows "x # xs = g @ rest" "\<forall>r\<in>set g. re_key r = re_key x" "\<forall>r\<in>set rest. re_key r \<noteq> re_key x"
    "sorted_wrt (row_le ord') rest" "length rest \<le> length xs"
proof -
  show "x # xs = g @ rest" by (simp add: g_def rest_def)
  show "\<forall>r\<in>set g. re_key r = re_key x" by (auto simp: g_def dest: set_takeWhileD split: if_splits)
  have rest: "rest = dropWhile (\<lambda>r. re_key r = re_key x) xs" by (simp add: rest_def)
  show "sorted_wrt (row_le ord') rest" unfolding rest using assms(1) by (simp add: sorted_wrt_dropWhile)
  show "length rest \<le> length xs" unfolding rest by (rule length_dropWhile_le)
  have "rest = filter (\<lambda>r. re_key r \<noteq> re_key x) xs" unfolding rest by (rule sorted_dropWhile_key [of ord']) (use assms(1) in simp_all)
  then show "\<forall>r\<in>set rest. re_key r \<noteq> re_key x" by simp
qed

lemma remdups_adj_group:
  assumes "g \<noteq> []" "\<forall>y\<in>set g. y = k" "k \<notin> set ys"
  shows "remdups_adj (g @ ys) = k # remdups_adj ys"
  using assms(1,2)
proof (induction g)
  case (Cons x g)
  show ?case
  proof (cases g)
    case Nil
    with Cons.prems assms(3) show ?thesis by (cases ys) simp_all
  next
    case (Cons y g')
    with Cons.IH Cons.prems show ?thesis by simp
  qed
qed simp

lemma map_filter_eqI: "(\<And>x. x \<in> set xs \<Longrightarrow> f x = g x) \<Longrightarrow> List.map_filter f xs = List.map_filter g xs"
  by (induction xs) (simp_all add: List.map_filter_simps split: option.split)

lemma scan_result_group:
  assumes "g \<noteq> []" "\<forall>r\<in>set g. re_key r = k" "\<forall>r\<in>set rest. re_key r \<noteq> k"
  shows "scan_result f (g @ rest) = (case resolve (f k) g of None \<Rightarrow> [] | Some v \<Rightarrow> [(k, v)]) @ scan_result f rest"
proof -
  have keys: "remdups_adj (map re_key (g @ rest)) = k # remdups_adj (map re_key rest)"
    unfolding map_append using assms by (intro remdups_adj_group) auto
  have "versions k (g @ rest) = g" using assms(2,3) by (simp add: versions_def)
  then have first: "visible_entry f (g @ rest) k = map_option (Pair k) (resolve (f k) g)" by (simp add: visible_entry_def)
  have "visible_entry f (g @ rest) k' = visible_entry f rest k'" if "k' \<in> set (remdups_adj (map re_key rest))" for k'
  proof -
    have "k' \<noteq> k" using that assms(3) by auto
    then have "versions k' g = []" using assms(2) by (auto simp: versions_def filter_empty_conv)
    then show ?thesis by (simp add: visible_entry_def versions_def)
  qed
  then have "List.map_filter (visible_entry f (g @ rest)) (remdups_adj (map re_key rest)) = scan_result f rest"
    unfolding scan_result_def by (intro map_filter_eqI) simp
  then show ?thesis unfolding scan_result_def keys
    by (cases "resolve (f k) g") (simp_all add: first List.map_filter_simps scan_result_def)
qed

text \<open>Removing overwritten versions, merging and dropping the tombstones gives what a reader should see.\<close>

lemma visible_scan:
  "sorted_wrt (row_le ord') rs \<Longrightarrow>
    map entry_of (visible_rows (merged_rows f True None (dedup_rows rs))) = scan_result f rs"
proof (induction "length rs" arbitrary: rs rule: less_induct)
  case less
  show ?case
  proof (cases rs)
    case Nil
    then show ?thesis by (simp add: visible_rows_def scan_result_def List.map_filter_simps)
  next
    case (Cons x xs)
    define g where "g = takeWhile (\<lambda>r. re_key r = re_key x) (x # xs)"
    define rest where "rest = dropWhile (\<lambda>r. re_key r = re_key x) (x # xs)"
    note p = sorted_first_group [OF less.prems [unfolded Cons], folded g_def rest_def]
    have ded: "\<forall>r\<in>set (dedup_rows rest). re_key r \<noteq> re_key x" using p(3) dedup_rows_subset [of rest] by blast
    have "g \<noteq> []" by (simp add: g_def)
    have "merged_rows f True None (dedup_rows rs) = group_output f g @ merged_rows f True None (dedup_rows rest)"
      unfolding Cons p(1) dedup_group [OF p(2,3)] by (rule merged_dedup_group [OF p(2) ded])
    moreover have "map entry_of (visible_rows (merged_rows f True None (dedup_rows rest))) = scan_result f rest"
      using less.hyps [OF _ p(4)] p(5) Cons by simp
    ultimately show ?thesis
      unfolding Cons p(1) scan_result_group [OF \<open>g \<noteq> []\<close> p(2,3)]
      using group_visible [OF p(2), of f] by (simp add: visible_rows_def)
  qed
qed

subsection \<open>Removing overwritten versions early\<close>

lemma sort_rows_mset: "mset xs = mset ys \<Longrightarrow> distinct_rows xs \<Longrightarrow> sort_rows ord' xs = sort_rows ord' ys"
  by (rule sorted_rows_unique [OF sorted_sort_rows sorted_sort_rows])
    (simp_all add: distinct_rows_mset [of "sort_rows ord' xs" xs])

lemma distinct_sort_rows [simp]: "distinct_rows (sort_rows ord' xs) \<longleftrightarrow> distinct_rows xs"
  by (rule distinct_rows_mset) simp

lemma distinct_dedup_rows: "distinct_rows xs \<Longrightarrow> distinct_rows (dedup_rows xs)"
proof (induction xs rule: dedup_rows.induct)
  case (2 x xs)
  let ?r = "if is_merge (re_value x) then xs else dropWhile (\<lambda>y. re_key y = re_key x) xs"
  have "distinct_rows ?r" using "2.prems" by (simp add: distinct_rows_dropWhile)
  then have "distinct_rows (dedup_rows ?r)" by (rule "2.IH")
  moreover have "set (dedup_rows ?r) \<subseteq> set xs"
    using dedup_rows_subset [of ?r] by (auto dest: set_dropWhileD split: if_splits)
  moreover have "row_id x \<notin> row_id ` set xs" using "2.prems" by simp
  ultimately have "row_id x \<notin> row_id ` set (dedup_rows ?r)" "distinct_rows (dedup_rows ?r)" by blast+
  then show ?case by simp
qed simp

lemma sorted_distinct_set_eq:
  assumes "sorted_wrt (row_le ord') xs" "sorted_wrt (row_le ord') ys" "distinct_rows xs" "distinct_rows ys" "set xs = set ys"
  shows "xs = ys"
proof (rule sorted_rows_unique [OF assms(1,2) _ assms(3)])
  have "distinct xs" "distinct ys" using assms(3,4) by (simp_all add: distinct_map)
  with assms(5) show "mset xs = mset ys" by (simp add: set_eq_iff_mset_eq_distinct)
qed

lemma set_dedup_sort:
  "distinct_rows xs \<Longrightarrow> set (dedup_rows (sort_rows ord' xs)) = {x \<in> set xs. visible_version (set xs) x}"
  using set_dedup_rows [OF sorted_sort_rows [of ord' xs]] distinct_sort_rows [of ord' xs]
  by (simp add: row_id_def [abs_def])

lemma newest_plain_version:
  assumes "finite S" "y \<in> S" "\<not> is_merge (re_value y)"
  shows "\<exists>z\<in>S. re_key z = re_key y \<and> \<not> is_merge (re_value z) \<and> re_seq y \<le> re_seq z \<and> visible_version S z"
proof -
  define T where "T = {z \<in> S. re_key z = re_key y \<and> \<not> is_merge (re_value z)}"
  have T: "finite (re_seq ` T)" "re_seq ` T \<noteq> {}" using assms by (auto simp: T_def)
  from Max_in [OF T] obtain z where z: "Max (re_seq ` T) = re_seq z" "z \<in> T" by (rule imageE)
  have max: "re_seq w \<le> re_seq z" if "w \<in> T" for w unfolding z(1) [symmetric] using T(1) that by (intro Max_ge) auto
  have "y \<in> T" using assms by (simp add: T_def)
  moreover have "visible_version S z"
    unfolding visible_version_def using max z(2) by (fastforce simp: T_def)
  ultimately show ?thesis using z(2) max by (auto simp: T_def)
qed

text \<open>Removing the overwritten versions of some of the rows first does not change the result.\<close>

lemma dedup_nested:
  assumes "distinct_rows (A @ B)"
  shows "dedup_rows (sort_rows ord' (dedup_rows (sort_rows ord' A) @ B)) = dedup_rows (sort_rows ord' (A @ B))"
proof -
  let ?A' = "dedup_rows (sort_rows ord' A)"
  have A: "distinct_rows A" using assms by simp
  have A': "set ?A' = {x \<in> set A. visible_version (set A) x}" by (rule set_dedup_sort [OF A])
  have "distinct_rows ?A'" using A by (simp add: distinct_dedup_rows)
  then have AB': "distinct_rows (?A' @ B)" using assms A' by auto
  have "x \<in> set (?A' @ B) \<and> visible_version (set (?A' @ B)) x \<longleftrightarrow> x \<in> set (A @ B) \<and> visible_version (set (A @ B)) x" for x
  proof
    assume l: "x \<in> set (?A' @ B) \<and> visible_version (set (?A' @ B)) x"
    have "is_merge (re_value y)" if y: "y \<in> set (A @ B)" "re_key y = re_key x" "re_seq x < re_seq y" for y
    proof (rule ccontr)
      assume nm: "\<not> is_merge (re_value y)"
      have "y \<notin> set (?A' @ B)" using l y nm by (auto simp: visible_version_def)
      then have "y \<in> set A" using y(1) by simp
      with newest_plain_version [of "set A" y] nm obtain z where
        "z \<in> set A" "re_key z = re_key y" "\<not> is_merge (re_value z)" "re_seq y \<le> re_seq z" "visible_version (set A) z" by auto
      then have "z \<in> set (?A' @ B)" "re_key z = re_key x" "re_seq x < re_seq z" "\<not> is_merge (re_value z)"
        using A' y by auto
      with l show False by (auto simp: visible_version_def)
    qed
    moreover have "x \<in> set (A @ B)" using l A' by auto
    ultimately show "x \<in> set (A @ B) \<and> visible_version (set (A @ B)) x" by (simp add: visible_version_def)
  next
    assume r: "x \<in> set (A @ B) \<and> visible_version (set (A @ B)) x"
    then have "x \<in> set (?A' @ B)" using A' by (auto simp: visible_version_def)
    with r A' show "x \<in> set (?A' @ B) \<and> visible_version (set (?A' @ B)) x" by (auto simp: visible_version_def)
  qed
  then have "set (dedup_rows (sort_rows ord' (?A' @ B))) = set (dedup_rows (sort_rows ord' (A @ B)))"
    unfolding set_dedup_sort [OF AB'] set_dedup_sort [OF assms] by blast
  with AB' assms show ?thesis
    by (intro sorted_distinct_set_eq [of ord'] dedup_rows_sorted sorted_sort_rows distinct_dedup_rows)
      (simp_all only: distinct_sort_rows)
qed

end
