(* ===== verification/DbIter.thy ===== *)
theory DbIter
  imports Visible
begin

section \<open>The read path: \<open>db_iter.rs\<close>\<close>

text \<open>
  A read stacks iterators: the write batch of the transaction, the memtables and the on-disk chain,
  the latter two filtered by the snapshot's sequence number, under a merge (a scan) or a walk from the
  newest source to the oldest (a get), under the merge operator. The iterators over the memtables and
  over the on-disk chain are arguments, with their operations; the locale \<open>row_source\<close> is what is
  used of them. The stream that initialises the sources of a get ahead of their use is the list of
  the sources still to be initialised: it yields them in order.
\<close>

subsection \<open>Operations of an iterator\<close>

record 's iter_ops =
  it_init :: "'s \<Rightarrow> 's result"
  it_next :: "'s next_fn"
  it_seek :: "'s seek_fn"

definition box_ops :: "'a iter_ops \<Rightarrow> 'b iter_ops \<Rightarrow> ('a + 'b) iter_ops" where
  "box_ops a b =
     \<lparr>it_init = box_init (it_init a) (it_init b), it_next = box_next (it_next a) (it_next b),
      it_seek = box_seek (it_seek a) (it_seek b)\<rparr>"

definition filter_ops :: "'s iter_ops \<Rightarrow> 's filter_iterator iter_ops" where
  "filter_ops a = \<lparr>it_init = filter_init (it_init a), it_next = filter_next (it_next a), it_seek = filter_seek (it_seek a)\<rparr>"

definition merge_ops :: "'s heap_pop \<Rightarrow> 's iter_ops \<Rightarrow> 's merge_iterator iter_ops" where
  "merge_ops pop a =
     \<lparr>it_init = merge_initialize pop (it_init a) (it_next a), it_next = merge_next pop (it_next a),
      it_seek = merge_seek pop (it_next a) (it_seek a)\<rparr>"

definition batch_ops :: "(write_batch_iterator + empty_iterator) iter_ops" where
  "batch_ops = box_ops \<lparr>it_init = write_batch_init, it_next = write_batch_next, it_seek = write_batch_seek\<rparr>
     \<lparr>it_init = empty_init, it_next = empty_next, it_seek = empty_seek\<rparr>"

definition apply_filters :: "'s list \<Rightarrow> u64 option \<Rightarrow> ('s filter_iterator + 's) list" where
  "apply_filters iters max_seq =
     (case max_seq of
        Some max_seq \<Rightarrow> map (\<lambda>iter. Inl (new_with_max_seq iter (Some max_seq))) iters
      | None \<Rightarrow> map Inr iters)"

definition filtered_ops :: "'s iter_ops \<Rightarrow> ('s filter_iterator + 's) iter_ops" where
  "filtered_ops a = box_ops (filter_ops a) a"

subsection \<open>Point lookups\<close>

record 's get_iterator =
  gi_key :: bytes
  gi_sources :: "'s list"
  gi_current :: "'s option"

definition with_lookahead :: "bytes \<Rightarrow> 's list \<Rightarrow> 's get_iterator" where
  "with_lookahead key iters = \<lparr>gi_key = key, gi_sources = iters, gi_current = None\<rparr>"

type_synonym ('m, 'g) read_source = "(write_batch_iterator + empty_iterator) + (('m filter_iterator + 'm) + 'g filter_iterator)"

definition get_iterator_new ::
    "bytes \<Rightarrow> write_batch_iterator + empty_iterator \<Rightarrow> ('m filter_iterator + 'm) list \<Rightarrow> 'g filter_iterator
      \<Rightarrow> ('m, 'g) read_source get_iterator" where
  "get_iterator_new key write_batch_iter mem_iters segment_iter =
     with_lookahead key ([Inl write_batch_iter] @ map (\<lambda>i. Inr (Inl i)) mem_iters @ [Inr (Inr segment_iter)])"

definition get_init :: "'s get_iterator \<Rightarrow> 's get_iterator result" where
  "get_init it = Inr it"

partial_function (option) get_loop ::
    "'s iter_ops \<Rightarrow> 's get_iterator \<Rightarrow> (row_entry option \<times> 's get_iterator) result option" where
  "get_loop ops it =
     (case gi_current it of
        None \<Rightarrow>
          (case gi_sources it of
             [] \<Rightarrow> Some (Inr (None, it))
           | source # sources \<Rightarrow>
               (case it_init ops source of
                  Inl e \<Rightarrow> Some (Inl e)
                | Inr iter \<Rightarrow> get_loop ops (it\<lparr>gi_sources := sources, gi_current := Some iter\<rparr>)))
      | Some iter \<Rightarrow>
          (case it_next ops iter of
             Inl e \<Rightarrow> Some (Inl e)
           | Inr (None, iter) \<Rightarrow> get_loop ops (it\<lparr>gi_current := None\<rparr>)
           | Inr (Some entry, iter) \<Rightarrow>
               if is_merge (re_value entry) then Some (Inr (Some entry, it\<lparr>gi_current := Some iter\<rparr>))
               else Some (Inr (if is_tombstone (re_value entry) then None else Some entry,
                               it\<lparr>gi_current := None, gi_sources := []\<rparr>))))"

declare get_loop.simps [code]

definition get_next :: "'s iter_ops \<Rightarrow> 's get_iterator next_fn" where
  "get_next ops it = run_loop (get_loop ops it)"

definition get_seek :: "'s get_iterator seek_fn" where
  "get_seek it next_key = (if next_key \<noteq> gi_key it then Inl (SeekKeyOutOfRange next_key) else Inr it)"

subsection \<open>Scans\<close>

type_synonym ('m, 'g) scan_source =
  "(write_batch_iterator + empty_iterator) + (('m filter_iterator + 'm) merge_iterator + 'g filter_iterator)"

definition scan_iterator_new ::
    "write_batch_iterator + empty_iterator \<Rightarrow> ('m filter_iterator + 'm) list \<Rightarrow> 'g filter_iterator \<Rightarrow> iteration_order
      \<Rightarrow> ('m, 'g) scan_source merge_iterator" where
  "scan_iterator_new write_batch_iter mem_iters segment_iter order =
     merge_iterator_new_with_order
       [Inl write_batch_iter, Inr (Inl (merge_iterator_new_with_order mem_iters order)), Inr (Inr segment_iter)] order"

subsection \<open>The iterator of the API\<close>

type_synonym ('m, 'g) read_delegate = "('m, 'g) read_source get_iterator + ('m, 'g) scan_source merge_iterator"
type_synonym ('m, 'g) read_iter = "merge_batch \<times> ('m, 'g) read_delegate merge_operator_iterator + ('m, 'g) read_delegate"

record ('m, 'g) db_iterator =
  di_range :: bytes_range
  di_iter :: "('m, 'g) read_iter"
  di_invalidated_error :: "slatedb_error option"
  di_last_key :: "bytes option"
  di_order :: iteration_order

text \<open>
  The environment of a read: the operations of the memtable and on-disk iterators, and the \<open>pop\<close> of
  the heaps of the two merges.
\<close>

record ('m, 'g) read_env =
  re_mem :: "'m iter_ops"
  re_segment :: "'g iter_ops"
  re_mem_pop :: "('m filter_iterator + 'm) heap_pop"
  re_scan_pop :: "('m, 'g) scan_source heap_pop"

definition get_ops :: "('m, 'g) read_env \<Rightarrow> ('m, 'g) read_source get_iterator iter_ops" where
  "get_ops env =
     \<lparr>it_init = get_init,
      it_next = get_next (box_ops batch_ops (box_ops (filtered_ops (re_mem env)) (filter_ops (re_segment env)))),
      it_seek = get_seek\<rparr>"

definition scan_ops :: "('m, 'g) read_env \<Rightarrow> ('m, 'g) scan_source merge_iterator iter_ops" where
  "scan_ops env =
     merge_ops (re_scan_pop env)
       (box_ops batch_ops (box_ops (merge_ops (re_mem_pop env) (filtered_ops (re_mem env))) (filter_ops (re_segment env))))"

definition merge_operator_ops :: "'s iter_ops \<Rightarrow> (merge_batch \<times> 's merge_operator_iterator) iter_ops" where
  "merge_operator_ops a =
     \<lparr>it_init = (\<lambda>(mb, it). bind_result (merge_operator_init (it_init a) it) (\<lambda>it. Inr (mb, it))),
      it_next = (\<lambda>(mb, it). bind_result (merge_operator_next mb (it_next a) it) (\<lambda>(r, it). Inr (r, (mb, it)))),
      it_seek = (\<lambda>(mb, it) k. bind_result (merge_operator_seek (it_seek a) it k) (\<lambda>it. Inr (mb, it)))\<rparr>"

definition required_ops :: "'s iter_ops \<Rightarrow> 's iter_ops" where
  "required_ops a = \<lparr>it_init = it_init a, it_next = required_next (it_next a), it_seek = it_seek a\<rparr>"

definition read_ops :: "('m, 'g) read_env \<Rightarrow> ('m, 'g) read_iter iter_ops" where
  "read_ops env =
     (let delegate = box_ops (get_ops env) (scan_ops env)
      in box_ops (merge_operator_ops delegate) (required_ops delegate))"

definition db_iterator_new ::
    "('m, 'g) read_env \<Rightarrow> bytes_range \<Rightarrow> write_batch_iterator option \<Rightarrow> 'm list \<Rightarrow> 'g \<Rightarrow> u64 option
      \<Rightarrow> merge_batch option \<Rightarrow> iteration_order \<Rightarrow> ('m, 'g) db_iterator result" where
  "db_iterator_new env key_range write_batch_iter mem_iters segment_iter max_seq merger order =
     (let write_batch_iter = (case write_batch_iter of Some iter \<Rightarrow> Inl iter | None \<Rightarrow> Inr EmptyIterator);
          mem_iters = apply_filters mem_iters max_seq;
          segment_iter = new_with_max_seq segment_iter max_seq;
          iter = (case as_point key_range of
                    Some key \<Rightarrow> Inl (get_iterator_new key write_batch_iter mem_iters segment_iter)
                  | None \<Rightarrow> Inr (scan_iterator_new write_batch_iter mem_iters segment_iter order));
          iter = (case merger of
                    Some mb \<Rightarrow> Inl (mb, merge_operator_iterator_new iter True None)
                  | None \<Rightarrow> Inr iter)
      in bind_result (it_init (read_ops env) iter) (\<lambda>iter.
           Inr \<lparr>di_range = key_range, di_iter = iter, di_invalidated_error = None, di_last_key = None, di_order = order\<rparr>))"

partial_function (option) next_entry_loop ::
    "'s iter_ops \<Rightarrow> 's \<Rightarrow> (row_entry option \<times> 's) result option" where
  "next_entry_loop ops iter =
     (case it_next ops iter of
        Inl e \<Rightarrow> Some (Inl e)
      | Inr (None, iter) \<Rightarrow> Some (Inr (None, iter))
      | Inr (Some entry, iter) \<Rightarrow>
          if is_tombstone (re_value entry) then next_entry_loop ops iter
          else Some (Inr (Some entry, iter)))"

declare next_entry_loop.simps [code]

definition maybe_invalidate :: "'a result \<Rightarrow> ('m, 'g) db_iterator \<Rightarrow> ('m, 'g) db_iterator" where
  "maybe_invalidate result it =
     (case result of Inl error \<Rightarrow> it\<lparr>di_invalidated_error := Some error\<rparr> | Inr _ \<Rightarrow> it)"

definition next_entry_inner ::
    "('m, 'g) read_env \<Rightarrow> ('m, 'g) db_iterator \<Rightarrow> row_entry option result \<times> ('m, 'g) db_iterator" where
  "next_entry_inner env it =
     (case di_invalidated_error it of
        Some error \<Rightarrow> (Inl error, it)
      | None \<Rightarrow>
          (case run_loop (next_entry_loop (read_ops env) (di_iter it)) of
             Inl e \<Rightarrow> (Inl e, maybe_invalidate (Inl e :: unit result) it)
           | Inr (None, iter) \<Rightarrow> (Inr None, it\<lparr>di_iter := iter\<rparr>)
           | Inr (Some entry, iter) \<Rightarrow> (Inr (Some entry), it\<lparr>di_iter := iter, di_last_key := Some (re_key entry)\<rparr>)))"

definition db_iterator_next ::
    "('m, 'g) read_env \<Rightarrow> ('m, 'g) db_iterator \<Rightarrow> key_value option result \<times> ('m, 'g) db_iterator" where
  "db_iterator_next env it =
     (let (entry_opt, it) = next_entry_inner env it
      in (bind_result entry_opt (\<lambda>entry_opt.
            case entry_opt of
              Some entry \<Rightarrow>
                if is_tombstone (re_value entry) then Inl UnexpectedTombstone
                else bind_result (key_value_from entry) (\<lambda>kv. Inr (Some kv))
            | None \<Rightarrow> Inr None), it))"

definition db_iterator_seek ::
    "('m, 'g) read_env \<Rightarrow> ('m, 'g) db_iterator \<Rightarrow> bytes \<Rightarrow> unit result \<times> ('m, 'g) db_iterator" where
  "db_iterator_seek env it next_key =
     (case di_invalidated_error it of
        Some error \<Rightarrow> (Inl error, it)
      | None \<Rightarrow>
          if di_order it = Descending then (Inl SeekNotSupportedForDescendingScan, it)
          else if \<not> contains (di_range it) next_key then (Inl (SeekKeyOutOfRange next_key), it)
          else if (case di_last_key it of Some last_key \<Rightarrow> next_key \<le> last_key | None \<Rightarrow> False)
          then (Inl SeekKeyLessThanLastReturnedKey, it)
          else (case it_seek (read_ops env) (di_iter it) next_key of
                  Inl e \<Rightarrow> (Inl e, maybe_invalidate (Inl e :: unit result) it)
                | Inr iter \<Rightarrow> (Inr (), it\<lparr>di_iter := iter\<rparr>)))"

subsection \<open>What the stacked iterators supply\<close>

text \<open>An iterator supplies rows when it satisfies the contract of a source with them.\<close>

definition supplies :: "'s iter_ops \<Rightarrow> iteration_order \<Rightarrow> ('s \<Rightarrow> bool) \<Rightarrow> ('s \<Rightarrow> row_entry list) \<Rightarrow> bool" where
  "supplies ops ord' ready srows \<longleftrightarrow>
     (\<exists>I rows behind. row_source I rows (it_next ops) (it_seek ops) ord' behind (it_init ops) ready srows)"

lemma suppliesI:
  "row_source I rows (it_next ops) (it_seek ops) ord' behind (it_init ops) ready srows \<Longrightarrow> supplies ops ord' ready srows"
  by (auto simp: supplies_def)

lemma supplies_mono:
  assumes "supplies ops ord' ready srows" "\<And>s. ready' s \<Longrightarrow> ready s \<and> srows' s = srows s"
  shows "supplies ops ord' ready' srows'"
proof -
  from assms(1) obtain I rows behind where
    src: "row_source I rows (it_next ops) (it_seek ops) ord' behind (it_init ops) ready srows" by (auto simp: supplies_def)
  show ?thesis
  proof (rule suppliesI, rule row_source.intro [OF row_source.axioms(1) [OF src]], rule row_source_axioms.intro)
    fix s assume "ready' s"
    with assms(2) have "ready s" "srows' s = srows s" by blast+
    with row_source.init_ready [OF src] show "\<exists>s'. it_init ops s = Inr s' \<and> I s' \<and> rows s' = srows' s" by simp
  qed
qed

lemma supplies_box:
  assumes "supplies a ord' ready srows" "supplies b ord' ready' srows'"
  shows "supplies (box_ops a b) ord' (case_sum ready ready') (case_sum srows srows')"
  using assms unfolding supplies_def box_ops_def iter_ops.simps by (blast intro: box_source)

lemma supplies_filter:
  assumes "supplies a ord' ready srows"
  shows "supplies (filter_ops a) ord' (\<lambda>it. ready (fi_iterator it)) (filtered_rows srows)"
  using assms unfolding supplies_def filter_ops_def iter_ops.simps by (blast intro: filter_source)

text \<open>A merge can moreover be asked to seek at any time.\<close>

definition freely_supplies :: "'s iter_ops \<Rightarrow> iteration_order \<Rightarrow> ('s \<Rightarrow> bool) \<Rightarrow> ('s \<Rightarrow> row_entry list) \<Rightarrow> bool" where
  "freely_supplies ops ord' ready srows \<longleftrightarrow>
     (\<exists>I rows. row_source I rows (it_next ops) (it_seek ops) ord' (\<lambda>_ _. True) (it_init ops) ready srows)"

lemma freely_supplies_supplies: "freely_supplies ops ord' ready srows \<Longrightarrow> supplies ops ord' ready srows"
  by (auto simp: freely_supplies_def supplies_def)

lemma freely_supplies_mono:
  assumes "freely_supplies ops ord' ready srows" "\<And>s. ready' s \<Longrightarrow> ready s \<and> srows' s = srows s"
  shows "freely_supplies ops ord' ready' srows'"
proof -
  from assms(1) obtain I rows where
    src: "row_source I rows (it_next ops) (it_seek ops) ord' (\<lambda>_ _. True) (it_init ops) ready srows" by (auto simp: freely_supplies_def)
  have "row_source I rows (it_next ops) (it_seek ops) ord' (\<lambda>_ _. True) (it_init ops) ready' srows'"
  proof (rule row_source.intro [OF row_source.axioms(1) [OF src]], rule row_source_axioms.intro)
    fix s assume "ready' s"
    with assms(2) have "ready s" "srows' s = srows s" by blast+
    with row_source.init_ready [OF src] show "\<exists>s'. it_init ops s = Inr s' \<and> I s' \<and> rows s' = srows' s" by simp
  qed
  then show ?thesis by (auto simp: freely_supplies_def)
qed

lemma freely_supplies_right:
  assumes "freely_supplies b ord' ready srows"
  shows "freely_supplies (box_ops a b) ord' (case_sum (\<lambda>_. False) ready) (case_sum (\<lambda>_. []) srows)"
proof -
  from assms obtain I rows where
    src: "row_source I rows (it_next b) (it_seek b) ord' (\<lambda>_ _. True) (it_init b) ready srows" by (auto simp: freely_supplies_def)
  have none: "row_source (\<lambda>_. False) (\<lambda>_. []) (it_next a) (it_seek a) ord' (\<lambda>_ _. True) (it_init a) (\<lambda>_. False) (\<lambda>_. [])"
    by unfold_locales simp_all
  have all: "case_sum (\<lambda>_ _. True) (\<lambda>_ _. True) = (\<lambda>_ _. True)" by (auto simp: fun_eq_iff split: sum.split)
  from box_source [OF none src] show ?thesis unfolding freely_supplies_def box_ops_def iter_ops.simps all by blast
qed

lemma freely_merge:
  assumes "supplies a ord' ready srows" "heap_law pop"
  shows "freely_supplies (merge_ops pop a) ord'
    (\<lambda>it. \<exists>sources. it = merge_iterator_new_with_order sources ord' \<and> list_all ready sources \<and> distinct_rows (concat (map srows sources)))
    (\<lambda>it. dedup_rows (sort_rows ord' (concat (map (srows \<circ> snd) (mi_pending_iterators it)))))"
proof -
  from assms(1) obtain I rows behind where
    src: "row_source I rows (it_next a) (it_seek a) ord' behind (it_init a) ready srows" by (auto simp: supplies_def)
  have m: "merge_sources I rows (it_next a) (it_seek a) ord' behind (it_init a) ready srows pop"
    using src assms(2) by (auto intro!: merge_sources.intro merge_sources_axioms.intro)
  from merge_sources.merge_source [OF m]
  have "freely_supplies (merge_ops pop a) ord' (merge_sources.merge_ready ord' ready srows) (merge_sources.merge_source_rows ord' srows)"
    unfolding merge_ops_def freely_supplies_def iter_ops.simps by blast
  then show ?thesis
  proof (rule freely_supplies_mono)
    fix it assume "\<exists>sources. it = merge_iterator_new_with_order sources ord' \<and> list_all ready sources
      \<and> distinct_rows (concat (map srows sources))"
    then obtain sources where s: "it = merge_iterator_new_with_order sources ord'" "list_all ready sources"
      "distinct_rows (concat (map srows sources))" by blast
    have "it = with_dedup True it" by (simp add: s(1) with_dedup_def merge_iterator_new_with_order_def)
    with s show "merge_sources.merge_ready ord' ready srows it
        \<and> dedup_rows (sort_rows ord' (concat (map (srows \<circ> snd) (mi_pending_iterators it))))
          = merge_sources.merge_source_rows ord' srows it"
      unfolding merge_sources.merge_ready_def [OF m] merge_sources.merge_source_rows_def [OF m]
      by (auto simp: merge_iterator_new_with_order_def)
  qed
qed

lemmas supplies_merge = freely_supplies_supplies [OF freely_merge]

text \<open>The filtered iterators, the write batch, and the three arms of a scan.\<close>

definition at_snapshot :: "u64 option \<Rightarrow> row_entry list \<Rightarrow> row_entry list" where
  "at_snapshot max_seq rs = (case max_seq of None \<Rightarrow> rs | Some m \<Rightarrow> filter (\<lambda>r. re_seq r \<le> m) rs)"

lemma at_snapshot_concat: "concat (map (\<lambda>x. at_snapshot m (rows x)) xs) = at_snapshot m (concat (map rows xs))"
  by (cases m) (induction xs; simp add: at_snapshot_def)+

definition filtered_ready :: "u64 option \<Rightarrow> ('s \<Rightarrow> bool) \<Rightarrow> 's filter_iterator \<Rightarrow> bool" where
  "filtered_ready max_seq ready it \<longleftrightarrow> ready (fi_iterator it) \<and> it = new_with_max_seq (fi_iterator it) max_seq"

lemma supplies_max_seq:
  assumes "supplies a ord' ready srows"
  shows "supplies (filter_ops a) ord' (filtered_ready max_seq ready) (\<lambda>it. at_snapshot max_seq (srows (fi_iterator it)))"
proof (rule supplies_mono [OF supplies_filter [OF assms]])
  fix it :: "'a filter_iterator"
  assume r: "filtered_ready max_seq ready it"
  then have "fi_predicate it = fi_predicate (new_with_max_seq (fi_iterator it) max_seq)" by (simp add: filtered_ready_def)
  then have "filtered_rows srows it = at_snapshot max_seq (srows (fi_iterator it))"
    by (simp add: filtered_rows_def at_snapshot_def new_with_max_seq_def filter_iterator_new_def split: option.splits)
  with r show "ready (fi_iterator it) \<and> at_snapshot max_seq (srows (fi_iterator it)) = filtered_rows srows it"
    by (simp add: filtered_ready_def)
qed

definition applied_ready :: "u64 option \<Rightarrow> ('s \<Rightarrow> bool) \<Rightarrow> 's filter_iterator + 's \<Rightarrow> bool" where
  "applied_ready max_seq ready =
     case_sum (\<lambda>it. max_seq \<noteq> None \<and> filtered_ready max_seq ready it) (\<lambda>s. max_seq = None \<and> ready s)"

definition applied_rows :: "u64 option \<Rightarrow> ('s \<Rightarrow> row_entry list) \<Rightarrow> 's filter_iterator + 's \<Rightarrow> row_entry list" where
  "applied_rows max_seq srows = case_sum (\<lambda>it. at_snapshot max_seq (srows (fi_iterator it))) (\<lambda>s. at_snapshot max_seq (srows s))"

lemma supplies_applied:
  assumes "supplies a ord' ready srows"
  shows "supplies (filtered_ops a) ord' (applied_ready max_seq ready) (applied_rows max_seq srows)"
  unfolding filtered_ops_def
proof (rule supplies_mono [OF supplies_box [OF supplies_max_seq [OF assms, of max_seq] assms]])
  fix s :: "'a filter_iterator + 'a"
  assume "applied_ready max_seq ready s"
  then show "case_sum (filtered_ready max_seq ready) ready s
      \<and> applied_rows max_seq srows s = case_sum (\<lambda>it. at_snapshot max_seq (srows (fi_iterator it))) srows s"
    by (cases s) (auto simp: applied_ready_def applied_rows_def at_snapshot_def)
qed

lemma apply_filters_ready:
  assumes "list_all ready iters"
  shows "list_all (applied_ready max_seq ready) (apply_filters iters max_seq)"
    "map (applied_rows max_seq srows) (apply_filters iters max_seq) = map (\<lambda>i. at_snapshot max_seq (srows i)) iters"
  using assms
  by (cases max_seq; auto simp: apply_filters_def applied_ready_def applied_rows_def filtered_ready_def list_all_iff
      new_with_max_seq_def filter_iterator_new_def)+

definition batch_ready :: "iteration_order \<Rightarrow> write_batch_iterator + empty_iterator \<Rightarrow> bool" where
  "batch_ready ord' = case_sum (batch_iter_ok ord') (\<lambda>_. True)"

definition batch_rows :: "write_batch_iterator + empty_iterator \<Rightarrow> row_entry list" where
  "batch_rows = case_sum wbi_iter (\<lambda>_. [])"

lemma supplies_batch: "supplies batch_ops ord' (batch_ready ord') batch_rows"
  unfolding batch_ops_def batch_ready_def batch_rows_def
  by (intro supplies_box suppliesI) (simp_all, rule wbi.row_source_axioms, rule emp.row_source_axioms)

subsection \<open>Scans\<close>

definition read_rows ::
    "write_batch_iterator option \<Rightarrow> row_entry list \<Rightarrow> row_entry list \<Rightarrow> u64 option \<Rightarrow> row_entry list" where
  "read_rows write_batch_iter mem_rows segment_rows max_seq =
     (case write_batch_iter of Some it \<Rightarrow> wbi_iter it | None \<Rightarrow> [])
       @ at_snapshot max_seq mem_rows @ at_snapshot max_seq segment_rows"

definition boxed_batch :: "write_batch_iterator option \<Rightarrow> write_batch_iterator + empty_iterator" where
  "boxed_batch write_batch_iter = (case write_batch_iter of Some iter \<Rightarrow> Inl iter | None \<Rightarrow> Inr EmptyIterator)"

text \<open>
  What a read relies on: the heaps are priority queues, and the memtable and on-disk iterators supply
  \<open>mem_rows\<close> and \<open>segment_rows\<close> in the order of the read.
\<close>

definition read_env_ok ::
    "('m, 'g) read_env \<Rightarrow> iteration_order \<Rightarrow> write_batch_iterator option \<Rightarrow> 'm list \<Rightarrow> row_entry list list \<Rightarrow> 'g \<Rightarrow> row_entry list \<Rightarrow> bool" where
  "read_env_ok env order write_batch_iter mem_iters mem_rows segment_iter segment_rows \<longleftrightarrow>
     heap_law (re_mem_pop env) \<and> heap_law (re_scan_pop env)
     \<and> (\<exists>ready srows. supplies (re_mem env) order ready srows \<and> list_all ready mem_iters \<and> map srows mem_iters = mem_rows)
     \<and> (\<exists>ready srows. supplies (re_segment env) order ready srows \<and> ready segment_iter \<and> srows segment_iter = segment_rows)
     \<and> (case write_batch_iter of None \<Rightarrow> True | Some it \<Rightarrow> batch_iter_ok order it)"

lemma map_enumerate_rows: "map (rows \<circ> snd) (enumerate 0 xs) = map rows xs"
  unfolding map_map [symmetric] map_snd_enumerate ..

lemma distinct_rows_middle:
  assumes "distinct_rows (b @ m @ g)" "distinct_rows m'" "set m' \<subseteq> set m"
  shows "distinct_rows (b @ m' @ g)"
proof -
  define B M M' G where "B = row_id ` set b" and "M = row_id ` set m" and "M' = row_id ` set m'" and "G = row_id ` set g"
  note defs = B_def M_def M'_def G_def
  from assms(3) have "M' \<subseteq> M" unfolding defs by (rule image_mono)
  moreover have "M \<inter> G = {}" "B \<inter> (M \<union> G) = {}" "distinct_rows b" "distinct_rows g"
    using assms(1) by (simp_all add: defs)
  ultimately have "M' \<inter> G = {}" "B \<inter> (M' \<union> G) = {}" "distinct_rows b" "distinct_rows g" by blast+
  with assms(2) show ?thesis by (simp add: defs)
qed

lemma scan_supplies:
  fixes env :: "('m, 'g) read_env"
  assumes env: "read_env_ok env order wb mem_iters mem_rows segment_iter segment_rows"
    and dist: "distinct_rows (read_rows wb (concat mem_rows) segment_rows max_seq)"
  defines "it \<equiv> scan_iterator_new (boxed_batch wb) (apply_filters mem_iters max_seq) (new_with_max_seq segment_iter max_seq) order"
  shows "\<exists>ready srows. freely_supplies (scan_ops env) order ready srows \<and> ready it
    \<and> srows it = dedup_rows (sort_rows order (read_rows wb (concat mem_rows) segment_rows max_seq))"
proof -
  from env obtain mready msrows sready ssrows where laws: "heap_law (re_mem_pop env)" "heap_law (re_scan_pop env)"
    and m: "supplies (re_mem env) order mready msrows" "list_all mready mem_iters" "map msrows mem_iters = mem_rows"
    and g: "supplies (re_segment env) order sready ssrows" "sready segment_iter" "ssrows segment_iter = segment_rows"
    and wb: "batch_ready order (boxed_batch wb)"
    by (auto simp: read_env_ok_def batch_ready_def boxed_batch_def split: option.splits)
  let ?mems = "apply_filters mem_iters max_seq" and ?seg = "new_with_max_seq segment_iter max_seq"
  let ?inner = "merge_iterator_new_with_order ?mems order"
  let ?B = "batch_rows (boxed_batch wb)" and ?M = "at_snapshot max_seq (concat mem_rows)" and ?G = "at_snapshot max_seq segment_rows"
  have rr: "read_rows wb (concat mem_rows) segment_rows max_seq = ?B @ ?M @ ?G"
    by (simp add: read_rows_def batch_rows_def boxed_batch_def split: option.splits)
  note inner = supplies_merge [OF supplies_applied [OF m(1), of max_seq] laws(1)]
  note arms = supplies_box [OF supplies_batch supplies_box [OF inner supplies_max_seq [OF g(1), of max_seq]]]
  note outer = freely_merge [OF arms laws(2), folded scan_ops_def]
  have mems: "list_all (applied_ready max_seq mready) ?mems" "concat (map (applied_rows max_seq msrows) ?mems) = ?M"
    using apply_filters_ready(1) [OF m(2), of max_seq] apply_filters_ready(2) [OF m(2), where max_seq = max_seq and srows = msrows]
      m(3) at_snapshot_concat [of max_seq msrows mem_iters] by simp_all
  have seg: "filtered_ready max_seq sready ?seg" "at_snapshot max_seq (ssrows (fi_iterator ?seg)) = ?G"
    using g(2,3) by (auto simp: filtered_ready_def new_with_max_seq_def filter_iterator_new_def split: option.splits)
  have dM: "distinct_rows ?M" using dist unfolding rr by simp
  have sub: "set (dedup_rows (sort_rows order ?M)) \<subseteq> set ?M" using dedup_rows_subset [of "sort_rows order ?M"] by simp
  have d: "distinct_rows (?B @ dedup_rows (sort_rows order ?M) @ ?G)"
    using distinct_rows_middle [OF dist [unfolded rr] _ sub] dM by (simp add: distinct_dedup_rows)
  have d2: "distinct_rows (?M @ ?B @ ?G)"
    by (rule iffD2 [OF distinct_rows_mset dist [unfolded rr]]) simp
  have rows: "dedup_rows (sort_rows order (?B @ dedup_rows (sort_rows order ?M) @ ?G)) = dedup_rows (sort_rows order (?B @ ?M @ ?G))"
  proof -
    have "sort_rows order (?B @ dedup_rows (sort_rows order ?M) @ ?G) = sort_rows order (dedup_rows (sort_rows order ?M) @ ?B @ ?G)"
      by (rule sort_rows_mset [OF _ d]) simp
    also have "dedup_rows \<dots> = dedup_rows (sort_rows order (?M @ ?B @ ?G))"
      by (rule dedup_nested [OF d2])
    also have "sort_rows order (?M @ ?B @ ?G) = sort_rows order (?B @ ?M @ ?G)"
      by (rule sort_rows_mset [OF _ d2]) simp
    finally show ?thesis .
  qed
  have pending: "mi_pending_iterators (merge_iterator_new_with_order xs order) = enumerate 0 xs" for xs
    by (simp add: merge_iterator_new_with_order_def)
  let ?sources = "[Inl (boxed_batch wb), Inr (Inl ?inner), Inr (Inr ?seg)]"
  define S :: "('m, 'g) scan_source \<Rightarrow> row_entry list" where "S = case_sum batch_rows (case_sum
    (\<lambda>it. dedup_rows (sort_rows order (concat (map (applied_rows max_seq msrows \<circ> snd) (mi_pending_iterators it)))))
    (\<lambda>it. at_snapshot max_seq (ssrows (fi_iterator it))))"
  have S: "concat (map S ?sources) = ?B @ dedup_rows (sort_rows order ?M) @ ?G"
    by (simp add: S_def pending map_enumerate_rows mems(2) seg(2))
  define R where "R = (\<lambda>it. \<exists>sources. it = merge_iterator_new_with_order sources order \<and> list_all
        (case_sum (batch_ready order) (case_sum
           (\<lambda>it. \<exists>sources. it = merge_iterator_new_with_order sources order \<and> list_all (applied_ready max_seq mready) sources
              \<and> distinct_rows (concat (map (applied_rows max_seq msrows) sources)))
           (filtered_ready max_seq sready))) sources \<and> distinct_rows (concat (map S sources)))"
  show ?thesis
  proof (rule exI [of _ R], rule exI, intro conjI)
    show "freely_supplies (scan_ops env) order R (\<lambda>it. dedup_rows (sort_rows order (concat (map (S \<circ> snd) (mi_pending_iterators it)))))"
      using outer unfolding S_def [symmetric] R_def [symmetric] .
    show "R it"
      unfolding R_def it_def scan_iterator_new_def
      by (rule exI [of _ ?sources]) (use mems dM seg(1) wb d S in \<open>auto intro!: exI [of _ ?mems]\<close>)
    show "dedup_rows (sort_rows order (concat (map (S \<circ> snd) (mi_pending_iterators it))))
        = dedup_rows (sort_rows order (read_rows wb (concat mem_rows) segment_rows max_seq))"
      unfolding it_def scan_iterator_new_def pending map_enumerate_rows S rows rr ..
  qed
qed

subsection \<open>From the stacked iterators to the iterator of the API\<close>

lemma next_entry_loop_rows:
  fixes rows :: "'s \<Rightarrow> row_entry list"
  assumes it: "row_iterator I rows (it_next ops)" and "I s"
  shows "\<exists>r s'. next_entry_loop ops s = Some (Inr (r, s')) \<and> I s'
    \<and> (case r of None \<Rightarrow> visible_rows (rows s) = [] \<and> visible_rows (rows s') = []
       | Some x \<Rightarrow> visible_rows (rows s) = x # visible_rows (rows s'))"
  using assms(2)
proof (induction "rows s" arbitrary: s)
  case Nil
  with row_iterator.next_end [OF it, of s] obtain s' where "it_next ops s = Inr (None, s')" "I s'" "rows s' = []" by auto
  then show ?case using Nil.hyps by (subst next_entry_loop.simps) (auto simp: visible_rows_def)
next
  case (Cons x xs)
  from row_iterator.next_row [OF it Cons.prems Cons.hyps(2) [symmetric]] obtain s' where
    s': "it_next ops s = Inr (Some x, s')" "I s'" "rows s' = xs" by blast
  show ?case
  proof (cases "is_tombstone (re_value x)")
    case False
    with s' show ?thesis by (subst next_entry_loop.simps) (simp add: Cons.hyps(2) [symmetric] visible_rows_def)
  next
    case True
    then have eqs: "next_entry_loop ops s = next_entry_loop ops s'" "visible_rows (rows s) = visible_rows (rows s')"
      using s' by (subst next_entry_loop.simps, simp, simp add: Cons.hyps(2) [symmetric] visible_rows_def)
    show ?thesis unfolding eqs by (rule Cons.hyps(1) [OF s'(3) [symmetric] s'(2)])
  qed
qed

definition kv_of :: "row_entry \<Rightarrow> key_value" where
  "kv_of e = \<lparr>kv_key = re_key e, kv_value = operand e, kv_seq = re_seq e,
              kv_create_ts = (case re_create_ts e of Some t \<Rightarrow> t | None \<Rightarrow> 0), kv_expire_ts = re_expire_ts e\<rparr>"

lemma key_value_from_visible: "\<not> is_tombstone (re_value e) \<Longrightarrow> key_value_from e = Inr (kv_of e)"
  by (cases "re_value e") (simp_all add: key_value_from_def kv_of_def operand_def)

text \<open>The calls of \<open>next\<close> on the iterator of the API, as a step that stops at an error.\<close>

definition db_next_fn :: "('m, 'g) read_env \<Rightarrow> ('m, 'g) db_iterator \<Rightarrow> (key_value option \<times> ('m, 'g) db_iterator) result" where
  "db_next_fn env it = (case db_iterator_next env it of (Inl e, _) \<Rightarrow> Inl e | (Inr r, it) \<Rightarrow> Inr (r, it))"

lemma db_next_rows:
  fixes env :: "('m, 'g) read_env"
  assumes it: "row_iterator I rows (it_next (read_ops env))"
  shows "row_iterator (\<lambda>it :: ('m, 'g) db_iterator. di_invalidated_error it = None \<and> I (di_iter it))
    (\<lambda>it. map kv_of (visible_rows (rows (di_iter it)))) (db_next_fn env)"
proof
  fix it :: "('m, 'g) db_iterator"
  assume ok: "di_invalidated_error it = None \<and> I (di_iter it)"
  then obtain r s' where s': "next_entry_loop (read_ops env) (di_iter it) = Some (Inr (r, s'))" "I s'"
    and r: "case r of None \<Rightarrow> visible_rows (rows (di_iter it)) = [] \<and> visible_rows (rows s') = []
       | Some x \<Rightarrow> visible_rows (rows (di_iter it)) = x # visible_rows (rows s')"
    using next_entry_loop_rows [OF it] by blast
  show "\<exists>it'. db_next_fn env it = Inr (None, it') \<and> (di_invalidated_error it' = None \<and> I (di_iter it'))
      \<and> map kv_of (visible_rows (rows (di_iter it'))) = []"
    if "map kv_of (visible_rows (rows (di_iter it))) = []"
    using that ok s' r by (cases r) (simp_all add: db_next_fn_def db_iterator_next_def next_entry_inner_def run_loop_def)
  show "\<exists>it'. db_next_fn env it = Inr (Some kv, it') \<and> (di_invalidated_error it' = None \<and> I (di_iter it'))
      \<and> map kv_of (visible_rows (rows (di_iter it'))) = kvs"
    if eq: "map kv_of (visible_rows (rows (di_iter it))) = kv # kvs" for kv kvs
  proof (cases r)
    case None
    with eq r show ?thesis by simp
  next
    case (Some x)
    with r have x: "visible_rows (rows (di_iter it)) = x # visible_rows (rows s')" by simp
    then have "x \<in> set (visible_rows (rows (di_iter it)))" by simp
    then have "\<not> is_tombstone (re_value x)" by (simp add: visible_rows_def)
    with Some ok s' eq x show ?thesis
      by (simp add: db_next_fn_def db_iterator_next_def next_entry_inner_def run_loop_def key_value_from_visible)
  qed
qed

text \<open>The merge operator on top of a delegate, and the check that there is none to merge.\<close>

lemma read_merge_rows:
  fixes env :: "('m, 'g) read_env"
  assumes fwd: "forward_iterator I rows (it_next (box_ops (get_ops env) (scan_ops env))) seek ord' behind"
    and op: "merge_operator mb f"
  shows "row_iterator (case_sum (\<lambda>p. fst p = mb \<and> forward_iterator.moi_ok I rows ord' (snd p)) (\<lambda>_. False))
    (case_sum (\<lambda>p. forward_iterator.moi_output rows f (snd p)) (\<lambda>_. [])) (it_next (read_ops env))"
proof -
  note m = forward_iterator.merge_operator_rows [OF fwd op]
  show ?thesis
  proof
    fix s :: "('m, 'g) read_iter"
    assume I: "case_sum (\<lambda>p. fst p = mb \<and> forward_iterator.moi_ok I rows ord' (snd p)) (\<lambda>_. False) s"
    then obtain it where s: "s = Inl (mb, it)" "forward_iterator.moi_ok I rows ord' it" by (cases s) auto
    show "\<exists>s'. it_next (read_ops env) s = Inr (None, s')
        \<and> case_sum (\<lambda>p. fst p = mb \<and> forward_iterator.moi_ok I rows ord' (snd p)) (\<lambda>_. False) s'
        \<and> case_sum (\<lambda>p. forward_iterator.moi_output rows f (snd p)) (\<lambda>_. []) s' = []"
      if "case_sum (\<lambda>p. forward_iterator.moi_output rows f (snd p)) (\<lambda>_. []) s = []"
      using row_iterator.next_end [OF m s(2)] that s(1)
      by (force simp: read_ops_def Let_def box_ops_def merge_operator_ops_def)
    show "\<exists>s'. it_next (read_ops env) s = Inr (Some x, s')
        \<and> case_sum (\<lambda>p. fst p = mb \<and> forward_iterator.moi_ok I rows ord' (snd p)) (\<lambda>_. False) s'
        \<and> case_sum (\<lambda>p. forward_iterator.moi_output rows f (snd p)) (\<lambda>_. []) s' = xs"
      if "case_sum (\<lambda>p. forward_iterator.moi_output rows f (snd p)) (\<lambda>_. []) s = x # xs" for x xs
      using row_iterator.next_row [OF m s(2)] that s(1)
      by (force simp: read_ops_def Let_def box_ops_def merge_operator_ops_def)
  qed
qed

definition read_delegate_new ::
    "bytes_range \<Rightarrow> write_batch_iterator option \<Rightarrow> 'm list \<Rightarrow> 'g \<Rightarrow> u64 option \<Rightarrow> iteration_order \<Rightarrow> ('m, 'g) read_delegate" where
  "read_delegate_new key_range write_batch_iter mem_iters segment_iter max_seq order =
     (case as_point key_range of
        Some key \<Rightarrow> Inl (get_iterator_new key (boxed_batch write_batch_iter) (apply_filters mem_iters max_seq)
                            (new_with_max_seq segment_iter max_seq))
      | None \<Rightarrow> Inr (scan_iterator_new (boxed_batch write_batch_iter) (apply_filters mem_iters max_seq)
                        (new_with_max_seq segment_iter max_seq) order))"

lemma db_iterator_new_eq:
  "db_iterator_new env key_range wb mem_iters segment_iter max_seq merger order =
     bind_result
       (it_init (read_ops env)
         (case merger of
            Some mb \<Rightarrow> Inl (mb, merge_operator_iterator_new (read_delegate_new key_range wb mem_iters segment_iter max_seq order) True None)
          | None \<Rightarrow> Inr (read_delegate_new key_range wb mem_iters segment_iter max_seq order)))
       (\<lambda>iter. Inr \<lparr>di_range = key_range, di_iter = iter, di_invalidated_error = None, di_last_key = None, di_order = order\<rparr>)"
  unfolding db_iterator_new_def read_delegate_new_def boxed_batch_def Let_def ..

lemma merge_box_init:
  "it_init (box_ops (merge_operator_ops d) r) (Inl (mb, it))
    = bind_result (it_init d (moi_delegate it)) (\<lambda>s. Inr (Inl (mb, it\<lparr>moi_delegate := s\<rparr>)))"
  by (cases "it_init d (moi_delegate it)") (simp_all add: box_ops_def merge_operator_ops_def merge_operator_init_def)

lemma read_init:
  "it_init (read_ops env) (Inl (mb, it))
    = bind_result (it_init (box_ops (get_ops env) (scan_ops env)) (moi_delegate it))
        (\<lambda>s. Inr (Inl (mb, it\<lparr>moi_delegate := s\<rparr>)))"
  unfolding read_ops_def Let_def by (rule merge_box_init)

lemma db_read_rows:
  fixes env :: "('m, 'g) read_env"
  assumes fwd: "forward_iterator I rows (it_next (box_ops (get_ops env) (scan_ops env))) seek ord' behind"
    and init: "it_init (box_ops (get_ops env) (scan_ops env)) (read_delegate_new key_range wb mem_iters segment_iter max_seq order) = Inr s0"
      "I s0"
    and op: "merge_operator mb f"
  shows "\<exists>it. db_iterator_new env key_range wb mem_iters segment_iter max_seq (Some mb) order = Inr it
    \<and> yields (db_next_fn env) it (map kv_of (visible_rows (merged_rows f True None (rows s0))))"
proof -
  let ?d = "read_delegate_new key_range wb mem_iters segment_iter max_seq order"
  define m where "m = (merge_operator_iterator_new ?d True None)\<lparr>moi_delegate := s0\<rparr>"
  define it :: "('m, 'g) db_iterator" where
    "it = \<lparr>di_range = key_range, di_iter = Inl (mb, m), di_invalidated_error = None, di_last_key = None, di_order = order\<rparr>"
  have new: "db_iterator_new env key_range wb mem_iters segment_iter max_seq (Some mb) order = Inr it"
    unfolding db_iterator_new_eq option.case
    using init(1) by (simp add: read_init it_def m_def merge_operator_iterator_new_def)
  note rows = db_next_rows [OF read_merge_rows [OF fwd op]]
  have ok: "forward_iterator.moi_ok I rows ord' m"
    unfolding forward_iterator.moi_ok_def [OF fwd]
    using init(2) forward_iterator.rows_sorted [OF fwd init(2)] by (simp add: m_def merge_operator_iterator_new_def moi_rows_def)
  have out: "forward_iterator.moi_output rows f m = merged_rows f True None (rows s0)"
    unfolding forward_iterator.moi_output_def [OF fwd] by (simp add: m_def merge_operator_iterator_new_def moi_rows_def)
  from row_iterator.yields_rows [OF rows, of it] ok
  have "yields (db_next_fn env) it (map kv_of (visible_rows (forward_iterator.moi_output rows f m)))"
    by (simp add: it_def)
  with new show ?thesis unfolding out by blast
qed

lemma supplies_init:
  assumes "supplies ops ord' ready srows" "ready d"
  shows "\<exists>I rows behind s0. forward_iterator I rows (it_next ops) (it_seek ops) ord' behind
    \<and> it_init ops d = Inr s0 \<and> I s0 \<and> rows s0 = srows d"
proof -
  from assms(1) obtain I rows behind where
    src: "row_source I rows (it_next ops) (it_seek ops) ord' behind (it_init ops) ready srows" by (auto simp: supplies_def)
  from row_source.init_ready [OF src assms(2)] obtain s0 where "it_init ops d = Inr s0 \<and> I s0 \<and> rows s0 = srows d" by blast
  with row_source.axioms(1) [OF src] show ?thesis by blast
qed

lemma entry_of_kv: "(kv_key (kv_of r), kv_value (kv_of r)) = entry_of r"
  by (simp add: kv_of_def entry_of_def)

subsection \<open>Point lookups\<close>

text \<open>What the walk over the sources returns: the merge operands above the newest other version, and that version.\<close>

fun get_out :: "row_entry list \<Rightarrow> row_entry list" where
  "get_out [] = []"
| "get_out (r # rs) = (if is_merge (re_value r) then r # get_out rs else if is_tombstone (re_value r) then [] else [r])"

lemma get_out_subset: "set (get_out rs) \<subseteq> set rs"
  by (induction rs) auto

lemma get_out_sorted: "sorted_wrt R rs \<Longrightarrow> sorted_wrt R (get_out rs)"
proof (induction rs)
  case (Cons r rs)
  have "\<forall>y\<in>set (get_out rs). R r y" using Cons.prems get_out_subset [of rs] by auto
  with Cons show ?case by simp
qed simp

lemma resolve_get_out: "resolve g (get_out rs) = resolve g rs"
  by (induction rs) (auto split: value_deletable.split)

lemma get_visible:
  assumes "\<forall>r\<in>set rs. re_key r = k"
  shows "map entry_of (visible_rows (merged_rows f True None (get_out rs))) = scan_result f rs"
proof -
  let ?g = "get_out rs"
  have k: "\<forall>r\<in>set ?g. re_key r = k" using assms get_out_subset [of rs] by blast
  have g: "?g = top_merges ?g @ (case top_base ?g of None \<Rightarrow> [] | Some b \<Rightarrow> [b]) @ []"
    by (induction rs) (auto simp: top_merges_def top_base_def)
  have "merged_rows f True None ?g = group_output f ?g"
    by (subst g, subst merged_dedup_group [OF k]) simp_all
  then have "map entry_of (visible_rows (merged_rows f True None ?g)) = (case resolve (f k) rs of None \<Rightarrow> [] | Some v \<Rightarrow> [(k, v)])"
    using group_visible [OF k, of f] by (simp add: resolve_get_out)
  moreover have "scan_result f rs = (case resolve (f k) rs of None \<Rightarrow> [] | Some v \<Rightarrow> [(k, v)])"
  proof (cases "rs = []")
    case True
    then show ?thesis by (simp add: scan_result_def List.map_filter_simps)
  next
    case False
    then have "scan_result f (rs @ []) = (case resolve (f k) rs of None \<Rightarrow> [] | Some v \<Rightarrow> [(k, v)]) @ scan_result f []"
      using assms by (intro scan_result_group) simp_all
    then show ?thesis by (simp add: scan_result_def [of f "[]"] List.map_filter_simps)
  qed
  ultimately show ?thesis by simp
qed

definition get_rows :: "('s \<Rightarrow> row_entry list) \<Rightarrow> ('s \<Rightarrow> row_entry list) \<Rightarrow> 's get_iterator \<Rightarrow> row_entry list" where
  "get_rows rows srows it = (case gi_current it of None \<Rightarrow> [] | Some s \<Rightarrow> rows s) @ concat (map srows (gi_sources it))"

definition get_ok :: "('s \<Rightarrow> bool) \<Rightarrow> ('s \<Rightarrow> bool) \<Rightarrow> 's get_iterator \<Rightarrow> bool" where
  "get_ok I ready it \<longleftrightarrow> (case gi_current it of None \<Rightarrow> True | Some s \<Rightarrow> I s) \<and> list_all ready (gi_sources it)"

definition get_step ::
    "'s iter_ops \<Rightarrow> ('s \<Rightarrow> bool) \<Rightarrow> ('s \<Rightarrow> row_entry list) \<Rightarrow> ('s \<Rightarrow> bool) \<Rightarrow> ('s \<Rightarrow> row_entry list) \<Rightarrow> 's get_iterator \<Rightarrow> bool" where
  "get_step ops I rows ready srows it \<longleftrightarrow> (\<exists>r it'. get_loop ops it = Some (Inr (r, it')) \<and> get_ok I ready it'
    \<and> (case r of None \<Rightarrow> get_out (get_rows rows srows it) = [] \<and> get_out (get_rows rows srows it') = []
       | Some x \<Rightarrow> get_out (get_rows rows srows it) = x # get_out (get_rows rows srows it'))
    \<and> (\<exists>zs. get_rows rows srows it = zs @ get_rows rows srows it' \<or> get_rows rows srows it' = []))"

lemma get_step_cong:
  assumes "get_loop ops it = get_loop ops it1" "get_rows rows srows it = get_rows rows srows it1" "get_step ops I rows ready srows it1"
  shows "get_step ops I rows ready srows it"
  using assms(3) unfolding get_step_def assms(1,2) .

lemma get_step_current:
  assumes src: "row_source I rows (it_next ops) (it_seek ops) ord' behind (it_init ops) ready srows"
    and ok: "get_ok I ready it" and cur: "gi_current it = Some s"
    and none: "get_step ops I rows ready srows (it\<lparr>gi_current := None\<rparr>)"
  shows "get_step ops I rows ready srows it"
proof -
  note ri = forward_iterator.axioms(1) [OF row_source.axioms(1) [OF src]]
  from ok cur have I: "I s" by (simp add: get_ok_def)
  show ?thesis
  proof (cases "rows s")
    case Nil
    with row_iterator.next_end [OF ri I] obtain s' where "it_next ops s = Inr (None, s')" by blast
    with cur have "get_loop ops it = get_loop ops (it\<lparr>gi_current := None\<rparr>)" by (subst get_loop.simps) simp
    then show ?thesis by (rule get_step_cong) (simp_all add: none get_rows_def cur Nil)
  next
    case (Cons x xs)
    with row_iterator.next_row [OF ri I] obtain s' where s': "it_next ops s = Inr (Some x, s')" "I s'" "rows s' = xs" by blast
    have rs: "get_rows rows srows it = [x] @ xs @ concat (map srows (gi_sources it))" by (simp add: get_rows_def cur Cons)
    show ?thesis
    proof (cases "is_merge (re_value x)")
      case True
      let ?it = "it\<lparr>gi_current := Some s'\<rparr>"
      from True cur s' have loop: "get_loop ops it = Some (Inr (Some x, ?it))" by (subst get_loop.simps) simp
      have rs': "get_rows rows srows ?it = xs @ concat (map srows (gi_sources it))" by (simp add: get_rows_def s'(3))
      have ok': "get_ok I ready ?it" using ok s'(2) by (simp add: get_ok_def)
      show ?thesis
        unfolding get_step_def
        by (rule exI [of _ "Some x"], rule exI [of _ ?it]) (use loop ok' True in \<open>auto simp: rs rs'\<close>)
    next
      case False
      let ?it = "it\<lparr>gi_current := None, gi_sources := []\<rparr>"
      from False cur s' have "get_loop ops it = Some (Inr (if is_tombstone (re_value x) then None else Some x, ?it))"
        by (subst get_loop.simps) simp
      moreover have "get_rows rows srows ?it = []" "get_ok I ready ?it" by (simp_all add: get_rows_def get_ok_def)
      ultimately show ?thesis unfolding get_step_def rs using False by (cases "is_tombstone (re_value x)") auto
    qed
  qed
qed

lemma get_loop_rows:
  assumes src: "row_source I rows (it_next ops) (it_seek ops) ord' behind (it_init ops) ready srows"
  shows "get_ok I ready it \<Longrightarrow> get_step ops I rows ready srows it"
proof (induction "gi_sources it" arbitrary: it)
  case Nil
  have none: "get_step ops I rows ready srows it" if "gi_current it = None" "gi_sources it = []" "get_ok I ready it" for it
  proof -
    have "get_loop ops it = Some (Inr (None, it))" using that by (subst get_loop.simps) simp
    with that show ?thesis unfolding get_step_def by (auto simp: get_rows_def)
  qed
  show ?case
  proof (cases "gi_current it")
    case None
    with Nil none [of it] show ?thesis by simp
  next
    case (Some s)
    show ?thesis by (rule get_step_current [OF src Nil.prems Some none]) (use Nil in \<open>simp_all add: get_ok_def\<close>)
  qed
next
  case (Cons s ss)
  have none: "get_step ops I rows ready srows it" if it: "gi_current it = None" "gi_sources it = s # ss" "get_ok I ready it" for it
  proof -
    from it(2,3) have "ready s" by (simp add: get_ok_def)
    from row_source.init_ready [OF src this] obtain s' where s': "it_init ops s = Inr s'" "I s'" "rows s' = srows s" by blast
    let ?it = "it\<lparr>gi_sources := ss, gi_current := Some s'\<rparr>"
    have "get_loop ops it = get_loop ops ?it" using it s'(1) by (subst get_loop.simps) simp
    moreover have "get_rows rows srows it = get_rows rows srows ?it" using it s'(3) by (simp add: get_rows_def)
    moreover have "get_step ops I rows ready srows ?it" by (rule Cons.hyps(1)) (use it s'(2) in \<open>simp_all add: get_ok_def\<close>)
    ultimately show ?thesis by (rule get_step_cong)
  qed
  show ?case
  proof (cases "gi_current it")
    case None
    with Cons.hyps(2) Cons.prems none [of it] show ?thesis by simp
  next
    case (Some s')
    show ?thesis by (rule get_step_current [OF src Cons.prems Some none]) (use Cons.hyps(2) Cons.prems in \<open>simp_all add: get_ok_def\<close>)
  qed
qed

lemma box_ops_next_Inl: "it_next (box_ops a b) (Inl s) = bind_result (it_next a s) (\<lambda>(r, s). Inr (r, Inl s))"
  by (simp add: box_ops_def)

lemma get_ops_next:
  "it_next (get_ops env) = get_next (box_ops batch_ops (box_ops (filtered_ops (re_mem env)) (filter_ops (re_segment env))))"
  by (simp add: get_ops_def)

lemma get_forward:
  fixes env :: "('m, 'g) read_env"
  defines "ops \<equiv> box_ops batch_ops (box_ops (filtered_ops (re_mem env)) (filter_ops (re_segment env)))"
  assumes src: "row_source I rows (it_next ops) (it_seek ops) ord' behind (it_init ops) ready srows"
  shows "forward_iterator (case_sum (\<lambda>it. get_ok I ready it \<and> sorted_wrt (row_le Descending) (get_rows rows srows it)) (\<lambda>_. False))
    (case_sum (\<lambda>it. get_out (get_rows rows srows it)) (\<lambda>_. [])) (it_next (box_ops (get_ops env) (scan_ops env))) seek
    Descending (\<lambda>_ _. True)"
proof -
  have next_get: "it_next (box_ops (get_ops env) (scan_ops env)) (Inl it)
      = bind_result (run_loop (get_loop ops it)) (\<lambda>(r, it). Inr (r, Inl it))" for it
    unfolding box_ops_next_Inl get_ops_next get_next_def ops_def ..
  show ?thesis
  proof
    fix s :: "('m, 'g) read_delegate"
    assume inv: "case_sum (\<lambda>it. get_ok I ready it \<and> sorted_wrt (row_le Descending) (get_rows rows srows it)) (\<lambda>_. False) s"
    then obtain it where s: "s = Inl it" "get_ok I ready it" "sorted_wrt (row_le Descending) (get_rows rows srows it)"
      by (cases s) auto
    from get_loop_rows [OF src s(2)] obtain r it' where l: "get_loop ops it = Some (Inr (r, it'))" "get_ok I ready it'"
      and r: "case r of None \<Rightarrow> get_out (get_rows rows srows it) = [] \<and> get_out (get_rows rows srows it') = []
       | Some x \<Rightarrow> get_out (get_rows rows srows it) = x # get_out (get_rows rows srows it')"
      and suf: "\<exists>zs. get_rows rows srows it = zs @ get_rows rows srows it' \<or> get_rows rows srows it' = []"
      unfolding get_step_def by blast
    have "sorted_wrt (row_le Descending) (get_rows rows srows it')" using suf s(3) by (auto simp: sorted_wrt_append)
    with s(1) l have step: "it_next (box_ops (get_ops env) (scan_ops env)) s = Inr (r, Inl it')"
      "case_sum (\<lambda>it. get_ok I ready it \<and> sorted_wrt (row_le Descending) (get_rows rows srows it)) (\<lambda>_. False)
        (Inl it' :: ('m, 'g) read_delegate)"
      by (simp_all add: next_get run_loop_def)
    show "\<exists>s'. it_next (box_ops (get_ops env) (scan_ops env)) s = Inr (None, s')
        \<and> case_sum (\<lambda>it. get_ok I ready it \<and> sorted_wrt (row_le Descending) (get_rows rows srows it)) (\<lambda>_. False) s'
        \<and> case_sum (\<lambda>it. get_out (get_rows rows srows it)) (\<lambda>_. []) s' = []"
      if "case_sum (\<lambda>it. get_out (get_rows rows srows it)) (\<lambda>_. []) s = []"
      using that s(1) step r by (cases r) auto
    show "\<exists>s'. it_next (box_ops (get_ops env) (scan_ops env)) s = Inr (Some x, s')
        \<and> case_sum (\<lambda>it. get_ok I ready it \<and> sorted_wrt (row_le Descending) (get_rows rows srows it)) (\<lambda>_. False) s'
        \<and> case_sum (\<lambda>it. get_out (get_rows rows srows it)) (\<lambda>_. []) s' = xs"
      if "case_sum (\<lambda>it. get_out (get_rows rows srows it)) (\<lambda>_. []) s = x # xs" for x xs
      using that s(1) step r by (cases r) auto
    show "sorted_wrt (row_le Descending) (case_sum (\<lambda>it. get_out (get_rows rows srows it)) (\<lambda>_. []) s)"
      using s(1,3) by (simp add: get_out_sorted)
  qed simp_all
qed

lemma sorted_one_key:
  assumes "\<forall>r\<in>set rs. re_key r = k" "sorted_wrt (row_le a) rs"
  shows "sorted_wrt (row_le b) rs"
  using assms(2) by (rule sorted_wrt_mono_rel [rotated]) (use assms(1) in \<open>simp add: row_le_def\<close>)

end
