(* ===== verification/ReadPath.thy ===== *)
theory ReadPath
  imports DbIter
begin

section \<open>Reads over memtables\<close>

text \<open>
  The memtable iterators satisfy the contract of a source, so the theorems on scans and lookups apply
  to reads of a database that holds its rows in a write batch and in memtables; the on-disk chain is
  the empty iterator of such a database.
\<close>

definition mem_table_init :: "'m mem_table_iterator \<Rightarrow> 'm mem_table_iterator result" where
  "mem_table_init it = Inr it"

definition mem_table_ops :: "'m skip_map \<Rightarrow> 'm mem_table_iterator iter_ops" where
  "mem_table_ops om = \<lparr>it_init = mem_table_init, it_next = mem_table_next, it_seek = mem_table_seek om\<rparr>"

definition empty_ops :: "empty_iterator iter_ops" where
  "empty_ops = \<lparr>it_init = empty_init, it_next = empty_next, it_seek = empty_seek\<rparr>"

definition mem_source_ok :: "'m skip_map \<Rightarrow> ('m \<Rightarrow> bool) \<Rightarrow> iteration_order \<Rightarrow> 'm mem_table_iterator \<Rightarrow> bool" where
  "mem_source_ok om valid ord' it \<longleftrightarrow> mem_iter_ok om valid it \<and> mti_ordering it = ord'"

context skip_map
begin

lemma mem_table_source:
  "row_source (mem_source_ok om valid ord') mti_rows mem_table_next (mem_table_seek om) ord' (\<lambda>_ _. True)
     mem_table_init (mem_source_ok om valid ord') mti_rows"
proof
  fix it assume ok: "mem_source_ok om valid ord' it"
  then have it: "mti_ok it" "mti_ordering it = ord'" by (simp_all add: mem_source_ok_def)
  have order: "mti_ordering it' = ord'" if "mem_table_next it = Inr (r, it')" for r it'
    using that it(2) next_sync_frame(1) [of it] by (auto simp: mem_table_next_def)
  show "\<exists>it'. mem_table_next it = Inr (None, it') \<and> mem_source_ok om valid ord' it' \<and> mti_rows it' = []" if "mti_rows it = []"
    using mti.next_end [OF it(1) that] order by (auto simp: mem_source_ok_def)
  show "\<exists>it'. mem_table_next it = Inr (Some x, it') \<and> mem_source_ok om valid ord' it' \<and> mti_rows it' = xs"
    if "mti_rows it = x # xs" for x xs
    using mti.next_row [OF it(1) that] order by (auto simp: mem_source_ok_def)
  show "sorted_wrt (row_le ord') (mti_rows it)" using it by (auto simp: mti_ok_def)
  show "\<exists>it'. mem_table_seek om it k = Inr it' \<and> mem_source_ok om valid ord' it'
      \<and> mti_rows it' = dropWhile (\<lambda>e. precedes ord' (re_key e) k) (mti_rows it)" if "ord' = Ascending" for k
    using seek_ascending_props [OF it(1), of k] it(2) that by (simp add: mem_table_seek_def mem_source_ok_def)
  show "\<exists>it'. mem_table_init it = Inr it' \<and> mem_source_ok om valid ord' it' \<and> mti_rows it' = mti_rows it"
    using ok by (simp add: mem_table_init_def)
qed simp

end

interpretation mts: row_source "mem_source_ok btree strict_keys ord'" mti_rows mem_table_next "mem_table_seek btree" ord'
    "\<lambda>_ _. True" mem_table_init "mem_source_ok btree strict_keys ord'" mti_rows
  by (rule skm.mem_table_source)

interpretation mms: merge_sources "mem_source_ok btree strict_keys ord'" mti_rows mem_table_next "mem_table_seek btree" ord'
    "\<lambda>_ _. True" mem_table_init "mem_source_ok btree strict_keys ord'" mti_rows pop_min
  by unfold_locales (rule pop_min_law)

lemma supplies_memtable:
  "skip_map om valid \<Longrightarrow> supplies (mem_table_ops om) ord' (mem_source_ok om valid ord') mti_rows"
  unfolding supplies_def mem_table_ops_def iter_ops.simps by (blast intro: skip_map.mem_table_source)

lemma supplies_empty: "supplies empty_ops ord' (\<lambda>_. True) (\<lambda>_. [])"
  unfolding supplies_def empty_ops_def iter_ops.simps by (blast intro: emp.row_source_axioms)

text \<open>A database whose rows are in memtables.\<close>

definition memtable_env :: "'m skip_map \<Rightarrow> ('m mem_table_iterator, empty_iterator) read_env" where
  "memtable_env om = \<lparr>re_mem = mem_table_ops om, re_segment = empty_ops, re_mem_pop = pop_min, re_scan_pop = pop_min\<rparr>"

lemma memtable_env_ok:
  assumes "skip_map om valid" "\<forall>t\<in>set tables. memtable_ok om valid t"
    and "case wb of None \<Rightarrow> True | Some it \<Rightarrow> batch_iter_ok order it"
  shows "read_env_ok (memtable_env om) order wb (map (\<lambda>t. kv_table_range om t s e order) tables)
    (map (\<lambda>t. order_rows order (filter (\<lambda>r. in_bounds s e (re_key r)) (memtable_rows om t))) tables) EmptyIterator []"
proof -
  let ?iters = "map (\<lambda>t. kv_table_range om t s e order) tables"
  have t: "skip_map_ok om valid (kt_map t)" if "t \<in> set tables" for t using assms(2) that by (simp add: memtable_ok_def)
  note props = skip_map.kv_table_range_props [OF assms(1) t]
  have "list_all (mem_source_ok om valid order) ?iters" using props(1,3) by (auto simp: list_all_iff mem_source_ok_def)
  moreover have "map mti_rows ?iters = map (\<lambda>t. order_rows order (filter (\<lambda>r. in_bounds s e (re_key r)) (memtable_rows om t))) tables"
    using props(2) by simp
  ultimately show ?thesis
    using supplies_memtable [OF assms(1), of order] supplies_empty [of order] assms(3)
    unfolding read_env_ok_def by (auto simp: memtable_env_def pop_min_law)
qed

subsection \<open>Scans and lookups are correct\<close>


text \<open>
  C4: a point lookup returns what its key's versions resolve to, when the sources are given from the
  newest to the oldest: the same entries as a scan over these rows.
\<close>

theorem db_get_correct:
  fixes env :: "('m, 'g) read_env"
  assumes op: "merge_operator mb f"
    and env: "read_env_ok env order wb mem_iters mem_rows segment_iter segment_rows"
    and range: "as_point key_range = Some k"
    and key: "\<forall>r\<in>set (read_rows wb (concat mem_rows) segment_rows max_seq). re_key r = k"
    and newest_first: "sorted_wrt (row_le order) (read_rows wb (concat mem_rows) segment_rows max_seq)"
  shows "\<exists>it out. db_iterator_new env key_range wb mem_iters segment_iter max_seq (Some mb) order = Inr it
    \<and> yields (db_next_fn env) it out
    \<and> map (\<lambda>kv. (kv_key kv, kv_value kv)) out = scan_result f (read_rows wb (concat mem_rows) segment_rows max_seq)"
proof -
  let ?rs = "read_rows wb (concat mem_rows) segment_rows max_seq"
  let ?ops = "box_ops batch_ops (box_ops (filtered_ops (re_mem env)) (filter_ops (re_segment env)))"
  let ?mems = "apply_filters mem_iters max_seq" and ?seg = "new_with_max_seq segment_iter max_seq"
  from env obtain mready msrows sready ssrows where
    m: "supplies (re_mem env) order mready msrows" "list_all mready mem_iters" "map msrows mem_iters = mem_rows"
    and g: "supplies (re_segment env) order sready ssrows" "sready segment_iter" "ssrows segment_iter = segment_rows"
    and wb: "batch_ready order (boxed_batch wb)"
    by (auto simp: read_env_ok_def batch_ready_def boxed_batch_def split: option.splits)
  define ready where "ready = case_sum (batch_ready order) (case_sum (applied_ready max_seq mready) (filtered_ready max_seq sready))"
  define srows where "srows = case_sum batch_rows (case_sum (applied_rows max_seq msrows)
    (\<lambda>it :: 'g filter_iterator. at_snapshot max_seq (ssrows (fi_iterator it))))"
  have "supplies ?ops order ready srows"
    unfolding ready_def srows_def
    by (rule supplies_box [OF supplies_batch supplies_box [OF supplies_applied [OF m(1)] supplies_max_seq [OF g(1)]]])
  then obtain I rows behind where src: "row_source I rows (it_next ?ops) (it_seek ?ops) order behind (it_init ?ops) ready srows"
    by (auto simp: supplies_def)
  define it0 where "it0 = get_iterator_new k (boxed_batch wb) ?mems ?seg"
  have d: "read_delegate_new key_range wb mem_iters segment_iter max_seq order = Inl it0"
    by (simp add: read_delegate_new_def range it0_def)
  have init: "it_init (box_ops (get_ops env) (scan_ops env)) (Inl it0) = Inr (Inl it0)"
    by (simp add: box_ops_def get_ops_def get_init_def)
  have seg: "filtered_ready max_seq sready ?seg" "at_snapshot max_seq (ssrows (fi_iterator ?seg)) = at_snapshot max_seq segment_rows"
    using g(2,3) by (auto simp: filtered_ready_def new_with_max_seq_def filter_iterator_new_def split: option.splits)
  have sources: "gi_sources it0 = [Inl (boxed_batch wb)] @ map (\<lambda>i. Inr (Inl i)) ?mems @ [Inr (Inr ?seg)]" "gi_current it0 = None"
    by (simp_all add: it0_def get_iterator_new_def with_lookahead_def)
  have "concat (map srows (map (\<lambda>i. Inr (Inl i)) ?mems)) = at_snapshot max_seq (concat mem_rows)"
    using apply_filters_ready(2) [OF m(2), where max_seq = max_seq and srows = msrows] at_snapshot_concat [of max_seq msrows mem_iters] m(3)
    by (simp add: srows_def comp_def)
  moreover have "batch_rows (boxed_batch wb) = (case wb of None \<Rightarrow> [] | Some it \<Rightarrow> wbi_iter it)"
    by (simp add: batch_rows_def boxed_batch_def split: option.split)
  ultimately have rows0: "get_rows rows srows it0 = ?rs"
    using seg(2) unfolding get_rows_def sources map_append concat_append read_rows_def by (simp add: srows_def)
  have "list_all ready (gi_sources it0)"
    unfolding sources using apply_filters_ready(1) [OF m(2), of max_seq] seg(1) wb by (simp add: ready_def list_all_iff)
  then have ok: "get_ok I ready it0" by (simp add: get_ok_def sources(2))
  note fwd = get_forward [OF src, of undefined]
  have "sorted_wrt (row_le Descending) (get_rows rows srows it0)"
    unfolding rows0 by (rule sorted_one_key [OF key newest_first])
  with ok db_read_rows [OF fwd init [folded d] _ op]
  obtain it where it: "db_iterator_new env key_range wb mem_iters segment_iter max_seq (Some mb) order = Inr it"
      "yields (db_next_fn env) it (map kv_of (visible_rows (merged_rows f True None (get_out ?rs))))"
    unfolding d by (auto simp: rows0)
  have "map (\<lambda>kv. (kv_key kv, kv_value kv)) (map kv_of (visible_rows (merged_rows f True None (get_out ?rs)))) = scan_result f ?rs"
    using get_visible [OF key, of f] by (simp add: comp_def entry_of_kv)
  with it show ?thesis by blast
qed

subsection \<open>Seeking, and reads without a merge operator\<close>

text \<open>The calls of \<open>next\<close> that come before a seek.\<close>

fun steps :: "('s \<Rightarrow> ('a option \<times> 's) result) \<Rightarrow> nat \<Rightarrow> 's \<Rightarrow> 's result" where
  "steps nxt 0 s = Inr s"
| "steps nxt (Suc n) s = bind_result (nxt s) (\<lambda>(_, s). steps nxt n s)"

text \<open>
  The state of the iterator after some calls: it has returned \<open>done\<close> of the entries, the last of
  them gives the last key, and what is left comes from the stacked iterators.
\<close>

definition plain_state ::
    "(('m, 'g) read_delegate \<Rightarrow> bool) \<Rightarrow> (('m, 'g) read_delegate \<Rightarrow> row_entry list) \<Rightarrow> bytes_range \<Rightarrow> row_entry list
      \<Rightarrow> ('m, 'g) db_iterator \<Rightarrow> row_entry list \<Rightarrow> bool" where
  "plain_state I rows key_range returned it left \<longleftrightarrow>
     (\<exists>s. di_iter it = Inr s \<and> I s \<and> (\<forall>r\<in>set (rows s). \<not> is_merge (re_value r)) \<and> left = visible_rows (rows s))
     \<and> di_invalidated_error it = None \<and> di_range it = key_range \<and> di_order it = Ascending
     \<and> di_last_key it = (if returned = [] then None else Some (re_key (last returned)))"

lemma plain_iterator:
  fixes env :: "('m, 'g) read_env"
  assumes ri: "row_iterator I rows (it_next (box_ops (get_ops env) (scan_ops env)))"
  shows "row_iterator (case_sum (\<lambda>_. False) (\<lambda>s. I s \<and> (\<forall>r\<in>set (rows s). \<not> is_merge (re_value r))))
    (case_sum (\<lambda>_. []) rows) (it_next (read_ops env))"
proof
  let ?D = "box_ops (get_ops env) (scan_ops env)"
  have nxt: "it_next (read_ops env) (Inr d) = bind_result (required_next (it_next ?D) d) (\<lambda>(r, d). Inr (r, Inr d))" for d
  proof -
    have "it_next (box_ops (merge_operator_ops x) (required_ops x)) (Inr d)
        = bind_result (required_next (it_next x) d) (\<lambda>(r, d). Inr (r, Inr d))" for x :: "('m, 'g) read_delegate iter_ops"
      by (simp add: box_ops_def required_ops_def)
    then show ?thesis by (simp add: read_ops_def Let_def)
  qed
  fix s :: "('m, 'g) read_iter"
  assume "case_sum (\<lambda>_. False) (\<lambda>s. I s \<and> (\<forall>r\<in>set (rows s). \<not> is_merge (re_value r))) s"
  then obtain d where s: "s = Inr d" "I d" "\<forall>r\<in>set (rows d). \<not> is_merge (re_value r)" by (cases s) auto
  show "\<exists>s'. it_next (read_ops env) s = Inr (None, s')
      \<and> case_sum (\<lambda>_. False) (\<lambda>s. I s \<and> (\<forall>r\<in>set (rows s). \<not> is_merge (re_value r))) s' \<and> case_sum (\<lambda>_. []) rows s' = []"
    if "case_sum (\<lambda>_. []) rows s = []"
  proof -
    from that s(1) have "rows d = []" by simp
    from row_iterator.next_end [OF ri s(2) this] obtain d' where "it_next ?D d = Inr (None, d')" "I d'" "rows d' = []" by blast
    then show ?thesis unfolding s(1) nxt required_next_def by simp
  qed
  show "\<exists>s'. it_next (read_ops env) s = Inr (Some x, s')
      \<and> case_sum (\<lambda>_. False) (\<lambda>s. I s \<and> (\<forall>r\<in>set (rows s). \<not> is_merge (re_value r))) s' \<and> case_sum (\<lambda>_. []) rows s' = xs"
    if "case_sum (\<lambda>_. []) rows s = x # xs" for x xs
  proof -
    from that s(1) have r: "rows d = x # xs" by simp
    from row_iterator.next_row [OF ri s(2) r] obtain d' where "it_next ?D d = Inr (Some x, d')" "I d'" "rows d' = xs" by blast
    with s(3) r show ?thesis unfolding s(1) nxt required_next_def by simp
  qed
qed

lemma plain_step:
  fixes env :: "('m, 'g) read_env"
  assumes ri: "row_iterator I rows (it_next (box_ops (get_ops env) (scan_ops env)))"
    and st: "plain_state I rows key_range returned it left"
  shows "\<exists>it'. db_next_fn env it = Inr (case left of [] \<Rightarrow> None | x # _ \<Rightarrow> Some (kv_of x), it')
    \<and> plain_state I rows key_range (returned @ take 1 left) it' (tl left)"
proof -
  from st obtain d where d: "di_iter it = Inr d" "I d" "\<forall>r\<in>set (rows d). \<not> is_merge (re_value r)" "left = visible_rows (rows d)"
    and rest: "di_invalidated_error it = None" "di_range it = key_range" "di_order it = Ascending"
      "di_last_key it = (if returned = [] then None else Some (re_key (last returned)))"
    unfolding plain_state_def by blast
  have "case_sum (\<lambda>_. False) (\<lambda>s. I s \<and> (\<forall>r\<in>set (rows s). \<not> is_merge (re_value r))) (di_iter it)" using d by simp
  from next_entry_loop_rows [OF plain_iterator [OF ri] this] obtain r s' where
    loop: "next_entry_loop (read_ops env) (di_iter it) = Some (Inr (r, s'))"
    and s': "case_sum (\<lambda>_. False) (\<lambda>s. I s \<and> (\<forall>r\<in>set (rows s). \<not> is_merge (re_value r))) s'"
    and r: "case r of None \<Rightarrow> visible_rows (case_sum (\<lambda>_. []) rows (di_iter it)) = [] \<and> visible_rows (case_sum (\<lambda>_. []) rows s') = []
       | Some x \<Rightarrow> visible_rows (case_sum (\<lambda>_. []) rows (di_iter it)) = x # visible_rows (case_sum (\<lambda>_. []) rows s')" by blast
  from s' obtain d' where d': "s' = Inr d'" "I d'" "\<forall>r\<in>set (rows d'). \<not> is_merge (re_value r)" by (cases s') auto
  show ?thesis
  proof (cases r)
    case None
    with r d d' have "left = []" "visible_rows (rows d') = []" by simp_all
    with None loop rest d' show ?thesis
      by (auto simp: db_next_fn_def db_iterator_next_def next_entry_inner_def run_loop_def plain_state_def)
  next
    case (Some x)
    with r d d' have left: "left = x # visible_rows (rows d')" by simp
    then have "x \<in> set (visible_rows (rows d))" using d(4) by simp
    then have "\<not> is_tombstone (re_value x)" by (simp add: visible_rows_def)
    with Some loop rest d' left show ?thesis
      by (auto simp: db_next_fn_def db_iterator_next_def next_entry_inner_def run_loop_def plain_state_def key_value_from_visible)
  qed
qed

lemma plain_steps:
  assumes "row_iterator I rows (it_next (box_ops (get_ops env) (scan_ops env)))"
  shows "plain_state I rows key_range returned it left \<Longrightarrow>
    \<exists>it'. steps (db_next_fn env) n it = Inr it' \<and> plain_state I rows key_range (returned @ take n left) it' (drop n left)"
proof (induction n arbitrary: returned it left)
  case (Suc n)
  from plain_step [OF assms Suc.prems] obtain it1 where
    it1: "db_next_fn env it = Inr (case left of [] \<Rightarrow> None | x # _ \<Rightarrow> Some (kv_of x), it1)"
      "plain_state I rows key_range (returned @ take 1 left) it1 (tl left)" by blast
  from Suc.IH [OF it1(2)] it1(1) show ?case by (cases left) simp_all
qed simp

lemma merged_rows_plain: "\<forall>r\<in>set xs. \<not> is_merge (re_value r) \<Longrightarrow> merged_rows f dexp barrier xs = xs"
  by (induction xs) simp_all

lemma visible_dropWhile:
  assumes "sorted_wrt (row_le Ascending) rs"
  shows "visible_rows (dropWhile (\<lambda>e. precedes Ascending (re_key e) k) rs) = dropWhile (\<lambda>e. re_key e < k) (visible_rows rs)"
proof -
  have 1: "dropWhile (\<lambda>e. precedes Ascending (re_key e) k) xs = filter (\<lambda>e. \<not> re_key e < k) xs"
    if "sorted_wrt (row_le Ascending) xs" for xs using sorted_dropWhile_filter [OF that, of k] by simp
  have 2: "dropWhile (\<lambda>e. re_key e < k) xs = filter (\<lambda>e. \<not> re_key e < k) xs" if "sorted_wrt (row_le Ascending) xs" for xs
    using 1 [OF that] by simp
  have "sorted_wrt (row_le Ascending) (visible_rows rs)" using assms by (simp add: visible_rows_def sorted_wrt_filter)
  from 1 [OF assms] 2 [OF this] show ?thesis by (simp add: visible_rows_def conj_commute)
qed

lemma plain_seek:
  fixes env :: "('m, 'g) read_env"
  assumes fwd: "forward_iterator I rows (it_next (box_ops (get_ops env) (scan_ops env)))
      (it_seek (box_ops (get_ops env) (scan_ops env))) Ascending (\<lambda>_ _. True)"
    and st: "plain_state I rows key_range returned it left"
    and k: "contains key_range k" "returned \<noteq> [] \<longrightarrow> re_key (last returned) < k"
  shows "\<exists>it'. db_iterator_seek env it k = (Inr (), it') \<and> plain_state I rows key_range returned it' (dropWhile (\<lambda>e. re_key e < k) left)"
proof -
  let ?D = "box_ops (get_ops env) (scan_ops env)"
  from st obtain d where d: "di_iter it = Inr d" "I d" "\<forall>r\<in>set (rows d). \<not> is_merge (re_value r)" "left = visible_rows (rows d)"
    and rest: "di_invalidated_error it = None" "di_range it = key_range" "di_order it = Ascending"
      "di_last_key it = (if returned = [] then None else Some (re_key (last returned)))"
    unfolding plain_state_def by blast
  from forward_iterator.seek_forward [OF fwd refl d(2)] obtain d' where
    d': "it_seek ?D d k = Inr d'" "I d'" "rows d' = dropWhile (\<lambda>e. precedes Ascending (re_key e) k) (rows d)" by blast
  have "it_seek (box_ops (merge_operator_ops x) (required_ops x)) (Inr d) k = bind_result (it_seek x d k) (\<lambda>d. Inr (Inr d))"
    for x :: "('m, 'g) read_delegate iter_ops" by (simp add: box_ops_def required_ops_def)
  then have seek: "it_seek (read_ops env) (di_iter it) k = Inr (Inr d')" by (simp add: read_ops_def Let_def d(1) d'(1))
  have "\<forall>r\<in>set (rows d'). \<not> is_merge (re_value r)" unfolding d'(3) using d(3) by (auto dest: set_dropWhileD)
  moreover have "dropWhile (\<lambda>e. re_key e < k) left = visible_rows (rows d')"
    unfolding d(4) d'(3) by (rule visible_dropWhile [symmetric]) (rule forward_iterator.rows_sorted [OF fwd d(2)])
  moreover have "\<not> (case di_last_key it of Some last_key \<Rightarrow> k \<le> last_key | None \<Rightarrow> False)"
    using rest(4) k(2) by (cases "returned = []") (simp_all add: not_le)
  then have "db_iterator_seek env it k = (Inr (), it\<lparr>di_iter := Inr d'\<rparr>)"
    unfolding db_iterator_seek_def rest(1) option.case using rest(2,3) k(1) seek by simp
  ultimately show ?thesis using d'(2) rest by (auto simp: plain_state_def)
qed

text \<open>
  C39: without a merge operator (and without merge operands in the rows) a seek, at any point of an
  ascending scan and to any later key of the range, skips exactly the entries before the key.
\<close>

theorem db_seek_correct:
  fixes env :: "('m, 'g) read_env"
  assumes env: "read_env_ok env Ascending wb mem_iters mem_rows segment_iter segment_rows"
    and range: "as_point key_range = None"
    and dist: "distinct_rows (read_rows wb (concat mem_rows) segment_rows max_seq)"
    and plain: "\<forall>r\<in>set (read_rows wb (concat mem_rows) segment_rows max_seq). \<not> is_merge (re_value r)"
    and key: "contains key_range k"
      "\<forall>e\<in>set (take n (scan_result f (sort_rows Ascending (read_rows wb (concat mem_rows) segment_rows max_seq)))). fst e < k"
  shows "\<exists>it it1 it2 out. db_iterator_new env key_range wb mem_iters segment_iter max_seq None Ascending = Inr it
    \<and> steps (db_next_fn env) n it = Inr it1 \<and> db_iterator_seek env it1 k = (Inr (), it2)
    \<and> yields (db_next_fn env) it2 out
    \<and> map (\<lambda>kv. (kv_key kv, kv_value kv)) out
      = dropWhile (\<lambda>e. fst e < k)
          (drop n (scan_result f (sort_rows Ascending (read_rows wb (concat mem_rows) segment_rows max_seq))))"
proof -
  let ?d = "read_delegate_new key_range wb mem_iters segment_iter max_seq Ascending"
  let ?D = "box_ops (get_ops env) (scan_ops env)"
  let ?rs = "read_rows wb (concat mem_rows) segment_rows max_seq"
  let ?out = "visible_rows (dedup_rows (sort_rows Ascending ?rs))"
  from scan_supplies [OF env dist] obtain ready srows where
    s: "freely_supplies (scan_ops env) Ascending ready srows" "case_sum (\<lambda>_. False) ready ?d"
      "case_sum (\<lambda>_. []) srows ?d = dedup_rows (sort_rows Ascending ?rs)"
    unfolding read_delegate_new_def range option.case sum.case by blast
  from freely_supplies_right [OF s(1), of "get_ops env"] obtain I rows where
    src: "row_source I rows (it_next ?D) (it_seek ?D) Ascending (\<lambda>_ _. True) (it_init ?D)
      (case_sum (\<lambda>_. False) ready) (case_sum (\<lambda>_. []) srows)" by (auto simp: freely_supplies_def)
  note fwd = row_source.axioms(1) [OF src]
  note ri = forward_iterator.axioms(1) [OF fwd]
  from row_source.init_ready [OF src s(2)] obtain s0 where
    s0: "it_init ?D ?d = Inr s0" "I s0" "rows s0 = dedup_rows (sort_rows Ascending ?rs)" unfolding s(3) by blast
  define it where "it = \<lparr>di_range = key_range, di_iter = Inr s0, di_invalidated_error = None, di_last_key = None, di_order = Ascending\<rparr>"
  have "it_init (box_ops (merge_operator_ops x) (required_ops x)) (Inr ?d) = bind_result (it_init x ?d) (\<lambda>d. Inr (Inr d))"
    for x :: "('m, 'g) read_delegate iter_ops" by (simp add: box_ops_def required_ops_def)
  then have new: "db_iterator_new env key_range wb mem_iters segment_iter max_seq None Ascending = Inr it"
    unfolding db_iterator_new_eq option.case by (simp add: read_ops_def Let_def s0(1) it_def)
  have nm: "\<forall>r\<in>set (dedup_rows (sort_rows Ascending ?rs)). \<not> is_merge (re_value r)"
    using plain dedup_rows_subset [of "sort_rows Ascending ?rs"] by (auto simp only: set_sort_rows)
  have entries: "map entry_of ?out = scan_result f (sort_rows Ascending ?rs)"
    using visible_scan [OF sorted_sort_rows [of Ascending ?rs], of f] by (simp add: merged_rows_plain [OF nm])
  have "plain_state I rows key_range [] it ?out" using s0(2,3) nm by (simp add: plain_state_def it_def)
  from plain_steps [OF ri this, of n] obtain it1 where
    it1: "steps (db_next_fn env) n it = Inr it1" "plain_state I rows key_range (take n ?out) it1 (drop n ?out)" by auto
  have last: "take n ?out \<noteq> [] \<longrightarrow> re_key (last (take n ?out)) < k"
  proof
    assume "take n ?out \<noteq> []"
    then have "entry_of (last (take n ?out)) \<in> set (take n (map entry_of ?out))" by (simp add: take_map)
    with key(2) show "re_key (last (take n ?out)) < k" unfolding entries [symmetric] by (auto simp: entry_of_def)
  qed
  from plain_seek [OF fwd it1(2) key(1) last] obtain it2 where
    it2: "db_iterator_seek env it1 k = (Inr (), it2)"
      "plain_state I rows key_range (take n ?out) it2 (dropWhile (\<lambda>e. re_key e < k) (drop n ?out))" by blast
  from it2(2) obtain d where d: "di_iter it2 = Inr d" "I d" "\<forall>r\<in>set (rows d). \<not> is_merge (re_value r)"
    "dropWhile (\<lambda>e. re_key e < k) (drop n ?out) = visible_rows (rows d)" "di_invalidated_error it2 = None"
    unfolding plain_state_def by blast
  from row_iterator.yields_rows [OF db_next_rows [OF plain_iterator [OF ri]], of it2] d
  have "yields (db_next_fn env) it2 (map kv_of (dropWhile (\<lambda>e. re_key e < k) (drop n ?out)))" by simp
  moreover have "map (\<lambda>kv. (kv_key kv, kv_value kv)) (map kv_of (dropWhile (\<lambda>e. re_key e < k) (drop n ?out)))
      = dropWhile (\<lambda>e. fst e < k) (drop n (scan_result f (sort_rows Ascending ?rs)))"
    unfolding entries [symmetric] by (simp add: comp_def entry_of_kv dropWhile_map drop_map entry_of_def)
  ultimately show ?thesis using new it1(1) it2(1) by blast
qed

subsection \<open>A seek of the merge operator's iterator can lose a row\<close>




subsection \<open>Three reads of a transaction\<close>

text \<open>A transaction with a pending merge, over the sample memtable.\<close>

definition pending_merge :: row_entry where
  "pending_merge = \<lparr>re_key = [1], re_value = Merge [9], re_seq = - 1, re_create_ts = None, re_expire_ts = None\<rparr>"

definition sample_pending :: write_batch_iterator where
  "sample_pending = \<lparr>wbi_iter = [pending_merge], wbi_ordering = Ascending\<rparr>"

lemma sample_pending_ok: "batch_iter_ok Ascending sample_pending"
  by (simp add: batch_iter_ok_def sample_pending_def)

definition pending_put :: row_entry where
  "pending_put = \<lparr>re_key = [3], re_value = Value [7], re_seq = - 1, re_create_ts = None, re_expire_ts = None\<rparr>"

definition sample_put :: write_batch_iterator where
  "sample_put = \<lparr>wbi_iter = [pending_put], wbi_ordering = Ascending\<rparr>"

lemma sample_put_ok: "batch_iter_ok Ascending sample_put"
  by (simp add: batch_iter_ok_def sample_put_def)

lemma sample_env_ok:
  assumes "batch_iter_ok Ascending wb"
  shows "read_env_ok (memtable_env btree) Ascending (Some wb) [kv_table_range btree sample_table s e Ascending]
     [filter (\<lambda>r. in_bounds s e (re_key r)) [sample_row [1] (Value [8]) 5, sample_row [2] Tombstone 6]] EmptyIterator []"
proof -
  have "memtable_ok btree strict_keys sample_table"
    by (rule skip_map.built_ok [OF skm.skip_map_axioms sample_table_built [of id]])
  then show ?thesis
    using memtable_env_ok [OF skm.skip_map_axioms, where tables = "[sample_table]" and wb = "Some wb" and order = Ascending and s = s and e = e]
    by (simp add: assms sample_table_rows order_rows_def)
qed


text \<open>Witness of C4: the lookup of the merged key.\<close>

theorem db_get_correct_witness:
  "\<exists>it out. db_iterator_new (memtable_env btree) \<lparr>cr_start = StartBound (Included [1]), cr_end = EndBound (Included [1])\<rparr>
      (Some sample_pending) [kv_table_range btree sample_table (Included [1]) (Included [1]) Ascending] EmptyIterator (Some 5)
      (Some (default_merge_batch append_merge)) Ascending = Inr it
    \<and> yields (db_next_fn (memtable_env btree)) it out \<and> map (\<lambda>kv. (kv_key kv, kv_value kv)) out = [([1], [8, 9])]"
proof -
  let ?rs = "read_rows (Some sample_pending) (concat [filter (\<lambda>r. in_bounds (Included [1]) (Included [1]) (re_key r))
    [sample_row [1] (Value [8]) 5, sample_row [2] Tombstone 6]]) [] (Some 5)"
  have rs: "?rs = [pending_merge, sample_row [1] (Value [8]) 5]"
    by (simp add: read_rows_def sample_pending_def at_snapshot_def in_bounds_def sample_row_def)
  have keys: "\<forall>r\<in>set ?rs. re_key r = [1]" "sorted_wrt (row_le Ascending) ?rs"
    unfolding rs by (simp_all add: pending_merge_def sample_row_def row_le_def)
  have point: "as_point \<lparr>cr_start = StartBound (Included [1]), cr_end = EndBound (Included [1 :: byte])\<rparr> = Some [1]"
    by (simp add: as_point_def)
  have res: "scan_result (\<lambda>_ a b. a @ b) ?rs = [([1], [8, 9])]"
    unfolding rs by (simp add: scan_result_def visible_entry_def versions_def pending_merge_def sample_row_def List.map_filter_simps)
  from db_get_correct [OF appending.merge_operator_axioms sample_env_ok [OF sample_pending_ok] point keys] show ?thesis unfolding res .
qed

text \<open>Witness of C39: after the first entry, a seek over the key with the tombstone.\<close>

theorem db_seek_correct_witness:
  "\<exists>it it1 it2 out. db_iterator_new (memtable_env btree) \<lparr>cr_start = StartBound Unbounded, cr_end = EndBound Unbounded\<rparr>
      (Some sample_put) [kv_table_range btree sample_table Unbounded Unbounded Ascending] EmptyIterator None None Ascending = Inr it
    \<and> steps (db_next_fn (memtable_env btree)) 1 it = Inr it1 \<and> db_iterator_seek (memtable_env btree) it1 [2] = (Inr (), it2)
    \<and> yields (db_next_fn (memtable_env btree)) it2 out \<and> map (\<lambda>kv. (kv_key kv, kv_value kv)) out = [([3], [7])]"
proof -
  let ?range = "\<lparr>cr_start = StartBound Unbounded, cr_end = EndBound (Unbounded :: bytes bound)\<rparr>"
  let ?rs = "read_rows (Some sample_put) (concat [filter (\<lambda>r. in_bounds Unbounded Unbounded (re_key r))
    [sample_row [1] (Value [8]) 5, sample_row [2] Tombstone 6]]) [] None"
  have rs: "?rs = [pending_put, sample_row [1] (Value [8]) 5, sample_row [2] Tombstone 6]"
    by (simp add: read_rows_def sample_put_def at_snapshot_def in_bounds_def sample_row_def)
  have dist: "distinct_rows ?rs" unfolding rs by (simp add: row_id_def pending_put_def sample_row_def)
  have point: "as_point ?range = None" by (simp add: as_point_def)
  have plain: "\<forall>r\<in>set ?rs. \<not> is_merge (re_value r)" unfolding rs by (simp add: pending_put_def sample_row_def)
  have res: "scan_result (\<lambda>_ a b. a @ b) (sort_rows Ascending ?rs) = [([1], [8]), ([3], [7])]"
    unfolding rs by (simp add: sort_rows_def row_le_def scan_result_def visible_entry_def versions_def pending_put_def
        sample_row_def List.map_filter_simps)
  have key: "contains ?range [2]"
    "\<forall>e\<in>set (take 1 (scan_result (\<lambda>_ a b. a @ b) (sort_rows Ascending ?rs))). fst e < [2]"
    unfolding res by (simp_all add: contains_def)
  from db_seek_correct [OF sample_env_ok [OF sample_put_ok] point dist plain key] show ?thesis unfolding res by simp
qed

end
