(* ===== verification/Retention.thy ===== *)
theory Retention
  imports Visible
begin

section \<open>Retention\<close>

text \<open>
  \<open>retention_iterator.rs\<close>: while memtables are flushed and runs compacted, versions of a key that no
  snapshot needs are dropped, expired values become tombstones, expired merge operands vanish, and
  in the last run the tombstones at the end go as well. The iterator collects the versions
  of a key before it decides which to keep. What is kept answers every snapshot that is still
  possible as all versions would.
\<close>

subsection \<open>The filter on the versions of a key\<close>

text \<open>The ordered map from sequence numbers, newest first, to versions.\<close>

fun insert_version :: "row_entry \<Rightarrow> row_entry list \<Rightarrow> row_entry list" where
  "insert_version e [] = [e]"
| "insert_version e (v # vs) =
     (if re_seq v > re_seq e then v # insert_version e vs
      else if re_seq v = re_seq e then e # vs else e # v # vs)"

text \<open>The conversions of time: from a recorded second to a date, and from a date to milliseconds.\<close>

record 'd time_env =
  te_binary_search :: "u64 list \<Rightarrow> u64 \<Rightarrow> nat + nat"
  te_from_timestamp :: "i64 \<Rightarrow> 'd option"
  te_timestamp_millis :: "'d \<Rightarrow> i64"

definition continue_retain_by_time :: "'d time_env \<Rightarrow> sequence_tracker \<Rightarrow> nat option \<Rightarrow> i64 \<Rightarrow> u64 \<Rightarrow> bool" where
  "continue_retain_by_time te tracker retention_timeout current_system_ts entry_seq =
     (case retention_timeout of
        Some timeout \<Rightarrow>
          let create_sys_ts =
                (case find_ts (te_binary_search te) (te_from_timestamp te) tracker entry_seq RoundUp of
                   Some ts \<Rightarrow> te_timestamp_millis te ts
                 | None \<Rightarrow> current_system_ts)
          in sint (create_sys_ts + of_nat timeout) > sint current_system_ts
      | None \<Rightarrow> False)"

definition continue_retain_by_seq :: "u64 option \<Rightarrow> u64 \<Rightarrow> bool" where
  "continue_retain_by_seq retention_min_seq entry_seq =
     (case retention_min_seq of Some min_seq \<Rightarrow> entry_seq > min_seq | None \<Rightarrow> False)"

definition expire_entry :: "i64 \<Rightarrow> row_entry \<Rightarrow> row_entry option" where
  "expire_entry compaction_start_ts entry =
     (case re_expire_ts entry of
        Some expire_ts \<Rightarrow>
          if sint expire_ts \<le> sint compaction_start_ts
          then if is_merge (re_value entry) then None
               else Some \<lparr>re_key = re_key entry, re_value = Tombstone, re_seq = re_seq entry,
                          re_create_ts = re_create_ts entry, re_expire_ts = None\<rparr>
          else Some entry
      | None \<Rightarrow> Some entry)"

fun retention_loop :: "i64 \<Rightarrow> (u64 \<Rightarrow> bool) \<Rightarrow> row_entry list \<Rightarrow> row_entry list \<Rightarrow> row_entry list" where
  "retention_loop start retain [] filtered_versions = filtered_versions"
| "retention_loop start retain (entry # entries) filtered_versions =
     (case expire_entry start entry of
        None \<Rightarrow> retention_loop start retain entries filtered_versions
      | Some entry' \<Rightarrow>
          let filtered_versions = insert_version entry' filtered_versions
          in if retain (re_seq entry') \<or> is_merge (re_value entry)
             then retention_loop start retain entries filtered_versions
             else filtered_versions)"

definition pop_tail_tombstones :: "row_entry list \<Rightarrow> row_entry list" where
  "pop_tail_tombstones vs = rev (dropWhile (\<lambda>e. is_tombstone (re_value e)) (rev vs))"

definition apply_retention_filter ::
    "'d time_env \<Rightarrow> row_entry list \<Rightarrow> i64 \<Rightarrow> i64 \<Rightarrow> nat option \<Rightarrow> u64 option \<Rightarrow> bool \<Rightarrow> sequence_tracker \<Rightarrow> row_entry list" where
  "apply_retention_filter te entries compaction_start_ts current_system_ts retention_timeout retention_min_seq
       filter_tombstone tracker =
     (let filtered_versions =
            retention_loop compaction_start_ts
              (\<lambda>seq. continue_retain_by_time te tracker retention_timeout current_system_ts seq
                       \<or> continue_retain_by_seq retention_min_seq seq) entries []
      in if filter_tombstone then pop_tail_tombstones filtered_versions else filtered_versions)"

subsection \<open>The buffer and the iterator\<close>

record retention_buffer =
  rb_current_versions :: "row_entry list"
  rb_next :: "row_entry option"
  rb_processed :: bool
  rb_end_of_input :: bool

datatype retention_buffer_state = NeedPush | NeedPopAndContinue | NeedPopAndQuit | NeedProcess

definition retention_buffer_new :: retention_buffer where
  "retention_buffer_new = \<lparr>rb_current_versions = [], rb_next = None, rb_processed = False, rb_end_of_input = False\<rparr>"

definition buffer_state :: "retention_buffer \<Rightarrow> retention_buffer_state" where
  "buffer_state b =
     (if rb_processed b then if rb_end_of_input b then NeedPopAndQuit else NeedPopAndContinue
      else if rb_end_of_input b \<or> rb_next b \<noteq> None then NeedProcess else NeedPush)"

definition buffer_clear :: "retention_buffer \<Rightarrow> retention_buffer" where
  "buffer_clear b = b\<lparr>rb_current_versions := [], rb_next := None, rb_processed := False, rb_end_of_input := False\<rparr>"

definition mark_end_of_input :: "retention_buffer \<Rightarrow> retention_buffer" where
  "mark_end_of_input b = b\<lparr>rb_end_of_input := True\<rparr>"

definition buffer_push :: "row_entry \<Rightarrow> retention_buffer \<Rightarrow> retention_buffer" where
  "buffer_push entry b =
     (case rb_current_versions b of
        [] \<Rightarrow> b\<lparr>rb_current_versions := insert_version entry (rb_current_versions b)\<rparr>
      | first # _ \<Rightarrow>
          if re_key entry \<noteq> re_key first then b\<lparr>rb_next := Some entry\<rparr>
          else b\<lparr>rb_current_versions := insert_version entry (rb_current_versions b)\<rparr>)"

definition process_retention :: "(row_entry list \<Rightarrow> row_entry list) \<Rightarrow> retention_buffer \<Rightarrow> retention_buffer" where
  "process_retention f b =
     (if rb_processed b then b
      else b\<lparr>rb_current_versions := f (rb_current_versions b), rb_processed := True\<rparr>)"

definition buffer_pop :: "retention_buffer \<Rightarrow> (row_entry option \<times> retention_buffer) result" where
  "buffer_pop b =
     (case rb_current_versions b of
        entry # rest \<Rightarrow> Inr (Some entry, b\<lparr>rb_current_versions := rest\<rparr>)
      | [] \<Rightarrow>
          (case rb_next b of
             Some entry \<Rightarrow>
               Inr (None, b\<lparr>rb_next := None, rb_current_versions := insert_version entry [], rb_processed := False\<rparr>)
           | None \<Rightarrow>
               if rb_end_of_input b then Inr (None, b)
               else Inl (Panic ''No next entry but not at end of input - this shouldn't happen'')))"

text \<open>The clock is read once for every key: \<open>ri_readings\<close> counts the readings so far.\<close>

record 's retention_iterator =
  ri_inner :: 's
  ri_retention_timeout :: "nat option"
  ri_retention_min_seq :: "u64 option"
  ri_buffer :: retention_buffer
  ri_filter_tombstone :: bool
  ri_compaction_start_ts :: i64
  ri_sequence_tracker :: sequence_tracker
  ri_readings :: nat

definition retention_iterator_new ::
    "'s \<Rightarrow> nat option \<Rightarrow> u64 option \<Rightarrow> bool \<Rightarrow> i64 \<Rightarrow> sequence_tracker \<Rightarrow> 's retention_iterator" where
  "retention_iterator_new inner retention_timeout retention_min_seq filter_tombstone compaction_start_ts tracker =
     \<lparr>ri_inner = inner, ri_retention_timeout = retention_timeout, ri_retention_min_seq = retention_min_seq,
      ri_buffer = retention_buffer_new, ri_filter_tombstone = filter_tombstone,
      ri_compaction_start_ts = compaction_start_ts, ri_sequence_tracker = tracker, ri_readings = 0\<rparr>"

definition retention_init :: "('s \<Rightarrow> 's result) \<Rightarrow> 's retention_iterator \<Rightarrow> 's retention_iterator result" where
  "retention_init init it = bind_result (init (ri_inner it)) (\<lambda>inner. Inr (it\<lparr>ri_inner := inner\<rparr>))"

definition retention_filter :: "'d time_env \<Rightarrow> (nat \<Rightarrow> i64) \<Rightarrow> 's retention_iterator \<Rightarrow> nat \<Rightarrow> row_entry list \<Rightarrow> row_entry list" where
  "retention_filter te clock it n entries =
     apply_retention_filter te entries (ri_compaction_start_ts it) (clock n) (ri_retention_timeout it)
       (ri_retention_min_seq it) (ri_filter_tombstone it) (ri_sequence_tracker it)"

partial_function (option) retention_next_loop ::
    "'d time_env \<Rightarrow> (nat \<Rightarrow> i64) \<Rightarrow> 's next_fn \<Rightarrow> 's retention_iterator
      \<Rightarrow> (row_entry option \<times> 's retention_iterator) result option" where
  "retention_next_loop te clock nxt it =
     (case buffer_state (ri_buffer it) of
        NeedPush \<Rightarrow>
          (case nxt (ri_inner it) of
             Inl e \<Rightarrow> Some (Inl e)
           | Inr (None, inner) \<Rightarrow>
               retention_next_loop te clock nxt (it\<lparr>ri_inner := inner, ri_buffer := mark_end_of_input (ri_buffer it)\<rparr>)
           | Inr (Some entry, inner) \<Rightarrow>
               retention_next_loop te clock nxt (it\<lparr>ri_inner := inner, ri_buffer := buffer_push entry (ri_buffer it)\<rparr>))
      | NeedPopAndContinue \<Rightarrow>
          (case buffer_pop (ri_buffer it) of
             Inl e \<Rightarrow> Some (Inl e)
           | Inr (Some entry, b) \<Rightarrow> Some (Inr (Some entry, it\<lparr>ri_buffer := b\<rparr>))
           | Inr (None, b) \<Rightarrow> retention_next_loop te clock nxt (it\<lparr>ri_buffer := b\<rparr>))
      | NeedPopAndQuit \<Rightarrow>
          (case buffer_pop (ri_buffer it) of
             Inl e \<Rightarrow> Some (Inl e)
           | Inr (entry, b) \<Rightarrow> Some (Inr (entry, it\<lparr>ri_buffer := b\<rparr>)))
      | NeedProcess \<Rightarrow>
          retention_next_loop te clock nxt
            (it\<lparr>ri_buffer := process_retention (retention_filter te clock it (ri_readings it)) (ri_buffer it),
                ri_readings := ri_readings it + 1\<rparr>))"

declare retention_next_loop.simps [code]

definition retention_next :: "'d time_env \<Rightarrow> (nat \<Rightarrow> i64) \<Rightarrow> 's next_fn \<Rightarrow> 's retention_iterator next_fn" where
  "retention_next te clock nxt it = run_loop (retention_next_loop te clock nxt it)"

definition retention_seek :: "'s seek_fn \<Rightarrow> 's retention_iterator seek_fn" where
  "retention_seek seek it next_key =
     (let it = it\<lparr>ri_buffer := buffer_clear (ri_buffer it)\<rparr>
      in bind_result (seek (ri_inner it) next_key) (\<lambda>inner. Inr (it\<lparr>ri_inner := inner\<rparr>)))"

subsection \<open>What the filter keeps\<close>

abbreviation newest_first :: "row_entry list \<Rightarrow> bool" where
  "newest_first rs \<equiv> sorted_wrt (\<lambda>a b. re_seq b < re_seq a) rs"

text \<open>The rows with expired values as tombstones and without expired merge operands.\<close>

definition expire_rows :: "i64 \<Rightarrow> row_entry list \<Rightarrow> row_entry list" where
  "expire_rows start rs = List.map_filter (expire_entry start) rs"

lemma expire_rows_simps [simp]:
  "expire_rows start [] = []"
  "expire_rows start (e # es) = (case expire_entry start e of None \<Rightarrow> [] | Some e' \<Rightarrow> [e']) @ expire_rows start es"
  "expire_rows start (es @ es') = expire_rows start es @ expire_rows start es'"
  by (simp_all add: expire_rows_def map_filter_def split: option.split)

lemma expire_entry_frame:
  assumes "expire_entry start e = Some e'"
  shows "re_key e' = re_key e" "re_seq e' = re_seq e" "is_merge (re_value e') \<longleftrightarrow> is_merge (re_value e)"
  using assms by (auto simp: expire_entry_def split: option.splits if_splits)

lemma expire_rows_mem: "r \<in> set (expire_rows start rs) \<Longrightarrow> \<exists>e\<in>set rs. re_key r = re_key e \<and> re_seq r = re_seq e"
  using expire_entry_frame(1,2) by (fastforce simp: expire_rows_def map_filter_def)

lemma insert_version_last: "\<forall>v\<in>set vs. re_seq e < re_seq v \<Longrightarrow> insert_version e vs = vs @ [e]"
  by (induction vs) auto

text \<open>The loop keeps the expired rows up to the first that ends the retention.\<close>

lemma retention_loop_prefix:
  assumes "newest_first es" "\<forall>f\<in>set fs. \<forall>e\<in>set es. re_seq e < re_seq f"
  shows "\<exists>kept rest. retention_loop start retain es fs = fs @ kept \<and> expire_rows start es = kept @ rest
    \<and> (rest = [] \<or> (kept \<noteq> [] \<and> \<not> is_merge (re_value (last kept)) \<and> \<not> retain (re_seq (last kept))))"
  using assms
proof (induction es arbitrary: fs)
  case Nil
  then show ?case by simp
next
  case (Cons e es)
  show ?case
  proof (cases "expire_entry start e")
    case None
    with Cons show ?thesis by simp
  next
    case (Some e')
    note frame = expire_entry_frame [OF Some]
    have ins: "insert_version e' fs = fs @ [e']" using Cons.prems(2) frame by (intro insert_version_last) simp
    show ?thesis
    proof (cases "retain (re_seq e') \<or> is_merge (re_value e)")
      case True
      from Cons.IH [of "fs @ [e']"] Cons.prems frame obtain kept rest where
        "retention_loop start retain es (fs @ [e']) = (fs @ [e']) @ kept" "expire_rows start es = kept @ rest"
        "rest = [] \<or> (kept \<noteq> [] \<and> \<not> is_merge (re_value (last kept)) \<and> \<not> retain (re_seq (last kept)))"
        by auto
      with True Some ins show ?thesis by (intro exI [of _ "e' # kept"] exI [of _ rest]) (auto simp: Let_def)
    next
      case False
      with Some ins frame show ?thesis by (intro exI [of _ "[e']"] exI [of _ "expire_rows start es"]) (simp add: Let_def)
    qed
  qed
qed

lemma resolve_base: "\<not> is_merge (re_value b) \<Longrightarrow> resolve g (xs @ b # ys) = resolve g (xs @ b # zs)"
  by (induction xs) (auto split: value_deletable.splits)

lemma resolve_tombstones: "\<forall>t\<in>set ts. is_tombstone (re_value t) \<Longrightarrow> resolve g (xs @ ts) = resolve g xs"
  by (induction xs; cases ts) (auto split: value_deletable.splits)

lemma pop_tail_split: "\<exists>ts. vs = pop_tail_tombstones vs @ ts \<and> (\<forall>t\<in>set ts. is_tombstone (re_value t))"
  unfolding pop_tail_tombstones_def
  by (rule exI [of _ "rev (takeWhile (\<lambda>e. is_tombstone (re_value e)) (rev vs))"])
     (auto simp flip: rev_append dest: set_takeWhileD)

text \<open>The rows below a version that is not a merge operand do not matter to a reader that sees it.\<close>

lemma filter_resolves:
  assumes "newest_first es" "filter_tombstone \<longrightarrow> older = []"
    and n: "case retention_min_seq of Some m \<Rightarrow> m \<le> n | None \<Rightarrow> \<forall>e\<in>set es. re_seq e \<le> n"
  shows "resolve g (filter (\<lambda>r. re_seq r \<le> n) (apply_retention_filter te es start now timeout retention_min_seq filter_tombstone tracker) @ older)
    = resolve g (filter (\<lambda>r. re_seq r \<le> n) (expire_rows start es) @ older)"
proof -
  let ?retain = "\<lambda>seq. continue_retain_by_time te tracker timeout now seq \<or> continue_retain_by_seq retention_min_seq seq"
  obtain kept rest where k: "retention_loop start ?retain es [] = kept" "expire_rows start es = kept @ rest"
    "rest = [] \<or> (kept \<noteq> [] \<and> \<not> is_merge (re_value (last kept)) \<and> \<not> ?retain (re_seq (last kept)))"
    using retention_loop_prefix [OF assms(1), of "[]" start ?retain] by auto
  have "resolve g (filter (\<lambda>r. re_seq r \<le> n) kept @ older) = resolve g (filter (\<lambda>r. re_seq r \<le> n) (kept @ rest) @ older)"
  proof (cases "rest = []")
    case False
    with k(3) obtain xs b where b: "kept = xs @ [b]" "\<not> is_merge (re_value b)" "\<not> ?retain (re_seq b)"
      by (cases kept rule: rev_cases) auto
    have "b \<in> set (expire_rows start es)" using k(2) b(1) by simp
    from expire_rows_mem [OF this] b(3) n have "re_seq b \<le> n"
      by (auto simp: continue_retain_by_seq_def split: option.splits)
    with b resolve_base [OF b(2), of g "filter (\<lambda>r. re_seq r \<le> n) xs"] show ?thesis by simp
  qed simp
  moreover have "resolve g (filter (\<lambda>r. re_seq r \<le> n) (pop_tail_tombstones kept)) = resolve g (filter (\<lambda>r. re_seq r \<le> n) kept)"
  proof -
    from pop_tail_split [of kept] obtain ts where ts: "kept = pop_tail_tombstones kept @ ts" "\<forall>t\<in>set ts. is_tombstone (re_value t)"
      by blast
    then have "filter (\<lambda>r. re_seq r \<le> n) kept = filter (\<lambda>r. re_seq r \<le> n) (pop_tail_tombstones kept) @ filter (\<lambda>r. re_seq r \<le> n) ts"
      by (metis filter_append)
    with ts(2) show ?thesis by (simp add: resolve_tombstones)
  qed
  ultimately show ?thesis using assms(2) k(1,2) by (auto simp: apply_retention_filter_def Let_def)
qed

subsection \<open>What the iterator returns\<close>

function retained :: "(nat \<Rightarrow> row_entry list \<Rightarrow> row_entry list) \<Rightarrow> nat \<Rightarrow> row_entry list \<Rightarrow> row_entry list" where
  "retained F n [] = []"
| "retained F n (x # xs) =
     F n (x # takeWhile (\<lambda>r. re_key r = re_key x) xs) @ retained F (Suc n) (dropWhile (\<lambda>r. re_key r = re_key x) xs)"
  by pat_completeness auto
termination
  by (relation "measure (\<lambda>(F, n, rs). length rs)") (auto simp: less_Suc_eq_le length_dropWhile_le)

definition upstream :: "('s \<Rightarrow> row_entry list) \<Rightarrow> 's retention_iterator \<Rightarrow> row_entry list" where
  "upstream rows it = (case rb_next (ri_buffer it) of None \<Rightarrow> [] | Some e \<Rightarrow> [e]) @ rows (ri_inner it)"

definition retention_rows :: "'d time_env \<Rightarrow> (nat \<Rightarrow> i64) \<Rightarrow> ('s \<Rightarrow> row_entry list) \<Rightarrow> 's retention_iterator \<Rightarrow> row_entry list" where
  "retention_rows te clock rows it =
     (let cur = rb_current_versions (ri_buffer it); F = retention_filter te clock it
      in if rb_processed (ri_buffer it) then cur @ retained F (ri_readings it) (upstream rows it)
         else retained F (ri_readings it) (cur @ upstream rows it))"

definition grouped :: "iteration_order \<Rightarrow> row_entry list \<Rightarrow> bool" where
  "grouped ord' rs \<longleftrightarrow> sorted_wrt (row_le ord') rs \<and> distinct_rows rs"

definition retention_ok :: "('s \<Rightarrow> bool) \<Rightarrow> ('s \<Rightarrow> row_entry list) \<Rightarrow> iteration_order \<Rightarrow> 's retention_iterator \<Rightarrow> bool" where
  "retention_ok I rows ord' it \<longleftrightarrow>
     (let b = ri_buffer it; cur = rb_current_versions b
      in I (ri_inner it)
         \<and> (rb_end_of_input b \<longrightarrow> upstream rows it = [])
         \<and> (rb_processed b \<longrightarrow> grouped ord' (upstream rows it) \<and> (rb_end_of_input b \<or> rb_next b \<noteq> None))
         \<and> (\<not> rb_processed b \<longrightarrow> grouped ord' (cur @ upstream rows it)
              \<and> (\<exists>k. (\<forall>r\<in>set cur. re_key r = k) \<and> (\<forall>e. rb_next b = Some e \<longrightarrow> cur \<noteq> [] \<and> re_key e \<noteq> k))))"

lemma retention_filter_frame [simp]:
  "retention_filter te clock (it\<lparr>ri_inner := i\<rparr>) = retention_filter te clock it"
  "retention_filter te clock (it\<lparr>ri_buffer := b\<rparr>) = retention_filter te clock it"
  "retention_filter te clock (it\<lparr>ri_readings := k\<rparr>) = retention_filter te clock it"
  by (simp_all add: retention_filter_def fun_eq_iff)

lemma retention_filter_Nil: "retention_filter te clock it n [] = []"
  by (simp add: retention_filter_def apply_retention_filter_def pop_tail_tombstones_def)

lemma grouped_tail: "grouped ord' (xs @ ys) \<Longrightarrow> grouped ord' ys"
  by (simp add: grouped_def sorted_wrt_append)

lemma grouped_versions:
  assumes "grouped ord' rs" "\<forall>r\<in>set rs. re_key r = k"
  shows "newest_first rs"
  using assms
proof (induction rs)
  case (Cons r rs)
  have "re_seq x < re_seq r" if "x \<in> set rs" for x
  proof -
    from Cons.prems that have "re_key x = re_key r" "re_seq x \<le> re_seq r" by (auto simp: grouped_def row_le_def)
    moreover have "row_id r \<noteq> row_id x" using Cons.prems(1) that by (auto simp: grouped_def)
    ultimately show ?thesis by (simp add: row_id_def order_less_le)
  qed
  with Cons show ?case by (auto simp: grouped_def)
qed simp

text \<open>The steps of the loop, on the rows that are left.\<close>

lemma retained_group:
  assumes "cur \<noteq> []" "\<forall>r\<in>set cur. re_key r = k" "up = [] \<or> re_key (hd up) \<noteq> k"
  shows "retained F n (cur @ up) = F n cur @ retained F (Suc n) up"
proof (cases cur)
  case (Cons c cs)
  with assms have all: "re_key c = k" "\<forall>r\<in>set cs. re_key r = k" by simp_all
  have "takeWhile (\<lambda>r. re_key r = k) up = []" "dropWhile (\<lambda>r. re_key r = k) up = up"
    using assms(3) by (cases up; simp)+
  with Cons all show ?thesis by (simp add: takeWhile_append2 dropWhile_append2)
qed (use assms in simp)

lemma push_ok:
  assumes ok: "retention_ok I rows ord' it" and st: "buffer_state (ri_buffer it) = NeedPush"
    and r: "rows (ri_inner it) = x # xs" "I i" "rows i = xs"
  defines "it' \<equiv> it\<lparr>ri_inner := i, ri_buffer := buffer_push x (ri_buffer it)\<rparr>"
  shows "retention_ok I rows ord' it' \<and> retention_rows te clock rows it' = retention_rows te clock rows it"
proof -
  let ?b = "ri_buffer it" and ?cur = "rb_current_versions (ri_buffer it)"
  from st have b: "\<not> rb_processed ?b" "\<not> rb_end_of_input ?b" "rb_next ?b = None"
    by (auto simp: buffer_state_def split: if_splits)
  from ok b r(1) obtain k where g: "grouped ord' (?cur @ x # xs)" and same: "\<forall>r\<in>set ?cur. re_key r = k"
    by (auto simp: retention_ok_def upstream_def Let_def)
  show ?thesis
  proof (cases "?cur = [] \<or> re_key x = k")
    case True
    then have all: "\<forall>r\<in>set (?cur @ [x]). re_key r = re_key x" using same by auto
    have "newest_first (?cur @ [x])"
      by (rule grouped_versions [OF _ all, of ord']) (use g in \<open>simp add: grouped_def sorted_wrt_append\<close>)
    then have "insert_version x ?cur = ?cur @ [x]" by (intro insert_version_last) (simp add: sorted_wrt_append)
    with True same have "buffer_push x ?b = ?b\<lparr>rb_current_versions := ?cur @ [x]\<rparr>"
      by (cases ?cur) (simp_all add: buffer_push_def)
    then have it': "ri_inner it' = i" "ri_buffer it' = ?b\<lparr>rb_current_versions := ?cur @ [x]\<rparr>" "ri_readings it' = ri_readings it"
      "retention_filter te clock it' = retention_filter te clock it"
      by (simp_all add: it'_def)
    then have up: "upstream rows it' = xs" by (simp add: upstream_def b r)
    have "retention_ok I rows ord' it'"
      unfolding retention_ok_def Let_def up it' using g all b r(2) by auto
    moreover have "retention_rows te clock rows it' = retention_rows te clock rows it"
      unfolding retention_rows_def Let_def up it' by (simp add: b upstream_def r)
    ultimately show ?thesis ..
  next
    case False
    with same have "buffer_push x ?b = ?b\<lparr>rb_next := Some x\<rparr>" by (cases ?cur) (simp_all add: buffer_push_def)
    then have it': "ri_inner it' = i" "ri_buffer it' = ?b\<lparr>rb_next := Some x\<rparr>" "ri_readings it' = ri_readings it"
      "retention_filter te clock it' = retention_filter te clock it"
      by (simp_all add: it'_def)
    then have up: "upstream rows it' = x # xs" by (simp add: upstream_def b r)
    have "retention_ok I rows ord' it'"
      unfolding retention_ok_def Let_def up it' using g same False b r(2) by auto
    moreover have "retention_rows te clock rows it' = retention_rows te clock rows it"
      unfolding retention_rows_def Let_def up it' by (simp add: b upstream_def r)
    ultimately show ?thesis ..
  qed
qed

lemma process_ok:
  fixes te :: "'d time_env" and clock :: "nat \<Rightarrow> i64"
  assumes ok: "retention_ok I rows ord' it" and st: "buffer_state (ri_buffer it) = NeedProcess"
  defines "it' \<equiv> it\<lparr>ri_buffer := process_retention (retention_filter te clock it (ri_readings it)) (ri_buffer it),
                     ri_readings := ri_readings it + 1\<rparr>"
  shows "retention_ok I rows ord' it' \<and> retention_rows te clock rows it' = retention_rows te clock rows it"
proof -
  let ?b = "ri_buffer it" and ?cur = "rb_current_versions (ri_buffer it)" and ?up = "upstream rows it"
  from st have b: "\<not> rb_processed ?b" "rb_end_of_input ?b \<or> rb_next ?b \<noteq> None"
    by (auto simp: buffer_state_def split: if_splits)
  have up: "upstream rows it' = ?up" using b(1) by (simp add: it'_def upstream_def process_retention_def)
  from ok b obtain k where g: "grouped ord' (?cur @ ?up)" "\<forall>r\<in>set ?cur. re_key r = k"
    "rb_end_of_input ?b \<longrightarrow> ?up = []" "\<And>e. rb_next ?b = Some e \<Longrightarrow> ?cur \<noteq> [] \<and> re_key e \<noteq> k"
    by (auto simp: retention_ok_def Let_def)
  have "retention_rows te clock rows it' = retention_rows te clock rows it"
  proof (cases "?cur = []")
    case True
    with g b(2) have "?up = []" by (cases "rb_next ?b") auto
    with True b(1) up retention_filter_Nil show ?thesis by (simp add: retention_rows_def it'_def process_retention_def)
  next
    case False
    have "?up = [] \<or> re_key (hd ?up) \<noteq> k"
      using b(2) g(3,4) by (cases "rb_next ?b") (auto simp: upstream_def)
    from retained_group [OF False g(2) this] b(1) up show ?thesis
      by (simp add: retention_rows_def it'_def process_retention_def Let_def)
  qed
  moreover have "retention_ok I rows ord' it'"
    unfolding retention_ok_def Let_def up
    using ok b g(3) grouped_tail [OF g(1)] by (simp add: it'_def process_retention_def retention_ok_def Let_def)
  ultimately show ?thesis by blast
qed

lemma pop_ok:
  assumes ok: "retention_ok I rows ord' it" and p: "rb_processed (ri_buffer it)"
  shows "case rb_current_versions (ri_buffer it) of
      x # xs \<Rightarrow> \<exists>b. buffer_pop (ri_buffer it) = Inr (Some x, b) \<and> retention_ok I rows ord' (it\<lparr>ri_buffer := b\<rparr>)
        \<and> retention_rows te clock rows it = x # retention_rows te clock rows (it\<lparr>ri_buffer := b\<rparr>)
    | [] \<Rightarrow> \<exists>b. buffer_pop (ri_buffer it) = Inr (None, b) \<and> retention_ok I rows ord' (it\<lparr>ri_buffer := b\<rparr>)
        \<and> retention_rows te clock rows it = retention_rows te clock rows (it\<lparr>ri_buffer := b\<rparr>)
        \<and> (if rb_end_of_input (ri_buffer it) then retention_rows te clock rows it = []
           else rb_next (ri_buffer it) \<noteq> None \<and> rb_next b = None \<and> \<not> rb_end_of_input b)"
proof (cases "rb_current_versions (ri_buffer it)")
  case (Cons x xs)
  with ok p show ?thesis
    by (simp add: buffer_pop_def retention_ok_def retention_rows_def upstream_def Let_def)
next
  case Nil
  show ?thesis
  proof (cases "rb_next (ri_buffer it)")
    case None
    with ok p Nil show ?thesis
      by (auto simp: buffer_pop_def retention_ok_def retention_rows_def upstream_def Let_def)
  next
    case (Some e)
    with ok p have g: "grouped ord' (e # rows (ri_inner it))" "\<not> rb_end_of_input (ri_buffer it)" "I (ri_inner it)"
      by (auto simp: retention_ok_def upstream_def Let_def)
    with Nil Some show ?thesis
      by (auto simp: buffer_pop_def retention_ok_def retention_rows_def upstream_def Let_def p)
  qed
qed

definition retention_work :: "('s \<Rightarrow> row_entry list) \<Rightarrow> 's retention_iterator \<Rightarrow> nat" where
  "retention_work rows it =
     3 * length (rows (ri_inner it)) + (if rb_next (ri_buffer it) = None then 0 else 2)
     + (if rb_processed (ri_buffer it) then 0 else 1) + (if rb_end_of_input (ri_buffer it) then 0 else 1)"

lemma retention_next_returns:
  assumes "row_iterator I rows nxt" "retention_ok I rows ord' it"
  shows "\<exists>it'. retention_next_loop te clock nxt it
      = Some (Inr (case retention_rows te clock rows it of [] \<Rightarrow> None | x # _ \<Rightarrow> Some x, it'))
    \<and> retention_ok I rows ord' it' \<and> retention_rows te clock rows it' = tl (retention_rows te clock rows it)"
  using assms(2)
proof (induction "retention_work rows it" arbitrary: it rule: less_induct)
  case less
  note ok = less.prems
  let ?b = "ri_buffer it" and ?rows = "retention_rows te clock rows it"
  have inner: "I (ri_inner it)" using ok by (simp add: retention_ok_def Let_def)
  have step: ?case
    if "retention_next_loop te clock nxt it = retention_next_loop te clock nxt it1" "retention_ok I rows ord' it1"
      "retention_rows te clock rows it1 = ?rows" "retention_work rows it1 < retention_work rows it" for it1
    using less.hyps [OF that(4,2)] unfolding that(1,3) .
  show ?case
  proof (cases "buffer_state ?b")
    case NeedPush
    then have b: "\<not> rb_processed ?b" "\<not> rb_end_of_input ?b" "rb_next ?b = None"
      by (auto simp: buffer_state_def split: if_splits)
    show ?thesis
    proof (cases "rows (ri_inner it)")
      case Nil
      from row_iterator.next_end [OF assms(1) inner Nil] obtain i where i: "nxt (ri_inner it) = Inr (None, i)" "I i" "rows i = []" by blast
      show ?thesis
      proof (rule step)
        show "retention_next_loop te clock nxt it = retention_next_loop te clock nxt (it\<lparr>ri_inner := i, ri_buffer := mark_end_of_input ?b\<rparr>)"
          by (subst retention_next_loop.simps) (simp add: NeedPush i)
        show "retention_ok I rows ord' (it\<lparr>ri_inner := i, ri_buffer := mark_end_of_input ?b\<rparr>)"
          using ok b i Nil by (auto simp: retention_ok_def upstream_def mark_end_of_input_def Let_def)
        show "retention_rows te clock rows (it\<lparr>ri_inner := i, ri_buffer := mark_end_of_input ?b\<rparr>) = ?rows"
          using b i Nil by (simp add: retention_rows_def upstream_def mark_end_of_input_def Let_def)
        show "retention_work rows (it\<lparr>ri_inner := i, ri_buffer := mark_end_of_input ?b\<rparr>) < retention_work rows it"
          using b i Nil by (simp add: retention_work_def mark_end_of_input_def)
      qed
    next
      case (Cons x xs)
      from row_iterator.next_row [OF assms(1) inner Cons] obtain i where i: "nxt (ri_inner it) = Inr (Some x, i)" "I i" "rows i = xs" by blast
      have "rb_processed (buffer_push x ?b) = rb_processed ?b" "rb_end_of_input (buffer_push x ?b) = rb_end_of_input ?b"
        by (simp_all add: buffer_push_def split: list.split)
      then have work: "retention_work rows (it\<lparr>ri_inner := i, ri_buffer := buffer_push x ?b\<rparr>) < retention_work rows it"
        using b i Cons by (simp add: retention_work_def)
      have "retention_next_loop te clock nxt it = retention_next_loop te clock nxt (it\<lparr>ri_inner := i, ri_buffer := buffer_push x ?b\<rparr>)"
        by (subst retention_next_loop.simps) (simp add: NeedPush i)
      with push_ok [OF ok NeedPush Cons i(2,3), of te clock] work show ?thesis by (intro step) blast+
    qed
  next
    case NeedProcess
    then have b: "\<not> rb_processed ?b" by (auto simp: buffer_state_def split: if_splits)
    let ?it = "it\<lparr>ri_buffer := process_retention (retention_filter te clock it (ri_readings it)) ?b, ri_readings := ri_readings it + 1\<rparr>"
    have "retention_work rows ?it < retention_work rows it" using b by (simp add: retention_work_def process_retention_def)
    moreover have "retention_next_loop te clock nxt it = retention_next_loop te clock nxt ?it"
      by (subst retention_next_loop.simps) (simp add: NeedProcess)
    ultimately show ?thesis using process_ok [OF ok NeedProcess, of te clock] by (intro step) blast+
  next
    case NeedPopAndContinue
    then have b: "rb_processed ?b" "\<not> rb_end_of_input ?b" by (auto simp: buffer_state_def split: if_splits)
    show ?thesis
    proof (cases "rb_current_versions ?b")
      case (Cons x xs)
      with pop_ok [OF ok b(1), of te clock] obtain c where c: "buffer_pop ?b = Inr (Some x, c)" "retention_ok I rows ord' (it\<lparr>ri_buffer := c\<rparr>)"
        "?rows = x # retention_rows te clock rows (it\<lparr>ri_buffer := c\<rparr>)" by auto
      then show ?thesis by (subst retention_next_loop.simps) (simp add: NeedPopAndContinue)
    next
      case Nil
      with pop_ok [OF ok b(1), of te clock] b(2) obtain c where c: "buffer_pop ?b = Inr (None, c)" "retention_ok I rows ord' (it\<lparr>ri_buffer := c\<rparr>)"
        "?rows = retention_rows te clock rows (it\<lparr>ri_buffer := c\<rparr>)" "rb_next ?b \<noteq> None" "rb_next c = None" "\<not> rb_end_of_input c" by auto
      have "retention_next_loop te clock nxt it = retention_next_loop te clock nxt (it\<lparr>ri_buffer := c\<rparr>)"
        by (subst retention_next_loop.simps) (simp add: NeedPopAndContinue c(1))
      moreover have "retention_work rows (it\<lparr>ri_buffer := c\<rparr>) < retention_work rows it"
        using b c(4-6) by (simp add: retention_work_def)
      ultimately show ?thesis using c(2) c(3) [symmetric] by (intro step)
    qed
  next
    case NeedPopAndQuit
    then have b: "rb_processed ?b" "rb_end_of_input ?b" by (auto simp: buffer_state_def split: if_splits)
    have quit: ?thesis
      if "buffer_pop ?b = Inr (case ?rows of [] \<Rightarrow> None | x # _ \<Rightarrow> Some x, c)" "retention_ok I rows ord' (it\<lparr>ri_buffer := c\<rparr>)"
        "retention_rows te clock rows (it\<lparr>ri_buffer := c\<rparr>) = tl ?rows" for c
      using that(2,3) by (subst retention_next_loop.simps) (simp add: NeedPopAndQuit that(1))
    show ?thesis
    proof (cases "rb_current_versions ?b")
      case (Cons x xs)
      with pop_ok [OF ok b(1), of te clock] obtain c where c: "buffer_pop ?b = Inr (Some x, c)" "retention_ok I rows ord' (it\<lparr>ri_buffer := c\<rparr>)"
        "?rows = x # retention_rows te clock rows (it\<lparr>ri_buffer := c\<rparr>)" by auto
      from c(2) show ?thesis by (rule quit [rotated]) (simp_all only: c(1,3) list.case list.sel)
    next
      case Nil
      with pop_ok [OF ok b(1), of te clock] b(2) obtain c where c: "buffer_pop ?b = Inr (None, c)" "retention_ok I rows ord' (it\<lparr>ri_buffer := c\<rparr>)"
        "?rows = retention_rows te clock rows (it\<lparr>ri_buffer := c\<rparr>)" "?rows = []" by auto
      from c(2) show ?thesis by (rule quit [rotated]) (simp_all only: c(1) c(3) [symmetric] c(4) list.case list.sel)
    qed
  qed
qed

lemma retention_row_iterator:
  assumes "row_iterator I rows nxt"
  shows "row_iterator (retention_ok I rows ord') (retention_rows te clock rows) (retention_next te clock nxt)"
proof
  fix it assume ok: "retention_ok I rows ord' it"
  note next_it = retention_next_returns [OF assms ok, of te clock]
  show "\<exists>it'. retention_next te clock nxt it = Inr (None, it') \<and> retention_ok I rows ord' it' \<and> retention_rows te clock rows it' = []"
    if "retention_rows te clock rows it = []"
    using next_it that by (auto simp: retention_next_def run_loop_def)
  show "\<exists>it'. retention_next te clock nxt it = Inr (Some x, it') \<and> retention_ok I rows ord' it' \<and> retention_rows te clock rows it' = xs"
    if "retention_rows te clock rows it = x # xs" for x xs
    using next_it that by (auto simp: retention_next_def run_loop_def)
qed

subsection \<open>Retention and snapshots\<close>

lemma versions_append [simp]: "versions k (xs @ ys) = versions k xs @ versions k ys"
  by (simp add: versions_def)

lemma retention_filter_keys:
  assumes "r \<in> set (retention_filter te clock it n vs)" "newest_first vs"
  shows "re_key r \<in> re_key ` set vs"
proof -
  let ?retain = "\<lambda>seq. continue_retain_by_time te (ri_sequence_tracker it) (ri_retention_timeout it) (clock n) seq
    \<or> continue_retain_by_seq (ri_retention_min_seq it) seq"
  let ?kept = "retention_loop (ri_compaction_start_ts it) ?retain vs []"
  have "set (pop_tail_tombstones ?kept) \<subseteq> set ?kept" by (auto simp: pop_tail_tombstones_def dest: set_dropWhileD)
  with assms(1) have "r \<in> set ?kept"
    by (auto simp: retention_filter_def apply_retention_filter_def Let_def split: if_splits)
  moreover obtain rest where "expire_rows (ri_compaction_start_ts it) vs = ?kept @ rest"
    using retention_loop_prefix [OF assms(2), of "[]" "ri_compaction_start_ts it" ?retain] by auto
  ultimately have "r \<in> set (expire_rows (ri_compaction_start_ts it) vs)" by simp
  from expire_rows_mem [OF this] show ?thesis by auto
qed

text \<open>The versions of a key that are returned are those the filter keeps of all its versions.\<close>

lemma retained_versions:
  assumes "grouped ord' rs" "\<And>m vs r. newest_first vs \<Longrightarrow> r \<in> set (F m vs) \<Longrightarrow> re_key r \<in> re_key ` set vs"
  shows "\<exists>m. versions k (retained F n rs) = F m (versions k rs)"
  using assms(1)
proof (induction rs arbitrary: n rule: length_induct)
  case (1 rs)
  show ?case
  proof (cases rs)
    case Nil
    have "F n [] = []" using assms(2) [of "[]" _ n] by (cases "F n []") auto
    with Nil show ?thesis by (intro exI [of _ n]) (simp add: versions_def)
  next
    case (Cons x xs)
    define g where "g = takeWhile (\<lambda>r. re_key r = re_key x) (x # xs)"
    define rest where "rest = dropWhile (\<lambda>r. re_key r = re_key x) (x # xs)"
    have rs: "rs = g @ rest" by (simp add: Cons g_def rest_def)
    have sorted: "sorted_wrt (row_le ord') (x # xs)" using 1(2) Cons by (simp add: grouped_def)
    note split = sorted_first_group [OF sorted, folded g_def rest_def]
    have "grouped ord' g" "grouped ord' rest" using 1(2) unfolding rs grouped_def by (simp_all add: sorted_wrt_append)
    then have new: "newest_first g" using split(2) grouped_versions by blast
    have out: "retained F n rs = F n g @ retained F (Suc n) rest" by (simp add: Cons g_def rest_def)
    from 1(1) split(5) Cons \<open>grouped ord' rest\<close> obtain m where m: "versions k (retained F (Suc n) rest) = F m (versions k rest)"
      by (metis length_Cons less_Suc_eq_le)
    have keys: "\<forall>r\<in>set (F n g). re_key r = re_key x" using assms(2) [OF new] split(2) by fastforce
    show ?thesis
    proof (cases "k = re_key x")
      case True
      have "versions k g = g" "versions k rest = []" "versions k (F n g) = F n g"
        using split(2,3) keys True by (simp_all add: versions_def filter_empty_conv)
      moreover have "F m [] = []" using assms(2) [of "[]" _ m] by (cases "F m []") auto
      ultimately show ?thesis unfolding out unfolding rs using m by (intro exI [of _ n]) simp
    next
      case False
      have "versions k g = []" "versions k (F n g) = []"
        using split(2) keys False by (auto simp: versions_def filter_empty_conv)
      with m show ?thesis unfolding out unfolding rs by (intro exI [of _ m]) simp
    qed
  qed
qed

lemma versions_expire: "versions k (expire_rows start rs) = expire_rows start (versions k rs)"
  by (induction rs) (auto simp: versions_def expire_entry_frame split: option.split)

text \<open>
  C8: retention loses nothing that a reader may still see. Over any iterator that returns rows in
  order with at most one row for a key and sequence number, the retention iterator returns
  rows from which every snapshot at or above the minimum sequence number to retain (every
  snapshot above all versions, when there is none), reads for each key the value it would read from all the
  rows, expired values counting as deleted and expired merge operands as absent. This holds with
  any older rows below, as in a flush, or with none where tombstones are dropped, as in the
  compaction of the last run.
\<close>

theorem retention_keeps_snapshots:
  assumes "row_iterator I rows nxt" "I s" "sorted_wrt (row_le ord') (rows s)" "distinct_rows (rows s)"
  shows "\<exists>out. yields (retention_next te clock nxt)
        (retention_iterator_new s retention_timeout retention_min_seq filter_tombstone start tracker) out
    \<and> (\<forall>k n older g. (case retention_min_seq of Some m \<Rightarrow> m \<le> n | None \<Rightarrow> \<forall>r\<in>set (versions k (rows s)). re_seq r \<le> n)
         \<and> (filter_tombstone \<longrightarrow> older = []) \<longrightarrow>
         resolve g (filter (\<lambda>r. re_seq r \<le> n) (versions k out) @ older)
           = resolve g (filter (\<lambda>r. re_seq r \<le> n) (versions k (expire_rows start (rows s))) @ older))"
proof -
  let ?it = "retention_iterator_new s retention_timeout retention_min_seq filter_tombstone start tracker"
  let ?out = "retention_rows te clock rows ?it" and ?F = "retention_filter te clock ?it"
  have g: "grouped ord' (rows s)" using assms(3,4) by (simp add: grouped_def)
  have "retention_ok I rows ord' ?it"
    using assms(2) g by (simp add: retention_ok_def retention_iterator_new_def retention_buffer_new_def upstream_def)
  from row_iterator.yields_rows [OF retention_row_iterator [OF assms(1)] this]
  have "yields (retention_next te clock nxt) ?it ?out" .
  moreover have "resolve g' (filter (\<lambda>r. re_seq r \<le> n) (versions k ?out) @ older)
      = resolve g' (filter (\<lambda>r. re_seq r \<le> n) (versions k (expire_rows start (rows s))) @ older)"
    if n: "case retention_min_seq of Some m \<Rightarrow> m \<le> n | None \<Rightarrow> \<forall>r\<in>set (versions k (rows s)). re_seq r \<le> n"
      and older: "filter_tombstone \<longrightarrow> older = []" for k n older g'
  proof -
    have "?out = retained ?F 0 (rows s)"
      by (simp add: retention_rows_def retention_iterator_new_def retention_buffer_new_def upstream_def)
    with retained_versions [OF g, of ?F k 0] retention_filter_keys obtain m where m: "versions k ?out = ?F m (versions k (rows s))" by metis
    have "newest_first (versions k (rows s))"
      using g by (intro grouped_versions [of ord' _ k])
        (auto simp: grouped_def versions_def sorted_wrt_filter distinct_map_filter)
    from filter_resolves [OF this older n] show ?thesis
      unfolding m versions_expire by (simp add: retention_filter_def retention_iterator_new_def)
  qed
  ultimately show ?thesis by blast
qed

definition versioned_table :: "(sequenced_key \<times> row_entry) list kv_table" where
  "versioned_table =
     kv_table_put btree (sample_row [1] Tombstone 5) (kv_table_put btree (sample_row [1] (Value [7]) 3)
       (kv_table_put btree (sample_row [1] (Value [6]) 2) (kv_table_new btree)))"

definition sample_time :: "i64 time_env" where
  "sample_time = \<lparr>te_binary_search = (\<lambda>_ _. Inl 0), te_from_timestamp = Some, te_timestamp_millis = id\<rparr>"

lemma versioned_table_rows:
  "mti_rows (kv_table_iter btree versioned_table) = [sample_row [1] Tombstone 5, sample_row [1] (Value [7]) 3, sample_row [1] (Value [6]) 2]"
  by code_simp

lemma versioned_table_iter: "mem_iter_ok btree strict_keys (kv_table_iter btree versioned_table)"
proof -
  have "memtable_built btree id versioned_table" unfolding versioned_table_def by (intro memtable_built.intros)
  from skm.built_ok [OF this] show ?thesis by (simp add: kv_table_iter_def skm.kv_table_range_props memtable_ok_def)
qed

text \<open>
  Witness of C8: of three versions of a key, the oldest is dropped, and a snapshot taken at 4, before
  the key was deleted, still reads the second.
\<close>

theorem retention_keeps_snapshots_witness:
  "\<exists>out. yields (retention_next sample_time (\<lambda>_. 0) mem_table_next)
       (retention_iterator_new (kv_table_iter btree versioned_table) None (Some 4) False 0 sequence_tracker_new) out
     \<and> resolve (@) (filter (\<lambda>r. re_seq r \<le> 4) (versions [1] out)) = Some [7]"
proof -
  let ?it = "kv_table_iter btree versioned_table"
  have "resolve (@) (filter (\<lambda>r. re_seq r \<le> 4) (versions [1] (expire_rows 0 (mti_rows ?it)))) = Some [7]"
    unfolding versioned_table_rows by code_simp
  moreover have "sorted_wrt (row_le Ascending) (mti_rows ?it)" "distinct_rows (mti_rows ?it)"
    unfolding versioned_table_rows by (simp_all add: sample_row_def row_le_def row_id_def)
  from retention_keeps_snapshots [OF skm.mti.row_iterator_axioms versioned_table_iter this,
      of sample_time "\<lambda>_. 0" None "Some 4" False 0 sequence_tracker_new]
  obtain out where out: "yields (retention_next sample_time (\<lambda>_. 0) mem_table_next)
      (retention_iterator_new ?it None (Some 4) False 0 sequence_tracker_new) out"
    "\<And>k n older g. 4 \<le> n \<Longrightarrow> resolve g (filter (\<lambda>r. re_seq r \<le> n) (versions k out) @ older)
      = resolve g (filter (\<lambda>r. re_seq r \<le> n) (versions k (expire_rows 0 (mti_rows ?it))) @ older)"
    by auto
  ultimately show ?thesis using out(2) [of 4 "(@)" "[1]" "[]"] by (intro exI [of _ out]) simp
qed

end
