(* ===== verification/Transactions.thy ===== *)
theory Transactions
  imports Visible "HOL-Library.AList"
begin

section \<open>Sequence numbers, snapshots and transactions: \<open>oracle.rs\<close>, \<open>snapshot_manager.rs\<close>, \<open>transaction_manager.rs\<close>\<close>

text \<open>
  The oracle hands out sequence numbers; a transaction starts at the last committed one; the
  transaction manager decides whether it conflicts with what was committed since, from a queue of
  recent commits that it shortens whenever it can. The atomic counters of the oracle and the locked
  maps of the managers are explicit states; every operation below runs under one lock of the code,
  and so is one step. The identifiers, which the code draws at random, are arguments.
\<close>

subsection \<open>The oracle\<close>

type_synonym uuid = "128 word"

text \<open>The last field is the durable sequence number that the status manager publishes.\<close>

record db_oracle =
  or_last_seq :: u64
  or_last_committed_seq :: u64
  or_last_durable_seq :: u64
  or_reported_durable_seq :: u64

definition next_seq :: "db_oracle \<Rightarrow> u64 \<times> db_oracle" where
  "next_seq orc = (or_last_seq orc + 1, orc\<lparr>or_last_seq := or_last_seq orc + 1\<rparr>)"

definition advance_last_seq :: "u64 \<Rightarrow> db_oracle \<Rightarrow> db_oracle" where
  "advance_last_seq seq orc = orc\<lparr>or_last_seq := max (or_last_seq orc) seq\<rparr>"

definition advance_committed_seq :: "u64 \<Rightarrow> db_oracle \<Rightarrow> db_oracle" where
  "advance_committed_seq seq orc = orc\<lparr>or_last_committed_seq := max (or_last_committed_seq orc) seq\<rparr>"

definition report_durable_seq :: "u64 \<Rightarrow> db_oracle \<Rightarrow> db_oracle" where
  "report_durable_seq seq orc =
     (if seq > or_reported_durable_seq orc then orc\<lparr>or_reported_durable_seq := seq\<rparr> else orc)"

definition advance_durable_seq :: "u64 \<Rightarrow> db_oracle \<Rightarrow> db_oracle" where
  "advance_durable_seq seq orc =
     report_durable_seq seq (orc\<lparr>or_last_durable_seq := max (or_last_durable_seq orc) seq\<rparr>)"

subsection \<open>Snapshots\<close>

type_synonym snapshot_manager = "(uuid \<times> u64) list"

definition new_snapshot :: "uuid \<Rightarrow> u64 option \<Rightarrow> db_oracle \<Rightarrow> snapshot_manager \<Rightarrow> (uuid \<times> u64) \<times> snapshot_manager" where
  "new_snapshot snapshot_id seq orc sm =
     (let seq = (case seq of Some seq \<Rightarrow> seq | None \<Rightarrow> or_last_committed_seq orc)
      in ((snapshot_id, seq), AList.update snapshot_id seq sm))"

definition drop_snapshot :: "uuid \<Rightarrow> snapshot_manager \<Rightarrow> snapshot_manager result" where
  "drop_snapshot snapshot_id sm =
     assert_or (map_of sm snapshot_id \<noteq> None) ''drop_snapshot called on snapshot_id that is not tracked''
       (Inr (AList.delete snapshot_id sm))"

definition min_active_snapshot_seq :: "snapshot_manager \<Rightarrow> u64 option" where
  "min_active_snapshot_seq sm = (if sm = [] then None else Some (Min (set (map snd sm))))"

subsection \<open>Transactions\<close>

datatype isolation_level = Snapshot | SerializableSnapshot

record transaction_state =
  ts_started_seq :: u64
  ts_committed_seq :: "u64 option"
  ts_write_keys :: "bytes set"
  ts_read_keys :: "bytes set"
  ts_read_ranges :: "bytes_range list"

definition state_track_write_keys :: "bytes set \<Rightarrow> transaction_state \<Rightarrow> transaction_state" where
  "state_track_write_keys keys st = st\<lparr>ts_write_keys := ts_write_keys st \<union> keys\<rparr>"

definition state_track_read_keys :: "bytes set \<Rightarrow> transaction_state \<Rightarrow> transaction_state" where
  "state_track_read_keys keys st = st\<lparr>ts_read_keys := ts_read_keys st \<union> keys\<rparr>"

definition state_track_read_range :: "bytes_range \<Rightarrow> transaction_state \<Rightarrow> transaction_state" where
  "state_track_read_range range' st = st\<lparr>ts_read_ranges := ts_read_ranges st @ [range']\<rparr>"

definition mark_as_committed :: "u64 \<Rightarrow> transaction_state \<Rightarrow> transaction_state" where
  "mark_as_committed seq st = st\<lparr>ts_committed_seq := Some seq, ts_read_keys := {}, ts_read_ranges := []\<rparr>"

record transaction_manager =
  tm_active_txns :: "(uuid \<times> transaction_state) list"
  tm_recent_committed_txns :: "transaction_state list"

definition transaction_manager_new :: transaction_manager where
  "transaction_manager_new = \<lparr>tm_active_txns = [], tm_recent_committed_txns = []\<rparr>"

definition new_transaction :: "uuid \<Rightarrow> db_oracle \<Rightarrow> transaction_manager \<Rightarrow> (uuid \<times> u64) \<times> transaction_manager" where
  "new_transaction txn_id orc tm =
     (let seq = or_last_committed_seq orc
      in ((txn_id, seq),
          tm\<lparr>tm_active_txns := AList.update txn_id
               \<lparr>ts_started_seq = seq, ts_committed_seq = None, ts_write_keys = {}, ts_read_keys = {}, ts_read_ranges = []\<rparr>
               (tm_active_txns tm)\<rparr>))"

definition min_conflict_check_seq :: "transaction_manager \<Rightarrow> u64 option" where
  "min_conflict_check_seq tm =
     (if tm_active_txns tm = [] then None else Some (Min (set (map (ts_started_seq \<circ> snd) (tm_active_txns tm)))))"

definition min_active_seq :: "transaction_manager \<Rightarrow> u64 option" where
  "min_active_seq tm =
     (if tm_active_txns tm = [] then None else Some (Min (set (map (ts_started_seq \<circ> snd) (tm_active_txns tm)))))"

definition recycle_recent_committed_txns :: "transaction_manager \<Rightarrow> transaction_manager" where
  "recycle_recent_committed_txns tm =
     (case min_conflict_check_seq tm of
        Some min_seq \<Rightarrow>
          tm\<lparr>tm_recent_committed_txns :=
               filter (\<lambda>txn. case ts_committed_seq txn of Some committed_seq \<Rightarrow> committed_seq \<ge> min_seq | None \<Rightarrow> True)
                 (tm_recent_committed_txns tm)\<rparr>
      | None \<Rightarrow> tm\<lparr>tm_recent_committed_txns := []\<rparr>)"

definition drop_txn :: "uuid \<Rightarrow> transaction_manager \<Rightarrow> transaction_manager" where
  "drop_txn txn_id tm =
     recycle_recent_committed_txns (tm\<lparr>tm_active_txns := AList.delete txn_id (tm_active_txns tm)\<rparr>)"

definition update_txn :: "uuid \<Rightarrow> (transaction_state \<Rightarrow> transaction_state) \<Rightarrow> transaction_manager \<Rightarrow> transaction_manager" where
  "update_txn txn_id f tm =
     (case map_of (tm_active_txns tm) txn_id of
        Some st \<Rightarrow> tm\<lparr>tm_active_txns := AList.update txn_id (f st) (tm_active_txns tm)\<rparr>
      | None \<Rightarrow> tm)"

definition track_write_keys :: "uuid \<Rightarrow> bytes set \<Rightarrow> transaction_manager \<Rightarrow> transaction_manager" where
  "track_write_keys txn_id write_keys = update_txn txn_id (state_track_write_keys write_keys)"

definition track_read_keys :: "uuid \<Rightarrow> bytes set \<Rightarrow> transaction_manager \<Rightarrow> transaction_manager" where
  "track_read_keys txn_id read_keys = update_txn txn_id (state_track_read_keys read_keys)"

definition track_read_range :: "uuid \<Rightarrow> bytes_range \<Rightarrow> transaction_manager \<Rightarrow> transaction_manager" where
  "track_read_range txn_id range' = update_txn txn_id (state_track_read_range range')"

fun write_write_loop :: "bytes set \<Rightarrow> u64 \<Rightarrow> transaction_state list \<Rightarrow> bool result" where
  "write_write_loop write_keys started_seq [] = Inr False"
| "write_write_loop write_keys started_seq (committed_txn # txns) =
     (case ts_committed_seq committed_txn of
        None \<Rightarrow> Inl (Panic ''all txns in recent_committed_txns should be committed with committed_seq set'')
      | Some other_committed_seq \<Rightarrow>
          if other_committed_seq > started_seq \<and> write_keys \<inter> ts_write_keys committed_txn \<noteq> {} then Inr True
          else write_write_loop write_keys started_seq txns)"

definition has_write_write_conflict :: "transaction_manager \<Rightarrow> bytes set \<Rightarrow> u64 \<Rightarrow> bool result" where
  "has_write_write_conflict tm write_keys started_seq =
     (if write_keys = {} then Inr False
      else write_write_loop write_keys started_seq (tm_recent_committed_txns tm))"

fun read_write_loop :: "bytes set \<Rightarrow> bytes_range list \<Rightarrow> u64 \<Rightarrow> transaction_state list \<Rightarrow> bool result" where
  "read_write_loop read_keys read_ranges started_seq [] = Inr False"
| "read_write_loop read_keys read_ranges started_seq (committed_txn # txns) =
     (case ts_committed_seq committed_txn of
        None \<Rightarrow> Inl (Panic ''all txns in recent_committed_txns should be committed with committed_seq set'')
      | Some other_committed_seq \<Rightarrow>
          if other_committed_seq > started_seq \<and>
             (read_keys \<inter> ts_write_keys committed_txn \<noteq> {}
              \<or> list_ex (\<lambda>read_range. \<exists>write_key\<in>ts_write_keys committed_txn. contains read_range write_key) read_ranges)
          then Inr True
          else read_write_loop read_keys read_ranges started_seq txns)"

definition has_read_write_conflict ::
    "transaction_manager \<Rightarrow> bytes set \<Rightarrow> bytes_range list \<Rightarrow> u64 \<Rightarrow> bool result" where
  "has_read_write_conflict tm read_keys read_ranges started_seq =
     (if read_keys = {} \<and> read_ranges = [] then Inr False
      else read_write_loop read_keys read_ranges started_seq (tm_recent_committed_txns tm))"

definition check_has_conflict :: "uuid \<Rightarrow> transaction_manager \<Rightarrow> bool result" where
  "check_has_conflict txn_id tm =
     (case map_of (tm_active_txns tm) txn_id of
        None \<Rightarrow> Inr False
      | Some st \<Rightarrow>
          bind_result (has_write_write_conflict tm (ts_write_keys st) (ts_started_seq st)) (\<lambda>ww_conflict.
          if ww_conflict then Inr True
          else has_read_write_conflict tm (ts_read_keys st) (ts_read_ranges st) (ts_started_seq st)))"

definition track_recent_committed_state :: "transaction_state \<Rightarrow> transaction_manager \<Rightarrow> transaction_manager" where
  "track_recent_committed_state st tm =
     (let tm = tm\<lparr>tm_recent_committed_txns := tm_recent_committed_txns tm @ [st]\<rparr>
      in if min_conflict_check_seq tm = None then tm\<lparr>tm_recent_committed_txns := []\<rparr> else tm)"

definition track_recent_committed_txn ::
    "uuid \<Rightarrow> u64 \<Rightarrow> transaction_manager \<times> db_oracle \<Rightarrow> transaction_manager \<times> db_oracle" where
  "track_recent_committed_txn txn_id committed_seq = (\<lambda>(tm, orc).
     ((case map_of (tm_active_txns tm) txn_id of
         Some st \<Rightarrow> track_recent_committed_state (mark_as_committed committed_seq st)
                     (tm\<lparr>tm_active_txns := AList.delete txn_id (tm_active_txns tm)\<rparr>)
       | None \<Rightarrow> tm),
      advance_committed_seq committed_seq orc))"

definition track_recent_committed_write_batch ::
    "bytes set \<Rightarrow> u64 \<Rightarrow> transaction_manager \<times> db_oracle \<Rightarrow> transaction_manager \<times> db_oracle" where
  "track_recent_committed_write_batch keys committed_seq = (\<lambda>(tm, orc).
     (track_recent_committed_state
        \<lparr>ts_started_seq = committed_seq, ts_committed_seq = Some committed_seq, ts_write_keys = keys,
         ts_read_keys = {}, ts_read_ranges = []\<rparr> tm,
      advance_committed_seq committed_seq orc))"

subsection \<open>What the queue of recent commits remembers\<close>

text \<open>
  The log of all commits, each with its sequence number and the keys it wrote, is what the queue
  stands for. A transaction conflicts with the log when something in it was committed after the
  transaction started and touches a key that the transaction wrote or read, or a range it read.
\<close>

type_synonym commit_log = "(u64 \<times> bytes set) set"

definition touches :: "transaction_state \<Rightarrow> bytes set \<Rightarrow> bool" where
  "touches st ks \<longleftrightarrow>
     ts_write_keys st \<inter> ks \<noteq> {} \<or> ts_read_keys st \<inter> ks \<noteq> {}
     \<or> (\<exists>r\<in>set (ts_read_ranges st). \<exists>k\<in>ks. contains r k)"

definition conflicts_with :: "commit_log \<Rightarrow> transaction_state \<Rightarrow> bool" where
  "conflicts_with log st \<longleftrightarrow> (\<exists>(c, ks)\<in>log. ts_started_seq st < c \<and> touches st ks)"

text \<open>
  The invariant of the manager: every queued commit is in the log, and every logged commit after the
  start of an active transaction is queued.
\<close>

definition remembers :: "transaction_state list \<Rightarrow> u64 \<times> bytes set \<Rightarrow> bool" where
  "remembers recent entry \<longleftrightarrow> (\<exists>st\<in>set recent. ts_committed_seq st = Some (fst entry) \<and> ts_write_keys st = snd entry)"

definition active_state :: "transaction_manager \<Rightarrow> transaction_state \<Rightarrow> bool" where
  "active_state tm st \<longleftrightarrow> st \<in> snd ` set (tm_active_txns tm)"

definition txn_ok :: "commit_log \<Rightarrow> transaction_manager \<Rightarrow> db_oracle \<Rightarrow> bool" where
  "txn_ok log tm orc \<longleftrightarrow>
     distinct (map fst (tm_active_txns tm))
     \<and> (\<forall>st. active_state tm st \<longrightarrow> ts_started_seq st \<le> or_last_committed_seq orc)
     \<and> (\<forall>st\<in>set (tm_recent_committed_txns tm). \<exists>c. ts_committed_seq st = Some c \<and> (c, ts_write_keys st) \<in> log)
     \<and> (\<forall>e\<in>log. fst e \<le> or_last_committed_seq orc)
     \<and> (\<forall>st. active_state tm st \<longrightarrow> (\<forall>e\<in>log. ts_started_seq st < fst e \<longrightarrow> remembers (tm_recent_committed_txns tm) e))"

lemma txn_okD:
  assumes "txn_ok log tm orc"
  shows "distinct (map fst (tm_active_txns tm))"
    and "active_state tm st \<Longrightarrow> ts_started_seq st \<le> or_last_committed_seq orc"
    and "st \<in> set (tm_recent_committed_txns tm) \<Longrightarrow> \<exists>c. ts_committed_seq st = Some c \<and> (c, ts_write_keys st) \<in> log"
    and "e \<in> log \<Longrightarrow> fst e \<le> or_last_committed_seq orc"
    and "active_state tm st \<Longrightarrow> e \<in> log \<Longrightarrow> ts_started_seq st < fst e \<Longrightarrow> remembers (tm_recent_committed_txns tm) e"
  using assms unfolding txn_ok_def by blast+

lemma active_update:
  "active_state (tm\<lparr>tm_active_txns := AList.update i x (tm_active_txns tm)\<rparr>) st \<Longrightarrow> st = x \<or> active_state tm st"
proof -
  have "set (AList.update i x xs) \<subseteq> insert (i, x) (set xs)" for xs by (induction xs) auto
  then have "snd ` set (AList.update i x (tm_active_txns tm)) \<subseteq> insert x (snd ` set (tm_active_txns tm))" by fastforce
  then show "active_state (tm\<lparr>tm_active_txns := AList.update i x (tm_active_txns tm)\<rparr>) st \<Longrightarrow> st = x \<or> active_state tm st"
    by (auto simp: active_state_def)
qed

lemma map_of_active: "map_of (tm_active_txns tm) i = Some st \<Longrightarrow> active_state tm st"
  by (auto simp: active_state_def dest!: map_of_SomeD intro: rev_image_eqI)

lemma active_delete:
  "active_state (tm\<lparr>tm_active_txns := AList.delete i (tm_active_txns tm)\<rparr>) st \<Longrightarrow> active_state tm st"
  by (auto simp: active_state_def AList.delete_eq)

lemma txn_ok_new: "txn_ok {} transaction_manager_new orc"
  by (simp add: txn_ok_def transaction_manager_new_def active_state_def)

text \<open>Changing what an active transaction tracks keeps the invariant.\<close>

lemma txn_ok_update:
  assumes "txn_ok log tm orc" "\<And>st. ts_started_seq (f st) = ts_started_seq st"
  shows "txn_ok log (update_txn i f tm) orc"
proof (cases "map_of (tm_active_txns tm) i")
  case None
  then show ?thesis using assms(1) by (simp add: update_txn_def)
next
  case (Some x)
  let ?tm = "tm\<lparr>tm_active_txns := AList.update i (f x) (tm_active_txns tm)\<rparr>"
  have same: "\<exists>st'. active_state tm st' \<and> ts_started_seq st' = ts_started_seq st" if "active_state ?tm st" for st
    using active_update [OF that] map_of_active [OF Some] assms(2) by metis
  have "distinct (map fst (AList.update i (f x) (tm_active_txns tm)))"
    using txn_okD(1) [OF assms(1)] by (rule distinct_update)
  moreover have "ts_started_seq st \<le> or_last_committed_seq orc" if "active_state ?tm st" for st
    using same [OF that] txn_okD(2) [OF assms(1)] by metis
  moreover have "remembers (tm_recent_committed_txns tm) e"
    if "active_state ?tm st" "e \<in> log" "ts_started_seq st < fst e" for st e
    using same [OF that(1)] txn_okD(5) [OF assms(1) _ that(2)] that(3) by metis
  ultimately show ?thesis
    using txn_okD(3,4) [OF assms(1)] unfolding txn_ok_def update_txn_def Some option.case by simp
qed

lemma txn_ok_track:
  assumes "txn_ok log tm orc"
  shows "txn_ok log (track_write_keys i ks tm) orc" "txn_ok log (track_read_keys i ks tm) orc"
    "txn_ok log (track_read_range i r tm) orc"
  unfolding track_write_keys_def track_read_keys_def track_read_range_def
  by (rule txn_ok_update [OF assms],
      simp add: state_track_write_keys_def state_track_read_keys_def state_track_read_range_def)+

lemma txn_ok_begin:
  assumes "txn_ok log tm orc"
  shows "txn_ok log (snd (new_transaction i orc tm)) orc"
proof -
  let ?x = "\<lparr>ts_started_seq = or_last_committed_seq orc, ts_committed_seq = None, ts_write_keys = {}, ts_read_keys = {}, ts_read_ranges = []\<rparr>"
  let ?tm = "tm\<lparr>tm_active_txns := AList.update i ?x (tm_active_txns tm)\<rparr>"
  have "distinct (map fst (AList.update i ?x (tm_active_txns tm)))"
    using txn_okD(1) [OF assms] by (rule distinct_update)
  moreover have "ts_started_seq st \<le> or_last_committed_seq orc" if "active_state ?tm st" for st
    using active_update [OF that] txn_okD(2) [OF assms] by auto
  moreover have "remembers (tm_recent_committed_txns tm) e"
    if "active_state ?tm st" "e \<in> log" "ts_started_seq st < fst e" for st e
    using active_update [OF that(1)]
  proof
    assume "st = ?x"
    with that(3) txn_okD(4) [OF assms that(2)] show ?thesis by simp
  next
    assume "active_state tm st"
    from txn_okD(5) [OF assms this that(2,3)] show ?thesis .
  qed
  ultimately show ?thesis
    using txn_okD(3,4) [OF assms] unfolding txn_ok_def new_transaction_def Let_def snd_conv by simp
qed

text \<open>Recycling forgets only what no active transaction can conflict with.\<close>

lemma min_conflict_le:
  "active_state tm st \<Longrightarrow> \<exists>m. min_conflict_check_seq tm = Some m \<and> m \<le> ts_started_seq st"
  by (auto simp: active_state_def min_conflict_check_seq_def image_image intro!: Min_le)

lemma txn_ok_recycle:
  assumes "txn_ok log tm orc"
  shows "txn_ok log (recycle_recent_committed_txns tm) orc"
proof (cases "min_conflict_check_seq tm")
  case None
  then have "tm_active_txns tm = []" by (simp add: min_conflict_check_seq_def split: if_splits)
  with None show ?thesis
    using txn_okD(4) [OF assms] by (simp add: txn_ok_def recycle_recent_committed_txns_def active_state_def)
next
  case (Some m)
  let ?keep = "filter (\<lambda>txn. case ts_committed_seq txn of Some c \<Rightarrow> m \<le> c | None \<Rightarrow> True) (tm_recent_committed_txns tm)"
  have "remembers ?keep e" if st: "active_state tm st" and e: "e \<in> log" "ts_started_seq st < fst e" for st e
  proof -
    from min_conflict_le [OF st] Some e(2) have "m \<le> fst e" by auto
    with txn_okD(5) [OF assms st e] show ?thesis by (auto simp: remembers_def)
  qed
  then show ?thesis
    using txn_okD(1-4) [OF assms] unfolding txn_ok_def recycle_recent_committed_txns_def Some option.case
    by (simp add: active_state_def)
qed

lemma txn_ok_delete:
  assumes "txn_ok log tm orc"
  shows "txn_ok log (tm\<lparr>tm_active_txns := AList.delete i (tm_active_txns tm)\<rparr>) orc"
proof -
  have "distinct (map fst (AList.delete i (tm_active_txns tm)))" using txn_okD(1) [OF assms] by (rule distinct_delete)
  then show ?thesis
    using txn_okD(2,5) [OF assms active_delete] txn_okD(3,4) [OF assms] unfolding txn_ok_def by simp
qed

lemma txn_ok_drop: "txn_ok log tm orc \<Longrightarrow> txn_ok log (drop_txn i tm) orc"
  unfolding drop_txn_def by (intro txn_ok_recycle txn_ok_delete)

text \<open>A commit is queued, unless no transaction is left that could conflict with it.\<close>

lemma txn_ok_commit:
  assumes "txn_ok log tm orc" "ts_committed_seq st = Some c"
  shows "txn_ok (insert (c, ts_write_keys st) log) (track_recent_committed_state st tm) (advance_committed_seq c orc)"
proof (cases "tm_active_txns tm = []")
  case True
  then show ?thesis
    using txn_okD(4) [OF assms(1)]
    by (auto simp: txn_ok_def track_recent_committed_state_def min_conflict_check_seq_def active_state_def
        advance_committed_seq_def Let_def le_max_iff_disj)
next
  case False
  have eq: "track_recent_committed_state st tm = tm\<lparr>tm_recent_committed_txns := tm_recent_committed_txns tm @ [st]\<rparr>"
    using False by (simp add: track_recent_committed_state_def min_conflict_check_seq_def)
  have "remembers (tm_recent_committed_txns tm @ [st]) e"
    if "active_state tm x" "e \<in> insert (c, ts_write_keys st) log" "ts_started_seq x < fst e" for x e
    using that(2) txn_okD(5) [OF assms(1) that(1) _ that(3)] assms(2) by (auto simp: remembers_def)
  moreover have "\<exists>d. ts_committed_seq x = Some d \<and> (d, ts_write_keys x) \<in> insert (c, ts_write_keys st) log"
    if "x \<in> set (tm_recent_committed_txns tm @ [st])" for x using that txn_okD(3) [OF assms(1)] assms(2) by auto
  ultimately show ?thesis
    using txn_okD(1,2,4) [OF assms(1)] unfolding txn_ok_def eq
    by (auto simp: active_state_def advance_committed_seq_def le_max_iff_disj)
qed

lemma txn_ok_commit_txn:
  assumes "txn_ok log tm orc" "map_of (tm_active_txns tm) i = Some st"
    and "track_recent_committed_txn i c (tm, orc) = (tm', orc')"
  shows "txn_ok (insert (c, ts_write_keys st) log) tm' orc'"
proof -
  have "txn_ok (insert (c, ts_write_keys (mark_as_committed c st)) log)
      (track_recent_committed_state (mark_as_committed c st) (tm\<lparr>tm_active_txns := AList.delete i (tm_active_txns tm)\<rparr>))
      (advance_committed_seq c orc)"
    by (rule txn_ok_commit [OF txn_ok_delete [OF assms(1)]]) (simp add: mark_as_committed_def)
  with assms(2,3) show ?thesis by (auto simp: track_recent_committed_txn_def mark_as_committed_def)
qed

lemma txn_ok_commit_batch:
  assumes "txn_ok log tm orc" "track_recent_committed_write_batch ks c (tm, orc) = (tm', orc')"
  shows "txn_ok (insert (c, ks) log) tm' orc'"
  using txn_ok_commit [OF assms(1), of "\<lparr>ts_started_seq = c, ts_committed_seq = Some c, ts_write_keys = ks,
      ts_read_keys = {}, ts_read_ranges = []\<rparr>" c] assms(2)
  by (auto simp: track_recent_committed_write_batch_def)

subsection \<open>Conflict detection is exact\<close>

lemma write_write_loop_eq:
  "\<forall>st\<in>set txns. ts_committed_seq st \<noteq> None \<Longrightarrow>
   write_write_loop ks s txns = Inr (\<exists>st\<in>set txns. s < the (ts_committed_seq st) \<and> ks \<inter> ts_write_keys st \<noteq> {})"
  by (induction txns) (auto split: option.splits)

lemma read_write_loop_eq:
  "\<forall>st\<in>set txns. ts_committed_seq st \<noteq> None \<Longrightarrow>
   read_write_loop ks rs s txns = Inr (\<exists>st\<in>set txns. s < the (ts_committed_seq st)
     \<and> (ks \<inter> ts_write_keys st \<noteq> {} \<or> (\<exists>r\<in>set rs. \<exists>k\<in>ts_write_keys st. contains r k)))"
  by (induction txns) (auto split: option.splits simp: list_ex_iff)

lemma check_has_conflict_queue:
  assumes "\<forall>x\<in>set (tm_recent_committed_txns tm). ts_committed_seq x \<noteq> None" "map_of (tm_active_txns tm) i = Some st"
  shows "check_has_conflict i tm =
    Inr (\<exists>x\<in>set (tm_recent_committed_txns tm). ts_started_seq st < the (ts_committed_seq x) \<and> touches st (ts_write_keys x))"
proof -
  have "has_write_write_conflict tm (ts_write_keys st) (ts_started_seq st)
      = Inr (\<exists>x\<in>set (tm_recent_committed_txns tm). ts_started_seq st < the (ts_committed_seq x)
          \<and> ts_write_keys st \<inter> ts_write_keys x \<noteq> {})"
    using write_write_loop_eq [OF assms(1)] by (auto simp: has_write_write_conflict_def)
  moreover have "has_read_write_conflict tm (ts_read_keys st) (ts_read_ranges st) (ts_started_seq st)
      = Inr (\<exists>x\<in>set (tm_recent_committed_txns tm). ts_started_seq st < the (ts_committed_seq x)
          \<and> (ts_read_keys st \<inter> ts_write_keys x \<noteq> {} \<or> (\<exists>r\<in>set (ts_read_ranges st). \<exists>k\<in>ts_write_keys x. contains r k)))"
    using read_write_loop_eq [OF assms(1)] by (auto simp: has_read_write_conflict_def)
  ultimately show ?thesis unfolding check_has_conflict_def assms(2) touches_def by auto
qed

lemma check_has_conflict_exact:
  assumes ok: "txn_ok log tm orc" and st: "map_of (tm_active_txns tm) i = Some st"
  shows "check_has_conflict i tm = Inr (conflicts_with log st)"
proof -
  have "(\<exists>x\<in>set (tm_recent_committed_txns tm). ts_started_seq st < the (ts_committed_seq x) \<and> touches st (ts_write_keys x))
      \<longleftrightarrow> conflicts_with log st"
  proof
    assume "\<exists>x\<in>set (tm_recent_committed_txns tm). ts_started_seq st < the (ts_committed_seq x) \<and> touches st (ts_write_keys x)"
    then obtain x where x: "x \<in> set (tm_recent_committed_txns tm)" "ts_started_seq st < the (ts_committed_seq x)"
      "touches st (ts_write_keys x)" by blast
    with txn_okD(3) [OF ok x(1)] show "conflicts_with log st" unfolding conflicts_with_def by force
  next
    assume "conflicts_with log st"
    then obtain e where e: "e \<in> log" "ts_started_seq st < fst e" "touches st (snd e)" by (auto simp: conflicts_with_def)
    from txn_okD(5) [OF ok map_of_active [OF st] e(1,2)] obtain x where
      "x \<in> set (tm_recent_committed_txns tm)" "ts_committed_seq x = Some (fst e)" "ts_write_keys x = snd e"
      unfolding remembers_def by blast
    with e show "\<exists>x\<in>set (tm_recent_committed_txns tm). ts_started_seq st < the (ts_committed_seq x) \<and> touches st (ts_write_keys x)"
      by (intro bexI [of _ x]) simp_all
  qed
  moreover have "\<forall>x\<in>set (tm_recent_committed_txns tm). ts_committed_seq x \<noteq> None" using txn_okD(3) [OF ok] by blast
  ultimately show ?thesis using check_has_conflict_queue [OF _ st] by simp
qed

subsection \<open>Every history of the manager\<close>

text \<open>
  The states of the manager under any interleaving of its operations, with the log of the commits.
  Nothing is assumed of the order of the sequence numbers of the commits.
\<close>

inductive txn_history :: "commit_log \<Rightarrow> transaction_manager \<Rightarrow> db_oracle \<Rightarrow> bool" where
  start: "txn_history {} transaction_manager_new orc"
| begin_txn: "txn_history log tm orc \<Longrightarrow> txn_history log (snd (new_transaction i orc tm)) orc"
| drop_txn: "txn_history log tm orc \<Longrightarrow> txn_history log (drop_txn i tm) orc"
| write_keys: "txn_history log tm orc \<Longrightarrow> txn_history log (track_write_keys i ks tm) orc"
| read_keys: "txn_history log tm orc \<Longrightarrow> txn_history log (track_read_keys i ks tm) orc"
| read_range: "txn_history log tm orc \<Longrightarrow> txn_history log (track_read_range i r tm) orc"
| commit_txn: "txn_history log tm orc \<Longrightarrow> map_of (tm_active_txns tm) i = Some st \<Longrightarrow>
    track_recent_committed_txn i c (tm, orc) = (tm', orc') \<Longrightarrow> txn_history (insert (c, ts_write_keys st) log) tm' orc'"
| commit_batch: "txn_history log tm orc \<Longrightarrow>
    track_recent_committed_write_batch ks c (tm, orc) = (tm', orc') \<Longrightarrow> txn_history (insert (c, ks) log) tm' orc'"

lemma txn_history_ok: "txn_history log tm orc \<Longrightarrow> txn_ok log tm orc"
  by (induction rule: txn_history.induct)
    (blast intro: txn_ok_new txn_ok_begin txn_ok_drop txn_ok_track txn_ok_commit_txn txn_ok_commit_batch)+

text \<open>
  C9: shortening the queue of recent commits is invisible. In every history of the manager, the
  conflict check of an active transaction does not panic and finds a conflict exactly when some
  commit of the whole log came after the start of the transaction and touches a key it wrote or read
  or a range it read.
\<close>

theorem conflict_check_exact:
  assumes "txn_history log tm orc" "map_of (tm_active_txns tm) i = Some st"
  shows "check_has_conflict i tm = Inr (conflicts_with log st)"
  by (rule check_has_conflict_exact [OF txn_history_ok [OF assms(1)] assms(2)])

text \<open>A transaction that scanned a range, and another that was dropped, around a commit in the range.\<close>

definition sample_txns :: "transaction_manager \<times> db_oracle" where
  "sample_txns =
     (let orc = \<lparr>or_last_seq = 5, or_last_committed_seq = 5, or_last_durable_seq = 0, or_reported_durable_seq = 0\<rparr>;
          tm = snd (new_transaction 1 orc transaction_manager_new);
          tm = track_read_range 1 \<lparr>cr_start = StartBound (Included [1]), cr_end = EndBound Unbounded\<rparr> tm;
          tm = snd (new_transaction 2 orc tm);
          (tm, orc) = track_recent_committed_write_batch {[7]} 6 (tm, orc)
      in (drop_txn 2 tm, orc))"

lemma sample_txns_history: "txn_history {(6, {[7]})} (fst sample_txns) (snd sample_txns)"
proof -
  define orc :: db_oracle where "orc = \<lparr>or_last_seq = 5, or_last_committed_seq = 5, or_last_durable_seq = 0, or_reported_durable_seq = 0\<rparr>"
  let ?r = "\<lparr>cr_start = StartBound (Included [1]), cr_end = EndBound (Unbounded :: bytes bound)\<rparr>"
  define tm where "tm = snd (new_transaction 2 orc (track_read_range 1 ?r (snd (new_transaction 1 orc transaction_manager_new))))"
  have "txn_history {} tm orc"
    unfolding tm_def by (intro txn_history.begin_txn txn_history.read_range txn_history.start)
  then have "txn_history {(6, {[7]})} tm' orc'" if "track_recent_committed_write_batch {[7]} 6 (tm, orc) = (tm', orc')" for tm' orc'
    using that by (rule txn_history.commit_batch)
  then show ?thesis
    unfolding sample_txns_def Let_def orc_def [symmetric] tm_def [symmetric]
    by (cases "track_recent_committed_write_batch {[7]} 6 (tm, orc)") (auto intro: txn_history.drop_txn)
qed

text \<open>Witness of C9: the transaction conflicts with the commit of a key in its range.\<close>

theorem conflict_check_exact_witness:
  "check_has_conflict 1 (fst sample_txns) = Inr True"
proof -
  let ?st = "\<lparr>ts_started_seq = 5, ts_committed_seq = None, ts_write_keys = {}, ts_read_keys = {},
    ts_read_ranges = [\<lparr>cr_start = StartBound (Included [1]), cr_end = EndBound Unbounded\<rparr>]\<rparr>"
  have "map_of (tm_active_txns (fst sample_txns)) 1 = Some ?st"
    by (simp add: sample_txns_def new_transaction_def track_read_range_def update_txn_def state_track_read_range_def
        transaction_manager_new_def track_recent_committed_write_batch_def track_recent_committed_state_def
        min_conflict_check_seq_def drop_txn_def recycle_recent_committed_txns_def Let_def)
  from conflict_check_exact [OF sample_txns_history this] show ?thesis
    by (simp add: conflicts_with_def touches_def contains_def)
qed

end
