(* ===== verification/WritePath.thy ===== *)
theory WritePath
  imports Transactions
begin

section \<open>The write path: \<open>batch_write.rs\<close>, \<open>db_state.rs\<close>, \<open>db_transaction.rs\<close>\<close>

text \<open>
  A write batch, of a transaction or on its own, goes to the writer task, which assigns its sequence
  number, checks the transaction for conflicts, writes the rows to the WAL and to the memtable,
  commits, and freezes the memtable once it is large enough. The handler \<open>db_write_batch\<close> is the
  composition of the parts between two acquisitions of a lock, in the order of the code. The
  WAL writer is an argument, as are the clock readings. Metrics, fail points and the wait for
  backpressure, which change none of this state, are left out.
\<close>

subsection \<open>The state of the database in memory\<close>

text \<open>Of the manifest, the write path reads the WAL position and the prefixes of the segments.\<close>

record 'm db_state =
  ds_memtable :: "'m kv_table"
  ds_imm_memtable :: "'m immutable_memtable list"
  ds_replay_after_wal_id :: u64
  ds_segments :: "bytes list"

definition freeze_memtable :: "'m skip_map \<Rightarrow> u64 \<Rightarrow> 'm db_state \<Rightarrow> 'm db_state" where
  "freeze_memtable om replay_after_wal_id s =
     s\<lparr>ds_memtable := kv_table_new om,
       ds_imm_memtable := immutable_memtable_new (ds_memtable s) replay_after_wal_id # ds_imm_memtable s\<rparr>"

definition freeze_current_memtable :: "'m skip_map \<Rightarrow> u64 \<Rightarrow> 'm db_state \<Rightarrow> 'm db_state" where
  "freeze_current_memtable om replay_after_wal_id s =
     (if kv_table_is_empty om (ds_memtable s) then s else freeze_memtable om replay_after_wal_id s)"

subsection \<open>Route consistency of segments\<close>

fun check_batch_antichain_loop :: "bytes option \<Rightarrow> bytes list \<Rightarrow> unit result" where
  "check_batch_antichain_loop prev [] = Inr ()"
| "check_batch_antichain_loop prev (cur # rest) =
     (if (case prev of Some p \<Rightarrow> prefix p cur | None \<Rightarrow> False) then Inl (InvalidSegmentPrefix cur (the prev))
      else check_batch_antichain_loop (Some cur) rest)"

definition check_batch_antichain :: "bytes set \<Rightarrow> unit result" where
  "check_batch_antichain pfxs = check_batch_antichain_loop None (sorted_list_of_set pfxs)"

fun segment_antichain_loop :: "'m kv_table \<Rightarrow> bytes list \<Rightarrow> bytes list \<Rightarrow> bytes list result" where
  "segment_antichain_loop t [] to_remove = Inr to_remove"
| "segment_antichain_loop t (c # cs) to_remove =
     bind_result (ensure_valid_segment c t) (\<lambda>valid.
       segment_antichain_loop t cs (if valid then to_remove @ [c] else to_remove))"

definition check_segment_prefix_antichain :: "bytes set \<Rightarrow> 'm kv_table \<Rightarrow> bytes set result" where
  "check_segment_prefix_antichain remaining t =
     bind_result (segment_antichain_loop t (sorted_list_of_set remaining) []) (\<lambda>to_remove.
       Inr (remaining - set to_remove))"

text \<open>The position the binary search of the standard library returns on a sorted list.\<close>

definition binary_search :: "bytes \<Rightarrow> bytes list \<Rightarrow> nat + nat" where
  "binary_search candidate segs =
     (let idx = length (takeWhile (\<lambda>s. s < candidate) segs)
      in if idx < length segs \<and> segs ! idx = candidate then Inr idx else Inl idx)"

definition core_check_segment_prefix_antichain :: "bytes list \<Rightarrow> bytes \<Rightarrow> unit result" where
  "core_check_segment_prefix_antichain segs candidate =
     (case binary_search candidate segs of
        Inr _ \<Rightarrow> Inr ()
      | Inl idx \<Rightarrow>
          if idx < length segs \<and> prefix candidate (segs ! idx) then Inl (InvalidSegmentPrefix candidate (segs ! idx))
          else if idx > 0 \<and> prefix (segs ! (idx - 1)) candidate then Inl (InvalidSegmentPrefix candidate (segs ! (idx - 1)))
          else Inr ())"

fun imm_antichain_loop :: "'m immutable_memtable list \<Rightarrow> bytes set \<Rightarrow> bytes set result" where
  "imm_antichain_loop [] remaining = Inr remaining"
| "imm_antichain_loop (imm # imms) remaining =
     bind_result (check_segment_prefix_antichain remaining (imm_table imm)) (\<lambda>remaining.
       if remaining = {} then Inr {} else imm_antichain_loop imms remaining)"

fun core_antichain_loop :: "bytes list \<Rightarrow> bytes list \<Rightarrow> unit result" where
  "core_antichain_loop segs [] = Inr ()"
| "core_antichain_loop segs (c # cs) =
     bind_result (core_check_segment_prefix_antichain segs c) (\<lambda>_. core_antichain_loop segs cs)"

definition validate_segment_antichain :: "bytes set \<Rightarrow> 'm db_state \<Rightarrow> unit result" where
  "validate_segment_antichain batch_prefixes s =
     (if batch_prefixes = {} then Inr ()
      else bind_result (check_batch_antichain batch_prefixes) (\<lambda>_.
           bind_result (check_segment_prefix_antichain batch_prefixes (ds_memtable s)) (\<lambda>remaining.
           if remaining = {} then Inr ()
           else bind_result (imm_antichain_loop (ds_imm_memtable s) remaining) (\<lambda>remaining.
                if remaining = {} then Inr ()
                else core_antichain_loop (ds_segments s) (sorted_list_of_set remaining)))))"

subsection \<open>The writer\<close>

record db_settings =
  se_default_ttl_millis :: "u64 option"
  se_memtable_prune_overwrites :: bool
  se_l0_sst_size_bytes :: nat
  se_merge_operator :: "merge_batch option"
  se_segment_extractor :: "(bytes \<Rightarrow> nat option) option"
  se_estimate_encoded_size :: "nat \<Rightarrow> nat \<Rightarrow> nat"

text \<open>The operations of the WAL writer and of the observer of its status.\<close>

record 'w wal_ops =
  wo_append :: "row_entry list \<Rightarrow> 'w \<Rightarrow> 'w result"
  wo_should_flush_memtable :: "u64 \<Rightarrow> 'w \<Rightarrow> bool"
  wo_flush :: "'w \<Rightarrow> (u64 \<times> 'w) result"
  wo_last_flushed_wal_id :: "'w \<Rightarrow> u64 result"

record write_options =
  wop_seqnum :: u64

record ('m, 'w) db_inner =
  dbi_state :: "'m db_state"
  dbi_oracle :: db_oracle
  dbi_txns :: transaction_manager
  dbi_wal :: "'w option"
  dbi_last_flushed_wal_id :: "u64 result"
  dbi_memtable_segments :: "bytes set"
  dbi_closed :: "unit result option"

definition check_closed :: "('m, 'w) db_inner \<Rightarrow> unit result" where
  "check_closed db =
     (case dbi_closed db of
        Some (Inr _) \<Rightarrow> Inl Closed
      | Some (Inl e) \<Rightarrow> Inl e
      | None \<Rightarrow> Inr ())"

text \<open>Without a WAL writer the status of the observer is the last one published.\<close>

definition last_flushed_wal_id :: "'w wal_ops \<Rightarrow> ('m, 'w) db_inner \<Rightarrow> u64 result" where
  "last_flushed_wal_id wal db =
     (case dbi_wal db of Some w \<Rightarrow> wo_last_flushed_wal_id wal w | None \<Rightarrow> dbi_last_flushed_wal_id db)"

definition assign_commit_seq :: "write_options \<Rightarrow> db_oracle \<Rightarrow> u64 result \<times> db_oracle" where
  "assign_commit_seq options orc =
     (if wop_seqnum options > 0
      then let current = or_last_seq orc
           in if wop_seqnum options \<le> current then (Inl (InvalidSequenceNumber (wop_seqnum options) current), orc)
              else (Inr (wop_seqnum options), advance_last_seq (wop_seqnum options) orc)
      else let (seq, orc) = next_seq orc in (Inr seq, orc))"

definition check_conflict :: "uuid option \<Rightarrow> transaction_manager \<Rightarrow> unit result" where
  "check_conflict txn tm =
     (case txn of
        Some txn_id \<Rightarrow>
          bind_result (check_has_conflict txn_id tm) (\<lambda>conflict.
            if conflict then Inl TransactionConflict else Inr ())
      | None \<Rightarrow> Inr ())"

definition stage_entries ::
    "db_settings \<Rightarrow> write_batch \<Rightarrow> u64 \<Rightarrow> i64 \<Rightarrow> 'm db_state \<Rightarrow> (row_entry list \<times> bytes set) result" where
  "stage_entries st batch commit_seq now s =
     bind_result (extract_entries batch commit_seq now (se_default_ttl_millis st) (se_merge_operator st) (se_segment_extractor st))
       (\<lambda>(entries, touched_segments, entries_size).
     bind_result (validate_segment_antichain touched_segments s) (\<lambda>_. Inr (entries, touched_segments)))"

definition write_entries_to_memtable ::
    "'m skip_map \<Rightarrow> db_settings \<Rightarrow> row_entry list \<Rightarrow> bytes set \<Rightarrow> ('m, 'w) db_inner \<Rightarrow> ('m, 'w) db_inner" where
  "write_entries_to_memtable om st entries touched_segments db =
     (let memtable = record_touched_segments touched_segments (ds_memtable (dbi_state db));
          memtable = fold (\<lambda>entry t. if se_memtable_prune_overwrites st then put_and_prune_overwritten om entry t
                                      else kv_table_put om entry t) entries memtable
      in db\<lparr>dbi_memtable_segments := dbi_memtable_segments db \<union> touched_segments,
            dbi_state := (dbi_state db)\<lparr>ds_memtable := memtable\<rparr>\<rparr>)"

definition apply_entries ::
    "'m skip_map \<Rightarrow> 'w wal_ops \<Rightarrow> db_settings \<Rightarrow> row_entry list \<Rightarrow> bytes set \<Rightarrow> ('m, 'w) db_inner
      \<Rightarrow> ('m, 'w) db_inner result" where
  "apply_entries om wal st entries touched_segments db =
     bind_result
       (case dbi_wal db of
          Some w \<Rightarrow> bind_result (wo_append wal entries w) (\<lambda>w. Inr (db\<lparr>dbi_wal := Some w\<rparr>))
        | None \<Rightarrow> Inr db)
       (\<lambda>db. Inr (write_entries_to_memtable om st entries touched_segments db))"

definition track_commit :: "uuid option \<Rightarrow> bytes set \<Rightarrow> u64 \<Rightarrow> ('m, 'w) db_inner \<Rightarrow> ('m, 'w) db_inner" where
  "track_commit txn write_keys commit_seq db =
     (let (tm, orc) =
            (case txn of
               Some txn_id \<Rightarrow> track_recent_committed_txn txn_id commit_seq (dbi_txns db, dbi_oracle db)
             | None \<Rightarrow> track_recent_committed_write_batch write_keys commit_seq (dbi_txns db, dbi_oracle db))
      in db\<lparr>dbi_txns := tm, dbi_oracle := orc\<rparr>)"

definition record_memtable_sequence ::
    "('d \<Rightarrow> i64) \<Rightarrow> 'd \<Rightarrow> u64 \<Rightarrow> ('m, 'w) db_inner \<Rightarrow> ('m, 'w) db_inner result" where
  "record_memtable_sequence timestamp ts seq db =
     bind_result (record_sequence timestamp seq ts (ds_memtable (dbi_state db))) (\<lambda>t.
       Inr (db\<lparr>dbi_state := (dbi_state db)\<lparr>ds_memtable := t\<rparr>\<rparr>))"

definition maybe_freeze_current_memtable ::
    "'m skip_map \<Rightarrow> 'w wal_ops \<Rightarrow> db_settings \<Rightarrow> ('m, 'w) db_inner \<Rightarrow> ('m, 'w) db_inner result" where
  "maybe_freeze_current_memtable om wal st db =
     (let s = dbi_state db;
          meta = kv_table_metadata_of om (ds_memtable s);
          last_freeze_wal_id = (case ds_imm_memtable s of imm # _ \<Rightarrow> imm_replay_after_wal_id imm
                                | [] \<Rightarrow> ds_replay_after_wal_id s);
          l0_sst_size_est = se_estimate_encoded_size st (md_entry_num meta) (unat (md_entries_size meta));
          wal_should_flush_memtable =
            (case dbi_wal db of Some w \<Rightarrow> wo_should_flush_memtable wal last_freeze_wal_id w | None \<Rightarrow> False)
      in if \<not> wal_should_flush_memtable \<and> l0_sst_size_est < se_l0_sst_size_bytes st then Inr db
         else bind_result (last_flushed_wal_id wal db) (\<lambda>replay_after_wal_id.
                Inr (db\<lparr>dbi_state := freeze_current_memtable om replay_after_wal_id s\<rparr>)))"

definition finish_write ::
    "'m skip_map \<Rightarrow> 'w wal_ops \<Rightarrow> db_settings \<Rightarrow> ('d \<Rightarrow> i64) \<Rightarrow> 'd \<Rightarrow> u64 \<Rightarrow> ('m, 'w) db_inner
      \<Rightarrow> unit result \<times> ('m, 'w) db_inner" where
  "finish_write om wal st timestamp ts commit_seq db =
     (case record_memtable_sequence timestamp ts commit_seq db of
        Inl e \<Rightarrow> (Inl e, db)
      | Inr db \<Rightarrow>
          (case maybe_freeze_current_memtable om wal st db of
             Inl e \<Rightarrow> (Inl e, db)
           | Inr db \<Rightarrow> (Inr (), db)))"

text \<open>
  The handler of a batch. The outer error ends the writer task, the inner one is the answer to the
  caller; a successful write answers with its sequence number and time.
\<close>

definition db_write_batch ::
    "'m skip_map \<Rightarrow> 'w wal_ops \<Rightarrow> db_settings \<Rightarrow> ('d \<Rightarrow> i64) \<Rightarrow> i64 result \<Rightarrow> 'd \<Rightarrow> write_batch \<Rightarrow> write_options
      \<Rightarrow> uuid option \<Rightarrow> ('m, 'w) db_inner \<Rightarrow> (u64 \<times> i64) result result \<times> ('m, 'w) db_inner" where
  "db_write_batch om wal st timestamp now ts batch options txn db =
     (case now of
        Inl e \<Rightarrow> (Inl e, db)
      | Inr now \<Rightarrow>
          let (commit_seq, orc) = assign_commit_seq options (dbi_oracle db);
              db = db\<lparr>dbi_oracle := orc\<rparr>
          in case commit_seq of
               Inl e \<Rightarrow> (Inr (Inl e), db)
             | Inr commit_seq \<Rightarrow>
                 (case check_conflict txn (dbi_txns db) of
                    Inl e \<Rightarrow> (Inr (Inl e), db)
                  | Inr _ \<Rightarrow>
                      (case stage_entries st batch commit_seq now (dbi_state db) of
                         Inl e \<Rightarrow> (Inr (Inl e), db)
                       | Inr (entries, touched_segments) \<Rightarrow>
                           (case apply_entries om wal st entries touched_segments db of
                              Inl e \<Rightarrow> (Inl e, db)
                            | Inr db \<Rightarrow>
                                let db = track_commit txn (batch_keys batch) commit_seq db;
                                    (r, db) = finish_write om wal st timestamp ts commit_seq db
                                in (case r of
                                      Inl e \<Rightarrow> (Inl e, db)
                                    | Inr _ \<Rightarrow> (Inr (Inr (commit_seq, now)), db))))))"

text \<open>A flush of the writer returns the sequence number and the WAL file of a checkpoint.\<close>

definition flush_batch_writer ::
    "'m skip_map \<Rightarrow> 'w wal_ops \<Rightarrow> bool \<Rightarrow> ('m, 'w) db_inner \<Rightarrow> (u64 \<times> u64 option) result \<times> ('m, 'w) db_inner" where
  "flush_batch_writer om wal freeze_memtable' db =
     (case (case dbi_wal db of
              Some w \<Rightarrow> bind_result (wo_flush wal w) (\<lambda>(wal_id, w). Inr (Some wal_id, db\<lparr>dbi_wal := Some w\<rparr>))
            | None \<Rightarrow> Inr (None, db)) of
        Inl e \<Rightarrow> (Inl e, db)
      | Inr (wal_file, db) \<Rightarrow>
          let cursor = (or_last_committed_seq (dbi_oracle db), wal_file)
          in if freeze_memtable'
             then (case last_flushed_wal_id wal db of
                     Inl e \<Rightarrow> (Inl e, db)
                   | Inr replay_after_wal_id \<Rightarrow>
                       (Inr cursor, db\<lparr>dbi_state := freeze_current_memtable om replay_after_wal_id (dbi_state db)\<rparr>))
             else (Inr cursor, db))"

end
