(* ===== verification/Isolation.thy ===== *)
theory Isolation
  imports WritePath
begin

section \<open>Isolation of concurrent transactions: \<open>db_transaction.rs\<close> over the writer\<close>

text \<open>
  Clients run transactions concurrently with the writer task. This theory has the operations of a
  transaction, the interleaving of all clients with the phases of the writer as a step relation, and
  what every interleaving guarantees.
\<close>

subsection \<open>The operations of a transaction\<close>

record db_transaction =
  dt_txn_id :: uuid
  dt_started_seq :: u64
  dt_write_batch :: write_batch
  dt_isolation_level :: isolation_level
  dt_range_trackers :: "bytes_range list"
  dt_untracked_write_keys :: "bytes set"

definition db_transaction_new ::
    "uuid \<Rightarrow> isolation_level \<Rightarrow> ('m, 'w) db_inner \<Rightarrow> db_transaction \<times> ('m, 'w) db_inner" where
  "db_transaction_new uuid isolation_level db =
     (let ((txn_id, seq), tm) = new_transaction uuid (dbi_oracle db) (dbi_txns db)
      in (\<lparr>dt_txn_id = txn_id, dt_started_seq = seq, dt_write_batch = write_batch_new,
           dt_isolation_level = isolation_level, dt_range_trackers = [], dt_untracked_write_keys = {}\<rparr>,
          db\<lparr>dbi_txns := tm\<rparr>))"

text \<open>What a lookup and a scan register before they read.\<close>

definition txn_track_get :: "bytes \<Rightarrow> db_transaction \<Rightarrow> ('m, 'w) db_inner \<Rightarrow> ('m, 'w) db_inner" where
  "txn_track_get key txn db =
     (if dt_isolation_level txn = SerializableSnapshot
      then db\<lparr>dbi_txns := track_read_keys (dt_txn_id txn) {key} (dbi_txns db)\<rparr> else db)"

definition txn_track_scan :: "bytes_range \<Rightarrow> db_transaction \<Rightarrow> db_transaction" where
  "txn_track_scan range' txn =
     (if dt_isolation_level txn = SerializableSnapshot
      then txn\<lparr>dt_range_trackers := dt_range_trackers txn @ [range']\<rparr> else txn)"

definition txn_mark_read :: "bytes set \<Rightarrow> db_transaction \<Rightarrow> ('m, 'w) db_inner \<Rightarrow> ('m, 'w) db_inner" where
  "txn_mark_read keys txn db = db\<lparr>dbi_txns := track_read_keys (dt_txn_id txn) keys (dbi_txns db)\<rparr>"

definition txn_unmark_write :: "bytes set \<Rightarrow> db_transaction \<Rightarrow> db_transaction" where
  "txn_unmark_write keys txn = txn\<lparr>dt_untracked_write_keys := dt_untracked_write_keys txn \<union> keys\<rparr>"

definition txn_put :: "bytes \<Rightarrow> bytes \<Rightarrow> put_options \<Rightarrow> db_transaction \<Rightarrow> db_transaction result" where
  "txn_put key v options txn =
     bind_result (put_bytes_with_options key v options (dt_write_batch txn)) (\<lambda>b. Inr (txn\<lparr>dt_write_batch := b\<rparr>))"

definition txn_merge ::
    "db_settings \<Rightarrow> bytes \<Rightarrow> bytes \<Rightarrow> merge_op_options \<Rightarrow> db_transaction \<Rightarrow> db_transaction result" where
  "txn_merge st key v options txn =
     (if se_merge_operator st = None then Inl MergeOperatorMissing
      else bind_result (merge_with_options key v options (dt_write_batch txn)) (\<lambda>b. Inr (txn\<lparr>dt_write_batch := b\<rparr>)))"

definition txn_delete :: "bytes \<Rightarrow> db_transaction \<Rightarrow> db_transaction result" where
  "txn_delete key txn = bind_result (batch_delete key (dt_write_batch txn)) (\<lambda>b. Inr (txn\<lparr>dt_write_batch := b\<rparr>))"

record write_batch_request =
  rq_batch :: write_batch
  rq_options :: write_options
  rq_txn :: "db_transaction option"

definition write_with_options ::
    "write_batch \<Rightarrow> write_options \<Rightarrow> db_transaction option \<Rightarrow> ('m, 'w) db_inner \<Rightarrow> write_batch_request result" where
  "write_with_options batch options txn db =
     bind_result (check_closed db) (\<lambda>_.
       if wb_ops batch = [] then Inl EmptyWriteBatch
       else Inr \<lparr>rq_batch = batch, rq_options = options, rq_txn = txn\<rparr>)"

text \<open>Committing answers with the request for the writer, or with none when there is nothing to write.\<close>

definition commit_with_options ::
    "db_transaction \<Rightarrow> write_options \<Rightarrow> ('m, 'w) db_inner \<Rightarrow> write_batch_request option result \<times> ('m, 'w) db_inner" where
  "commit_with_options txn options db =
     (let batch = dt_write_batch txn;
          tm = (if dt_isolation_level txn = SerializableSnapshot
                then fold (track_read_range (dt_txn_id txn)) (dt_range_trackers txn) (dbi_txns db)
                else dbi_txns db)
      in if batch_is_empty batch
         then (bind_result (check_has_conflict (dt_txn_id txn) tm) (\<lambda>conflict.
                 if conflict then Inl TransactionConflict else Inr None), db\<lparr>dbi_txns := tm\<rparr>)
         else let tracked_write_keys = batch_keys batch - dt_untracked_write_keys txn;
                  db = db\<lparr>dbi_txns := track_write_keys (dt_txn_id txn) tracked_write_keys tm\<rparr>
              in (bind_result (write_with_options batch options (Some txn) db) (\<lambda>rq. Inr (Some rq)), db))"

definition txn_drop :: "db_transaction option \<Rightarrow> ('m, 'w) db_inner \<Rightarrow> ('m, 'w) db_inner" where
  "txn_drop txn db =
     (case txn of Some txn \<Rightarrow> db\<lparr>dbi_txns := drop_txn (dt_txn_id txn) (dbi_txns db)\<rparr> | None \<Rightarrow> db)"

subsection \<open>Clients and the writer, interleaved\<close>

text \<open>
  The writer is between two acquisitions of a lock while it handles a request. A transaction is held
  by its client, by a request in the channel, or by the request the writer handles: ownership passes
  on, and the transaction is dropped with its last owner. Each step is what one client or the writer
  does between two of its waits, with two exceptions that are one step here: a commit that reaches the
  channel registers its reads and writes and is queued in one step, and one that does not (nothing to
  write, a conflict, a closed database, an error of the backpressure or of the channel) registers them
  and drops the transaction in one step. The log of commits and the keys that a
  transaction has read are recorded for the statements; no step depends on them.
\<close>

datatype writer =
    Idle
  | Assigned write_batch_request i64 u64
  | Checked write_batch_request i64 u64
  | Staged write_batch_request u64 "row_entry list" "bytes set"
  | Applied write_batch_request u64 "row_entry list"
  | Tracked write_batch_request u64
  | Stopped

record commit =
  co_seq :: u64
  co_keys :: "bytes set"
  co_rows :: "row_entry list"
  co_txn :: "(db_transaction \<times> transaction_state) option"
  co_reads :: "bytes set"

record ('m, 'w) system =
  sy_db :: "('m, 'w) db_inner"
  sy_open :: "db_transaction list"
  sy_queue :: "write_batch_request list"
  sy_writer :: writer
  sy_ids :: "uuid set"
  sy_reads :: "uuid \<Rightarrow> bytes set"
  sy_log :: "commit list"

definition replace_txn :: "db_transaction \<Rightarrow> db_transaction list \<Rightarrow> db_transaction list" where
  "replace_txn txn txns = map (\<lambda>t. if dt_txn_id t = dt_txn_id txn then txn else t) txns"

definition remove_txn :: "db_transaction \<Rightarrow> db_transaction list \<Rightarrow> db_transaction list" where
  "remove_txn txn txns = filter (\<lambda>t. dt_txn_id t \<noteq> dt_txn_id txn) txns"

definition commit_of :: "write_batch_request \<Rightarrow> u64 \<Rightarrow> row_entry list \<Rightarrow> ('m, 'w) system \<Rightarrow> commit" where
  "commit_of rq seq rows s =
     (case rq_txn rq of
        Some txn \<Rightarrow>
          let st = the (map_of (tm_active_txns (dbi_txns (sy_db s))) (dt_txn_id txn))
          in \<lparr>co_seq = seq, co_keys = ts_write_keys st, co_rows = rows, co_txn = Some (txn, st),
              co_reads = sy_reads s (dt_txn_id txn)\<rparr>
      | None \<Rightarrow> \<lparr>co_seq = seq, co_keys = batch_keys (rq_batch rq), co_rows = rows, co_txn = None, co_reads = {}\<rparr>)"

text \<open>The operations of a transaction that only change its own batch.\<close>

definition batch_edit :: "db_settings \<Rightarrow> db_transaction \<Rightarrow> db_transaction \<Rightarrow> bool" where
  "batch_edit st txn txn' \<longleftrightarrow>
     (\<exists>k v opts. txn_put k v opts txn = Inr txn') \<or> (\<exists>k v opts. txn_merge st k v opts txn = Inr txn')
     \<or> (\<exists>k. txn_delete k txn = Inr txn') \<or> (\<exists>ks. txn' = txn_unmark_write ks txn)"

inductive sys_step ::
    "'m skip_map \<Rightarrow> 'w wal_ops \<Rightarrow> db_settings \<Rightarrow> ('d \<Rightarrow> i64) \<Rightarrow> ('m, 'w) system \<Rightarrow> ('m, 'w) system \<Rightarrow> bool"
  for om wal st timestamp where
  begin_txn: "i \<notin> sy_ids s \<Longrightarrow> db_transaction_new i level (sy_db s) = (txn, db) \<Longrightarrow>
    sys_step om wal st timestamp s
      (s\<lparr>sy_db := db, sy_open := txn # sy_open s, sy_ids := insert i (sy_ids s), sy_reads := (sy_reads s)(i := {})\<rparr>)"
| edit: "txn \<in> set (sy_open s) \<Longrightarrow> batch_edit st txn txn' \<Longrightarrow>
    sys_step om wal st timestamp s (s\<lparr>sy_open := replace_txn txn' (sy_open s)\<rparr>)"
| read_key: "txn \<in> set (sy_open s) \<Longrightarrow>
    sys_step om wal st timestamp s
      (s\<lparr>sy_db := txn_track_get k txn (sy_db s),
         sy_reads := (sy_reads s)(dt_txn_id txn := insert k (sy_reads s (dt_txn_id txn)))\<rparr>)"
| read_range: "txn \<in> set (sy_open s) \<Longrightarrow>
    sys_step om wal st timestamp s
      (s\<lparr>sy_open := replace_txn (txn_track_scan r txn) (sy_open s),
         sy_reads := (sy_reads s)(dt_txn_id txn := {k. contains r k} \<union> sy_reads s (dt_txn_id txn))\<rparr>)"
| mark_read: "txn \<in> set (sy_open s) \<Longrightarrow>
    sys_step om wal st timestamp s (s\<lparr>sy_db := txn_mark_read ks txn (sy_db s)\<rparr>)"
| rollback: "txn \<in> set (sy_open s) \<Longrightarrow>
    sys_step om wal st timestamp s
      (s\<lparr>sy_open := remove_txn txn (sy_open s), sy_db := txn_drop (Some txn) (sy_db s)\<rparr>)"
| commit_done: "txn \<in> set (sy_open s) \<Longrightarrow> commit_with_options txn opts (sy_db s) = (r, db) \<Longrightarrow>
    sys_step om wal st timestamp s (s\<lparr>sy_open := remove_txn txn (sy_open s), sy_db := txn_drop (Some txn) db\<rparr>)"
| commit_send: "txn \<in> set (sy_open s) \<Longrightarrow> commit_with_options txn opts (sy_db s) = (Inr (Some rq), db) \<Longrightarrow>
    sys_step om wal st timestamp s
      (s\<lparr>sy_open := remove_txn txn (sy_open s), sy_db := db, sy_queue := sy_queue s @ [rq]\<rparr>)"
| write_send: "batch_ok b \<Longrightarrow> write_with_options b opts None (sy_db s) = Inr rq \<Longrightarrow>
    sys_step om wal st timestamp s (s\<lparr>sy_queue := sy_queue s @ [rq]\<rparr>)"
| assign: "sy_writer s = Idle \<Longrightarrow> sy_queue s = rq # q \<Longrightarrow> or_last_seq (dbi_oracle (sy_db s)) \<noteq> - 1 \<Longrightarrow>
    assign_commit_seq (rq_options rq) (dbi_oracle (sy_db s)) = (Inr seq, orc) \<Longrightarrow>
    sys_step om wal st timestamp s
      (s\<lparr>sy_queue := q, sy_db := (sy_db s)\<lparr>dbi_oracle := orc\<rparr>, sy_writer := Assigned rq now seq\<rparr>)"
| assign_error: "sy_writer s = Idle \<Longrightarrow> sy_queue s = rq # q \<Longrightarrow>
    assign_commit_seq (rq_options rq) (dbi_oracle (sy_db s)) = (Inl e, orc) \<Longrightarrow>
    sys_step om wal st timestamp s
      (s\<lparr>sy_queue := q, sy_db := txn_drop (rq_txn rq) ((sy_db s)\<lparr>dbi_oracle := orc\<rparr>)\<rparr>)"
| check: "sy_writer s = Assigned rq now seq \<Longrightarrow>
    check_conflict (map_option dt_txn_id (rq_txn rq)) (dbi_txns (sy_db s)) = Inr () \<Longrightarrow>
    sys_step om wal st timestamp s (s\<lparr>sy_writer := Checked rq now seq\<rparr>)"
| check_error: "sy_writer s = Assigned rq now seq \<Longrightarrow>
    check_conflict (map_option dt_txn_id (rq_txn rq)) (dbi_txns (sy_db s)) = Inl e \<Longrightarrow>
    sys_step om wal st timestamp s (s\<lparr>sy_writer := Idle, sy_db := txn_drop (rq_txn rq) (sy_db s)\<rparr>)"
| stage: "sy_writer s = Checked rq now seq \<Longrightarrow>
    stage_entries st (rq_batch rq) seq now (dbi_state (sy_db s)) = Inr (rows, segs) \<Longrightarrow>
    sys_step om wal st timestamp s (s\<lparr>sy_writer := Staged rq seq rows segs\<rparr>)"
| stage_error: "sy_writer s = Checked rq now seq \<Longrightarrow>
    stage_entries st (rq_batch rq) seq now (dbi_state (sy_db s)) = Inl e \<Longrightarrow>
    sys_step om wal st timestamp s (s\<lparr>sy_writer := Idle, sy_db := txn_drop (rq_txn rq) (sy_db s)\<rparr>)"
| apply_rows: "sy_writer s = Staged rq seq rows segs \<Longrightarrow> apply_entries om wal st rows segs (sy_db s) = Inr db \<Longrightarrow>
    sys_step om wal st timestamp s (s\<lparr>sy_writer := Applied rq seq rows, sy_db := db\<rparr>)"
| apply_error: "sy_writer s = Staged rq seq rows segs \<Longrightarrow> apply_entries om wal st rows segs (sy_db s) = Inl e \<Longrightarrow>
    sys_step om wal st timestamp s (s\<lparr>sy_writer := Stopped, sy_db := txn_drop (rq_txn rq) (sy_db s)\<rparr>)"
| track: "sy_writer s = Applied rq seq rows \<Longrightarrow>
    sys_step om wal st timestamp s
      (s\<lparr>sy_writer := Tracked rq seq,
         sy_db := track_commit (map_option dt_txn_id (rq_txn rq)) (batch_keys (rq_batch rq)) seq (sy_db s),
         sy_log := sy_log s @ [commit_of rq seq rows s]\<rparr>)"
| finish: "sy_writer s = Tracked rq seq \<Longrightarrow> finish_write om wal st timestamp ts seq (sy_db s) = (r, db) \<Longrightarrow>
    sys_step om wal st timestamp s
      (s\<lparr>sy_writer := (case r of Inr _ \<Rightarrow> Idle | Inl _ \<Rightarrow> Stopped), sy_db := txn_drop (rq_txn rq) db\<rparr>)"
| flush: "sy_writer s = Idle \<Longrightarrow> flush_batch_writer om wal freeze (sy_db s) = (r, db) \<Longrightarrow>
    sys_step om wal st timestamp s
      (s\<lparr>sy_writer := (case r of Inr _ \<Rightarrow> Idle | Inl _ \<Rightarrow> Stopped), sy_db := db\<rparr>)"
| cleanup: "sy_writer s = Stopped \<Longrightarrow> sy_queue s = rq # q \<Longrightarrow>
    sys_step om wal st timestamp s (s\<lparr>sy_queue := q, sy_db := txn_drop (rq_txn rq) (sy_db s)\<rparr>)"

subsection \<open>Sequence numbers\<close>

definition seq_ok :: "u64 \<Rightarrow> ('m, 'w) system \<Rightarrow> bool" where
  "seq_ok s0 s \<longleftrightarrow>
     s0 \<le> or_last_committed_seq (dbi_oracle (sy_db s))
     \<and> or_last_committed_seq (dbi_oracle (sy_db s)) \<le> or_last_seq (dbi_oracle (sy_db s))
     \<and> sorted_wrt (<) (map co_seq (sy_log s))
     \<and> (\<forall>c\<in>set (sy_log s). s0 < co_seq c \<and> co_seq c \<le> or_last_committed_seq (dbi_oracle (sy_db s)))
     \<and> (\<forall>seq. (case sy_writer s of Assigned _ _ n \<Rightarrow> seq = n | Checked _ _ n \<Rightarrow> seq = n | Staged _ n _ _ \<Rightarrow> seq = n
                | Applied _ n _ \<Rightarrow> seq = n | _ \<Rightarrow> False)
          \<longrightarrow> or_last_committed_seq (dbi_oracle (sy_db s)) < seq \<and> seq \<le> or_last_seq (dbi_oracle (sy_db s)))"

lemma assign_commit_seq_fresh:
  assumes "assign_commit_seq options orc = (Inr seq, orc')" "or_last_seq orc \<noteq> - 1"
  shows "or_last_seq orc < seq" "or_last_seq orc' = seq" "or_last_committed_seq orc' = or_last_committed_seq orc"
proof -
  have "or_last_seq orc < or_last_seq orc + 1"
    using assms(2) by (metis inc_less_eq_triv_imp not_less)
  then show "or_last_seq orc < seq" "or_last_seq orc' = seq" "or_last_committed_seq orc' = or_last_committed_seq orc"
    using assms(1) by (auto simp: assign_commit_seq_def next_seq_def advance_last_seq_def Let_def split: if_splits)
qed

lemma assign_commit_seq_error: "assign_commit_seq options orc = (Inl e, orc') \<Longrightarrow> orc' = orc"
  by (auto simp: assign_commit_seq_def next_seq_def Let_def split: if_splits)

text \<open>What the parts of the handler leave alone.\<close>

lemma txn_drop_frame [simp]:
  "dbi_oracle (txn_drop t db) = dbi_oracle db" "dbi_state (txn_drop t db) = dbi_state db"
  by (simp_all add: txn_drop_def split: option.splits)

lemma tracking_frame [simp]:
  "dbi_oracle (txn_track_get k t db) = dbi_oracle db" "dbi_state (txn_track_get k t db) = dbi_state db"
  "dbi_oracle (txn_mark_read ks t db) = dbi_oracle db" "dbi_state (txn_mark_read ks t db) = dbi_state db"
  by (simp_all add: txn_track_get_def txn_mark_read_def)

lemma begin_frame:
  assumes "db_transaction_new i level db = (t, db')"
  shows "dbi_oracle db' = dbi_oracle db" "dbi_state db' = dbi_state db"
    "dbi_txns db' = snd (new_transaction i (dbi_oracle db) (dbi_txns db))"
    "dt_txn_id t = i" "dt_started_seq t = or_last_committed_seq (dbi_oracle db)" "dt_write_batch t = write_batch_new"
    "dt_range_trackers t = []"
  using assms by (auto simp: db_transaction_new_def new_transaction_def Let_def)

lemma commit_frame:
  assumes "commit_with_options t opts db = (r, db')"
  shows "dbi_oracle db' = dbi_oracle db" "dbi_state db' = dbi_state db"
  using assms by (auto simp: commit_with_options_def Let_def split: if_splits)

lemma apply_frame:
  assumes "apply_entries om wal st rows segs db = Inr db'"
  shows "dbi_oracle db' = dbi_oracle db" "dbi_txns db' = dbi_txns db"
  using assms
  by (auto simp: apply_entries_def write_entries_to_memtable_def Let_def result_simps split: option.splits)

lemma finish_frame:
  assumes "finish_write om wal st timestamp ts seq db = (r, db')"
  shows "dbi_oracle db' = dbi_oracle db" "dbi_txns db' = dbi_txns db"
  using assms
  by (auto simp: finish_write_def record_memtable_sequence_def maybe_freeze_current_memtable_def Let_def result_simps
      split: sum.splits if_splits)

lemma flush_frame:
  assumes "flush_batch_writer om wal fr db = (r, db')"
  shows "dbi_oracle db' = dbi_oracle db" "dbi_txns db' = dbi_txns db"
  using assms
  by (auto simp: flush_batch_writer_def Let_def result_simps split: sum.splits if_splits option.splits)

lemma track_commit_frame:
  "or_last_seq (dbi_oracle (track_commit i ks seq db)) = or_last_seq (dbi_oracle db)"
  "or_last_committed_seq (dbi_oracle (track_commit i ks seq db)) = max (or_last_committed_seq (dbi_oracle db)) seq"
  "dbi_state (track_commit i ks seq db) = dbi_state db"
  by (simp_all add: track_commit_def track_recent_committed_txn_def track_recent_committed_write_batch_def
      advance_committed_seq_def split: option.splits)

lemma commit_of_seq [simp]: "co_seq (commit_of rq seq rows s) = seq" "co_rows (commit_of rq seq rows s) = rows"
  by (simp_all add: commit_of_def Let_def split: option.splits)

lemma seq_ok_step:
  assumes "sys_step om wal st timestamp s s'" "seq_ok s0 s"
  shows "seq_ok s0 s'"
  using assms
proof (induction rule: sys_step.induct)
  case (assign s rq q seq orc now)
  from assign_commit_seq_fresh [OF assign(4,3)] assign(5) show ?case by (auto simp: seq_ok_def assign(1))
next
  case (assign_error s rq q e orc)
  from assign_commit_seq_error [OF assign_error(3)] assign_error(1,4) show ?case by (simp add: seq_ok_def)
next
  case (track s rq seq rows)
  then show ?case by (force simp: seq_ok_def track_commit_frame sorted_wrt_append)
next
  case (finish s rq seq ts r db)
  from finish_frame [OF finish(2)] finish(1,3) show ?case by (simp add: seq_ok_def split: sum.split)
next
  case (flush s freeze r db)
  from flush_frame [OF flush(2)] flush(1,3) show ?case by (simp add: seq_ok_def split: sum.split)
qed (auto simp: seq_ok_def begin_frame commit_frame apply_frame)

subsection \<open>Ownership of transactions\<close>

abbreviation active_of :: "transaction_manager \<Rightarrow> uuid \<Rightarrow> transaction_state option" where
  "active_of tm \<equiv> map_of (tm_active_txns tm)"

lemma active_of_update_txn: "active_of (update_txn i f tm) = (active_of tm)(i := map_option f (active_of tm i))"
  by (auto simp: update_txn_def update_conv' fun_eq_iff split: option.splits)

lemma active_of_read_keys:
  "active_of (track_read_keys i ks tm) = (active_of tm)(i := map_option (state_track_read_keys ks) (active_of tm i))"
  by (simp add: track_read_keys_def active_of_update_txn)

lemma active_of_new: "active_of (snd (new_transaction i orc tm)) = (active_of tm)(i \<mapsto>
    \<lparr>ts_started_seq = or_last_committed_seq orc, ts_committed_seq = None, ts_write_keys = {}, ts_read_keys = {}, ts_read_ranges = []\<rparr>)"
  by (simp add: new_transaction_def update_conv' Let_def)

lemma active_of_recycle [simp]: "tm_active_txns (recycle_recent_committed_txns tm) = tm_active_txns tm"
  by (simp add: recycle_recent_committed_txns_def split: option.splits)

lemma active_of_drop: "active_of (drop_txn i tm) = (active_of tm)(i := None)"
  by (simp add: drop_txn_def delete_conv')

lemma active_of_tracked [simp]: "tm_active_txns (track_recent_committed_state st tm) = tm_active_txns tm"
  by (simp add: track_recent_committed_state_def Let_def)

lemma active_of_commit:
  "active_of (dbi_txns (track_commit i ks seq db)) = (case i of Some i \<Rightarrow> (active_of (dbi_txns db))(i := None) | None \<Rightarrow> active_of (dbi_txns db))"
  by (auto simp: track_commit_def track_recent_committed_txn_def track_recent_committed_write_batch_def delete_conv'
      split: option.splits)

definition request_txns :: "write_batch_request list \<Rightarrow> db_transaction list" where
  "request_txns rqs = List.map_filter rq_txn rqs"

lemma request_txns_simps [simp]:
  "request_txns [] = []"
  "request_txns (rq # rqs) = (case rq_txn rq of Some t \<Rightarrow> [t] | None \<Rightarrow> []) @ request_txns rqs"
  "request_txns (rqs @ rqs') = request_txns rqs @ request_txns rqs'"
  by (simp_all add: request_txns_def map_filter_def split: option.splits)

text \<open>The requests whose transaction is active, and the one that was just committed.\<close>

fun pending_request :: "writer \<Rightarrow> write_batch_request list" where
  "pending_request (Assigned rq _ _) = [rq]"
| "pending_request (Checked rq _ _) = [rq]"
| "pending_request (Staged rq _ _ _) = [rq]"
| "pending_request (Applied rq _ _) = [rq]"
| "pending_request _ = []"

fun tracked_request :: "writer \<Rightarrow> write_batch_request list" where
  "tracked_request (Tracked rq _) = [rq]"
| "tracked_request _ = []"

definition requested :: "('m, 'w) system \<Rightarrow> db_transaction list" where
  "requested s = request_txns (pending_request (sy_writer s) @ sy_queue s)"

definition live_txns :: "('m, 'w) system \<Rightarrow> db_transaction list" where
  "live_txns s = sy_open s @ requested s"

abbreviation active :: "('m, 'w) system \<Rightarrow> uuid \<Rightarrow> transaction_state option" where
  "active s \<equiv> active_of (dbi_txns (sy_db s))"

definition owned_ok :: "('m, 'w) system \<Rightarrow> bool" where
  "owned_ok s \<longleftrightarrow>
     distinct (map dt_txn_id (live_txns s @ request_txns (tracked_request (sy_writer s))))
     \<and> dt_txn_id ` set (live_txns s @ request_txns (tracked_request (sy_writer s))) \<subseteq> sy_ids s
     \<and> (\<forall>t\<in>set (live_txns s). \<exists>x. active s (dt_txn_id t) = Some x \<and> ts_started_seq x = dt_started_seq t)"

lemma map_id_replace [simp]: "map dt_txn_id (replace_txn t ts) = map dt_txn_id ts"
  by (simp add: replace_txn_def)

lemma set_replace: "set (replace_txn t' ts) \<subseteq> insert t' (set ts)"
  by (auto simp: replace_txn_def)

lemma set_remove: "set (remove_txn t ts) \<subseteq> set ts" "t' \<in> set (remove_txn t ts) \<Longrightarrow> dt_txn_id t' \<noteq> dt_txn_id t"
  by (auto simp: remove_txn_def)

lemma distinct_remove: "distinct (map dt_txn_id ts) \<Longrightarrow> distinct (map dt_txn_id (remove_txn t ts))"
  by (simp add: remove_txn_def distinct_map_filter)

lemma batch_edit_frame:
  assumes "batch_edit st t t'"
  shows "dt_txn_id t' = dt_txn_id t" "dt_started_seq t' = dt_started_seq t" "dt_isolation_level t' = dt_isolation_level t"
    "dt_range_trackers t' = dt_range_trackers t"
  using assms by (auto simp: batch_edit_def txn_put_def txn_merge_def txn_delete_def txn_unmark_write_def result_simps split: if_splits)

text \<open>What committing registers for the transaction.\<close>

lemma fold_track_range:
  "active_of (fold (track_read_range i) rs tm)
    = (active_of tm)(i := map_option (\<lambda>x. x\<lparr>ts_read_ranges := ts_read_ranges x @ rs\<rparr>) (active_of tm i))"
proof (induction rs arbitrary: tm)
  case Nil
  then show ?case by (simp add: fun_upd_idem option.map_ident)
next
  case (Cons r rs)
  then show ?case
    by (auto simp: track_read_range_def active_of_update_txn state_track_read_range_def option.map_comp comp_def)
qed

definition registers :: "db_transaction \<Rightarrow> transaction_state \<Rightarrow> transaction_state \<Rightarrow> bool" where
  "registers t x x' \<longleftrightarrow> ts_started_seq x' = ts_started_seq x \<and> ts_read_keys x' = ts_read_keys x
     \<and> set (ts_read_ranges x) \<subseteq> set (ts_read_ranges x')
     \<and> batch_keys (dt_write_batch t) - dt_untracked_write_keys t \<subseteq> ts_write_keys x'
     \<and> (dt_isolation_level t = SerializableSnapshot \<longrightarrow> set (dt_range_trackers t) \<subseteq> set (ts_read_ranges x'))"

lemma commit_registers:
  assumes "commit_with_options t opts db = (r, db')"
  shows "\<exists>f. active_of (dbi_txns db') = (active_of (dbi_txns db))(dt_txn_id t := map_option f (active_of (dbi_txns db) (dt_txn_id t)))
    \<and> (\<forall>x. registers t x (f x))"
proof -
  let ?i = "dt_txn_id t"
  let ?tm = "if dt_isolation_level t = SerializableSnapshot then fold (track_read_range ?i) (dt_range_trackers t) (dbi_txns db) else dbi_txns db"
  define f :: "transaction_state \<Rightarrow> transaction_state" where "f = (\<lambda>x. if dt_isolation_level t = SerializableSnapshot
    then x\<lparr>ts_read_ranges := ts_read_ranges x @ dt_range_trackers t\<rparr> else x)"
  have f: "ts_started_seq (f x) = ts_started_seq x" "ts_read_keys (f x) = ts_read_keys x"
    "set (ts_read_ranges x) \<subseteq> set (ts_read_ranges (f x))"
    "dt_isolation_level t = SerializableSnapshot \<longrightarrow> set (dt_range_trackers t) \<subseteq> set (ts_read_ranges (f x))" for x
    by (simp_all add: f_def)
  have tm: "active_of ?tm = (active_of (dbi_txns db))(?i := map_option f (active_of (dbi_txns db) ?i))"
    by (simp add: f_def fold_track_range fun_upd_idem option.map_ident)
  show ?thesis
  proof (cases "batch_is_empty (dt_write_batch t)")
    case True
    with assms have "dbi_txns db' = ?tm" by (auto simp: commit_with_options_def Let_def)
    with f tm True show ?thesis
      by (intro exI [of _ f]) (simp add: registers_def batch_is_empty_def batch_keys_def)
  next
    case False
    let ?g = "state_track_write_keys (batch_keys (dt_write_batch t) - dt_untracked_write_keys t)"
    from assms False have "dbi_txns db' = update_txn ?i ?g ?tm"
      by (auto simp: commit_with_options_def Let_def track_write_keys_def)
    then have "active_of (dbi_txns db') = (active_of ?tm)(?i := map_option ?g (active_of ?tm ?i))"
      by (simp only: active_of_update_txn)
    then have "active_of (dbi_txns db') = (active_of (dbi_txns db))(?i := map_option (?g \<circ> f) (active_of (dbi_txns db) ?i))"
      unfolding tm by (simp add: option.map_comp)
    moreover have "registers t x ((?g \<circ> f) x)" for x using f [of x] by (simp add: registers_def state_track_write_keys_def)
    ultimately show ?thesis by (intro exI [of _ "?g \<circ> f"]) blast
  qed
qed

lemma commit_request:
  "commit_with_options t opts db = (Inr (Some rq), db') \<Longrightarrow> rq_txn rq = Some t \<and> rq_batch rq = dt_write_batch t"
  by (auto simp: commit_with_options_def write_with_options_def Let_def result_simps split: if_splits)

lemma distinct_mset_sub:
  assumes "distinct ys" "mset xs \<subseteq># mset ys"
  shows "distinct xs"
  unfolding distinct_count_atmost_1
proof
  fix a
  have c: "count (mset xs) a \<le> count (mset ys) a" "count (mset ys) a \<le> 1"
    using mset_subset_eq_count [OF assms(2)] assms(1) by (simp_all add: distinct_count_atmost_1)
  show "count (mset xs) a = (if a \<in> set xs then 1 else 0)"
  proof (cases "a \<in> set xs")
    case True
    then have "0 < count (mset xs) a" by simp
    with c have "count (mset xs) a = 1" by linarith
    with True show ?thesis by simp
  qed simp
qed

lemma mset_remove:
  "mset (map dt_txn_id (remove_txn t ts)) \<subseteq># mset (map dt_txn_id ts)"
  "t \<in> set ts \<Longrightarrow> add_mset (dt_txn_id t) (mset (map dt_txn_id (remove_txn t ts))) \<subseteq># mset (map dt_txn_id ts)"
proof -
  show 1: "mset (map dt_txn_id (remove_txn t ts)) \<subseteq># mset (map dt_txn_id ts)" for ts
    by (auto simp: remove_txn_def intro!: image_mset_subseteq_mono)
  show "add_mset (dt_txn_id t) (mset (map dt_txn_id (remove_txn t ts))) \<subseteq># mset (map dt_txn_id ts)" if "t \<in> set ts"
    using that
  proof (induction ts)
    case (Cons a ts)
    then show ?case using 1 [of ts] by (cases "dt_txn_id a = dt_txn_id t") (auto simp: remove_txn_def add_mset_commute [of "dt_txn_id t"])
  qed simp
qed

lemma owned_okD:
  assumes "owned_ok s"
  shows "distinct (map dt_txn_id (live_txns s @ request_txns (tracked_request (sy_writer s))))"
    "t \<in> set (live_txns s @ request_txns (tracked_request (sy_writer s))) \<Longrightarrow> dt_txn_id t \<in> sy_ids s"
    "t \<in> set (live_txns s) \<Longrightarrow> \<exists>x. active s (dt_txn_id t) = Some x \<and> ts_started_seq x = dt_started_seq t"
  using assms unfolding owned_ok_def by blast+

text \<open>
  A step that only removes a transaction from the owners, or hands it on, and changes nothing about
  the states of the others keeps them owned.
\<close>

lemma owned_ok_keep:
  assumes ok: "owned_ok s"
    and ids: "mset (map dt_txn_id (live_txns s' @ request_txns (tracked_request (sy_writer s'))))
      \<subseteq># mset (map dt_txn_id (live_txns s @ request_txns (tracked_request (sy_writer s))))" "sy_ids s' = sy_ids s"
    and act: "\<And>t'. t' \<in> set (live_txns s') \<Longrightarrow> \<exists>t\<in>set (live_txns s). dt_txn_id t' = dt_txn_id t \<and> dt_started_seq t' = dt_started_seq t
      \<and> (\<forall>x. active s (dt_txn_id t) = Some x \<longrightarrow> (\<exists>x'. active s' (dt_txn_id t) = Some x' \<and> ts_started_seq x' = ts_started_seq x))"
  shows "owned_ok s'"
proof -
  from owned_okD(1) [OF ok] ids(1) have "distinct (map dt_txn_id (live_txns s' @ request_txns (tracked_request (sy_writer s'))))"
    by (rule distinct_mset_sub)
  moreover from ids have "dt_txn_id ` set (live_txns s' @ request_txns (tracked_request (sy_writer s'))) \<subseteq> sy_ids s'"
    using owned_okD(2) [OF ok] set_mset_mono [OF ids(1)] by (force simp: image_iff)
  moreover have "\<exists>x. active s' (dt_txn_id t') = Some x \<and> ts_started_seq x = dt_started_seq t'" if "t' \<in> set (live_txns s')" for t'
  proof -
    from act [OF that] obtain t where t: "t \<in> set (live_txns s)" "dt_txn_id t' = dt_txn_id t" "dt_started_seq t' = dt_started_seq t"
      "\<forall>x. active s (dt_txn_id t) = Some x \<longrightarrow> (\<exists>x'. active s' (dt_txn_id t) = Some x' \<and> ts_started_seq x' = ts_started_seq x)"
      by blast
    from owned_okD(3) [OF ok t(1)] t(2-4) show ?thesis by force
  qed
  ultimately show ?thesis unfolding owned_ok_def by blast
qed

lemma live_txns_simps [simp]:
  "live_txns (s\<lparr>sy_db := db\<rparr>) = live_txns s" "live_txns (s\<lparr>sy_reads := rd\<rparr>) = live_txns s" "live_txns (s\<lparr>sy_log := lg\<rparr>) = live_txns s"
  "live_txns (s\<lparr>sy_ids := ids\<rparr>) = live_txns s" "live_txns (s\<lparr>sy_open := ts\<rparr>) = ts @ requested s"
  "requested (s\<lparr>sy_open := ts\<rparr>) = requested s" "requested (s\<lparr>sy_db := db\<rparr>) = requested s"
  by (simp_all add: live_txns_def requested_def)

text \<open>Dropping a transaction that no other owner has keeps the others active.\<close>

lemma active_txn_drop:
  "active_of (dbi_txns (txn_drop t db)) i = (if Some i = map_option dt_txn_id t then None else active_of (dbi_txns db) i)"
  by (auto simp: txn_drop_def active_of_drop split: option.splits)

lemma live_open: "t \<in> set (sy_open s) \<Longrightarrow> t \<in> set (live_txns s)"
  by (simp add: live_txns_def)

lemma owned_ok_same:
  assumes "owned_ok s" "live_txns s' = live_txns s" "sy_ids s' = sy_ids s"
    "tracked_request (sy_writer s') = tracked_request (sy_writer s)"
    and "\<And>i x. active s i = Some x \<Longrightarrow> \<exists>x'. active s' i = Some x' \<and> ts_started_seq x' = ts_started_seq x"
  shows "owned_ok s'"
  by (rule owned_ok_keep [OF assms(1)]) (use assms(2-) in auto)

lemma owned_ok_replace:
  assumes ok: "owned_ok s" and t: "t \<in> set (sy_open s)" "dt_txn_id t' = dt_txn_id t" "dt_started_seq t' = dt_started_seq t"
  shows "owned_ok (s\<lparr>sy_open := replace_txn t' (sy_open s)\<rparr>)"
proof (rule owned_ok_keep [OF ok])
  fix u assume "u \<in> set (live_txns (s\<lparr>sy_open := replace_txn t' (sy_open s)\<rparr>))"
  then have "u = t' \<or> u \<in> set (live_txns s)" using set_replace [of t' "sy_open s"] by (auto simp: live_txns_def)
  then show "\<exists>v\<in>set (live_txns s). dt_txn_id u = dt_txn_id v \<and> dt_started_seq u = dt_started_seq v
      \<and> (\<forall>x. active s (dt_txn_id v) = Some x \<longrightarrow>
        (\<exists>x'. active (s\<lparr>sy_open := replace_txn t' (sy_open s)\<rparr>) (dt_txn_id v) = Some x' \<and> ts_started_seq x' = ts_started_seq x))"
    using t live_open [OF t(1)] by auto
qed (simp_all add: live_txns_def)

text \<open>
  A step after which the owners are some of those before, with a state for each of them, and the
  dropped transaction is not among them.
\<close>

lemma owned_ok_drop:
  assumes ok: "owned_ok s" and t: "set_mset (mset (map dt_txn_id (live_txns s'))) \<inter> (dt_txn_id ` set_option t) = {}"
    and ids: "mset (map dt_txn_id (live_txns s' @ request_txns (tracked_request (sy_writer s'))))
      \<subseteq># mset (map dt_txn_id (live_txns s @ request_txns (tracked_request (sy_writer s))))" "sy_ids s' = sy_ids s" "set (live_txns s') \<subseteq> set (live_txns s)"
    and act: "\<And>i. active s' i = (if Some i = map_option dt_txn_id t then None else active s i)"
  shows "owned_ok s'"
proof (rule owned_ok_keep [OF ok ids(1,2)])
  fix u assume u: "u \<in> set (live_txns s')"
  with t have "Some (dt_txn_id u) \<noteq> map_option dt_txn_id t" by (cases t) (auto simp: image_iff)
  then show "\<exists>v\<in>set (live_txns s). dt_txn_id u = dt_txn_id v \<and> dt_started_seq u = dt_started_seq v
      \<and> (\<forall>x. active s (dt_txn_id v) = Some x \<longrightarrow> (\<exists>x'. active s' (dt_txn_id v) = Some x' \<and> ts_started_seq x' = ts_started_seq x))"
    using u ids(3) by (auto simp: act)
qed

lemma owned_ok_drop_request:
  assumes ok: "owned_ok s" and live: "live_txns s = xs @ request_txns [rq] @ ys" "live_txns s' = xs @ ys"
    and rest: "tracked_request (sy_writer s') = [] \<or> (tracked_request (sy_writer s') = [rq] \<and> tracked_request (sy_writer s) = [])" "sy_ids s' = sy_ids s"
    and act: "\<And>i. active s' i = (if Some i = map_option dt_txn_id (rq_txn rq) then None else active s i)"
  shows "owned_ok s'"
proof (rule owned_ok_drop [OF ok _ _ rest(2) _ act])
  from owned_okD(1) [OF ok] show "set_mset (mset (map dt_txn_id (live_txns s'))) \<inter> dt_txn_id ` set_option (rq_txn rq) = {}"
    unfolding live by (cases "rq_txn rq") auto
  from rest(1) show "mset (map dt_txn_id (live_txns s' @ request_txns (tracked_request (sy_writer s'))))
      \<subseteq># mset (map dt_txn_id (live_txns s @ request_txns (tracked_request (sy_writer s))))"
    unfolding live by (auto simp: ac_simps)
  show "set (live_txns s') \<subseteq> set (live_txns s)" unfolding live by auto
qed

lemma owned_ok_close:
  assumes ok: "owned_ok s" and t: "t \<in> set (sy_open s)" and live: "live_txns s' = remove_txn t (sy_open s) @ requested s"
    and rest: "tracked_request (sy_writer s') = tracked_request (sy_writer s)" "sy_ids s' = sy_ids s"
    and act: "\<And>i. active s' i = (if i = dt_txn_id t then None else active s i)"
  shows "owned_ok s'"
proof (rule owned_ok_drop [OF ok _ _ rest(2), where t = "Some t"])
  from owned_okD(1) [OF ok] t have "dt_txn_id t \<notin> dt_txn_id ` set (requested s)" unfolding live_txns_def by auto
  then show "set_mset (mset (map dt_txn_id (live_txns s'))) \<inter> dt_txn_id ` set_option (Some t) = {}"
    unfolding live using set_remove(2) by fastforce
  show "mset (map dt_txn_id (live_txns s' @ request_txns (tracked_request (sy_writer s'))))
      \<subseteq># mset (map dt_txn_id (live_txns s @ request_txns (tracked_request (sy_writer s))))"
    unfolding live live_txns_def [of s] rest(1) using mset_remove(1) [of t "sy_open s"] by simp
  show "set (live_txns s') \<subseteq> set (live_txns s)" unfolding live live_txns_def [of s] using set_remove(1) [of t "sy_open s"] by auto
qed (simp add: act)

lemma owned_ok_step:
  assumes "sys_step om wal st timestamp s s'" "owned_ok s"
  shows "owned_ok s'"
  using assms
proof (induction rule: sys_step.induct)
  case (begin_txn i s level t db)
  note f = begin_frame [OF begin_txn(2)]
  have new: "i \<notin> dt_txn_id ` set (live_txns s @ request_txns (tracked_request (sy_writer s)))"
    using begin_txn(1) owned_okD(2) [OF begin_txn(3)] by auto
  then have "\<exists>x. active_of (dbi_txns db) (dt_txn_id u) = Some x \<and> ts_started_seq x = dt_started_seq u"
    if "u \<in> set (t # live_txns s)" for u
    using that owned_okD(3) [OF begin_txn(3)] unfolding f(3) active_of_new by (cases "u = t") (auto simp: f(4,5) image_iff)
  with new owned_okD(1,2) [OF begin_txn(3)] show ?case
    by (auto simp: owned_ok_def live_txns_def requested_def f(4))
next
  case (edit t s t')
  from batch_edit_frame [OF edit(2)] show ?case by (intro owned_ok_replace [OF edit(3,1)])
next
  case (read_key t s k)
  show ?case
    by (rule owned_ok_same [OF read_key(2)])
      (auto simp: txn_track_get_def track_read_keys_def active_of_update_txn state_track_read_keys_def)
next
  case (read_range t s r)
  have "owned_ok (s\<lparr>sy_open := replace_txn (txn_track_scan r t) (sy_open s)\<rparr>)"
    by (rule owned_ok_replace [OF read_range(2,1)]) (simp_all add: txn_track_scan_def)
  then show ?case by (rule owned_ok_same) simp_all
next
  case (mark_read t s ks)
  show ?case
    by (rule owned_ok_same [OF mark_read(2)])
      (auto simp: txn_mark_read_def track_read_keys_def active_of_update_txn state_track_read_keys_def)
next
  case (rollback t s)
  show ?case
    by (rule owned_ok_close [OF rollback(2,1)]) (simp_all add: active_txn_drop live_txns_def requested_def)
next
  case (commit_done t s opts r db)
  from commit_registers [OF commit_done(2)] obtain f where
    f: "active_of (dbi_txns db) = (active s)(dt_txn_id t := map_option f (active s (dt_txn_id t)))" by blast
  show ?case
    by (rule owned_ok_close [OF commit_done(3,1)]) (simp_all add: active_txn_drop live_txns_def requested_def f)
next
  case (commit_send t s opts rq db)
  from commit_registers [OF commit_send(2)] obtain f where
    f: "active_of (dbi_txns db) = (active s)(dt_txn_id t := map_option f (active s (dt_txn_id t)))" "\<forall>x. registers t x (f x)" by blast
  let ?s = "s\<lparr>sy_open := remove_txn t (sy_open s), sy_db := db, sy_queue := sy_queue s @ [rq]\<rparr>"
  have live: "live_txns ?s = remove_txn t (sy_open s) @ requested s @ [t]"
    using commit_request [OF commit_send(2)] by (simp add: live_txns_def requested_def)
  show ?case
  proof (rule owned_ok_keep [OF commit_send(3)])
    show "mset (map dt_txn_id (live_txns ?s @ request_txns (tracked_request (sy_writer ?s))))
        \<subseteq># mset (map dt_txn_id (live_txns s @ request_txns (tracked_request (sy_writer s))))"
      unfolding live live_txns_def [of s] using mset_remove(2) [OF commit_send(1)] by simp
    fix u assume "u \<in> set (live_txns ?s)"
    then have "u \<in> set (live_txns s)" unfolding live live_txns_def [of s] using set_remove(1) [of t "sy_open s"] commit_send(1) by auto
    then show "\<exists>v\<in>set (live_txns s). dt_txn_id u = dt_txn_id v \<and> dt_started_seq u = dt_started_seq v
        \<and> (\<forall>x. active s (dt_txn_id v) = Some x \<longrightarrow> (\<exists>x'. active ?s (dt_txn_id v) = Some x' \<and> ts_started_seq x' = ts_started_seq x))"
      using f by (intro bexI [of _ u]) (auto simp: registers_def)
  qed simp
next
  case (write_send b opts s rq)
  have "rq_txn rq = None" using write_send(2) by (auto simp: write_with_options_def result_simps split: if_splits)
  then show ?case by (intro owned_ok_same [OF write_send(3)]) (simp_all add: live_txns_def requested_def)
next
  case (assign s rq q seq orc now)
  show ?case by (rule owned_ok_same [OF assign(5)]) (simp_all add: live_txns_def requested_def assign(1,2))
next
  case (assign_error s rq q e orc)
  show ?case
    by (rule owned_ok_drop_request [OF assign_error(4), where rq = rq and xs = "sy_open s" and ys = "request_txns q"])
      (simp_all add: live_txns_def requested_def active_txn_drop assign_error(1,2))
next
  case (check s rq now seq)
  show ?case by (rule owned_ok_same [OF check(3)]) (simp_all add: live_txns_def requested_def check(1))
next
  case (check_error s rq now seq e)
  show ?case
    by (rule owned_ok_drop_request [OF check_error(3), where rq = rq and xs = "sy_open s" and ys = "request_txns (sy_queue s)"])
      (simp_all add: live_txns_def requested_def active_txn_drop check_error(1))
next
  case (stage s rq now seq rows segs)
  show ?case by (rule owned_ok_same [OF stage(3)]) (simp_all add: live_txns_def requested_def stage(1))
next
  case (stage_error s rq now seq e)
  show ?case
    by (rule owned_ok_drop_request [OF stage_error(3), where rq = rq and xs = "sy_open s" and ys = "request_txns (sy_queue s)"])
      (simp_all add: live_txns_def requested_def active_txn_drop stage_error(1))
next
  case (apply_rows s rq seq rows segs db)
  show ?case by (rule owned_ok_same [OF apply_rows(3)]) (simp_all add: live_txns_def requested_def apply_rows(1) apply_frame [OF apply_rows(2)])
next
  case (apply_error s rq seq rows segs e)
  show ?case
    by (rule owned_ok_drop_request [OF apply_error(3), where rq = rq and xs = "sy_open s" and ys = "request_txns (sy_queue s)"])
      (simp_all add: live_txns_def requested_def active_txn_drop apply_error(1))
next
  case (track s rq seq rows)
  show ?case
    by (rule owned_ok_drop_request [OF track(2), where rq = rq and xs = "sy_open s" and ys = "request_txns (sy_queue s)"])
      (simp_all add: live_txns_def requested_def active_txn_drop track(1) active_of_commit split: option.split)
next
  case (finish s rq seq ts r db)
  have other: "dt_txn_id u \<noteq> dt_txn_id v" if "u \<in> set (live_txns s)" "rq_txn rq = Some v" for u v
    using owned_okD(1) [OF finish(3)] that by (auto simp: finish(1) image_iff)
  show ?case
  proof (rule owned_ok_keep [OF finish(3)])
    let ?s = "s\<lparr>sy_writer := (case r of Inr _ \<Rightarrow> Idle | Inl _ \<Rightarrow> Stopped), sy_db := txn_drop (rq_txn rq) db\<rparr>"
    have live: "live_txns ?s = live_txns s" by (simp add: live_txns_def requested_def finish(1) split: sum.split)
    then show "mset (map dt_txn_id (live_txns ?s @ request_txns (tracked_request (sy_writer ?s))))
        \<subseteq># mset (map dt_txn_id (live_txns s @ request_txns (tracked_request (sy_writer s))))" by (simp split: sum.split)
    fix u assume "u \<in> set (live_txns ?s)"
    then have u: "u \<in> set (live_txns s)" unfolding live .
    have "active ?s (dt_txn_id u) = active s (dt_txn_id u)"
      using other [OF u] by (cases "rq_txn rq") (auto simp: active_txn_drop finish_frame [OF finish(2)])
    then show "\<exists>v\<in>set (live_txns s). dt_txn_id u = dt_txn_id v \<and> dt_started_seq u = dt_started_seq v
        \<and> (\<forall>x. active s (dt_txn_id v) = Some x \<longrightarrow> (\<exists>x'. active ?s (dt_txn_id v) = Some x' \<and> ts_started_seq x' = ts_started_seq x))"
      using u by (intro bexI [of _ u]) auto
  qed simp
next
  case (flush s freeze r db)
  show ?case
    by (rule owned_ok_same [OF flush(3)])
      (simp_all add: live_txns_def requested_def flush(1) flush_frame [OF flush(2)] split: sum.split)
next
  case (cleanup s rq q)
  show ?case
    by (rule owned_ok_drop_request [OF cleanup(3), where rq = rq and xs = "sy_open s" and ys = "request_txns q"])
      (simp_all add: live_txns_def requested_def active_txn_drop cleanup(1,2))
qed

subsection \<open>The log and the conflict checks\<close>

definition log_of :: "('m, 'w) system \<Rightarrow> commit_log" where
  "log_of s = (\<lambda>c. (co_seq c, co_keys c)) ` set (sy_log s)"

lemma log_of_simps [simp]:
  "log_of (s\<lparr>sy_db := db\<rparr>) = log_of s" "log_of (s\<lparr>sy_open := ts\<rparr>) = log_of s" "log_of (s\<lparr>sy_queue := q\<rparr>) = log_of s"
  "log_of (s\<lparr>sy_writer := w\<rparr>) = log_of s" "log_of (s\<lparr>sy_ids := ids\<rparr>) = log_of s" "log_of (s\<lparr>sy_reads := rd\<rparr>) = log_of s"
  "log_of (s\<lparr>sy_writer := w, sy_db := db, sy_log := sy_log s @ [c]\<rparr>) = insert (co_seq c, co_keys c) (log_of s)"
  by (simp_all add: log_of_def)

definition txns_ok :: "u64 \<Rightarrow> ('m, 'w) system \<Rightarrow> bool" where
  "txns_ok s0 s \<longleftrightarrow> txn_ok (log_of s) (dbi_txns (sy_db s)) (dbi_oracle (sy_db s))
     \<and> (\<forall>i x. active s i = Some x \<longrightarrow> s0 \<le> ts_started_seq x)"

lemma txn_ok_oracle:
  "or_last_committed_seq orc' = or_last_committed_seq orc \<Longrightarrow> txn_ok log tm orc' \<longleftrightarrow> txn_ok log tm orc"
  by (simp add: txn_ok_def)

lemma txn_ok_fold_track: "txn_ok log tm orc \<Longrightarrow> txn_ok log (fold (track_read_range i) rs tm) orc"
  by (induction rs arbitrary: tm) (simp_all add: txn_ok_track)

lemma txn_ok_commit_options:
  assumes "txn_ok log (dbi_txns db) orc" "commit_with_options t opts db = (r, db')"
  shows "txn_ok log (dbi_txns db') orc"
  using assms(2) txn_ok_fold_track [OF assms(1)] assms(1)
  by (auto simp: commit_with_options_def Let_def txn_ok_track split: if_splits)

lemma txn_ok_txn_drop: "txn_ok log (dbi_txns db) orc \<Longrightarrow> txn_ok log (dbi_txns (txn_drop t db)) orc"
  by (simp add: txn_drop_def txn_ok_drop split: option.splits)

lemma track_commit_txns:
  assumes "txn_ok log (dbi_txns db) (dbi_oracle db)"
    and "\<And>j. i = Some j \<Longrightarrow> active_of (dbi_txns db) j = Some x \<and> keys = ts_write_keys x" "i = None \<Longrightarrow> keys = ks"
  shows "txn_ok (insert (seq, keys) log) (dbi_txns (track_commit i ks seq db)) (dbi_oracle (track_commit i ks seq db))"
proof (cases i)
  case None
  obtain tm orc where "track_recent_committed_write_batch ks seq (dbi_txns db, dbi_oracle db) = (tm, orc)" by fastforce
  with txn_ok_commit_batch [OF assms(1) this] assms(3) None show ?thesis by (simp add: track_commit_def)
next
  case (Some j)
  obtain tm orc where "track_recent_committed_txn j seq (dbi_txns db, dbi_oracle db) = (tm, orc)" by fastforce
  with txn_ok_commit_txn [OF assms(1) _ this] assms(2) Some show ?thesis by (simp add: track_commit_def)
qed

lemma pending_live: "rq \<in> set (pending_request (sy_writer s)) \<Longrightarrow> rq_txn rq = Some t \<Longrightarrow> t \<in> set (live_txns s)"
  by (cases "sy_writer s") (auto simp: live_txns_def requested_def)

lemma txns_ok_read_keys:
  assumes "txns_ok s0 s"
  shows "txns_ok s0 (s\<lparr>sy_db := (sy_db s)\<lparr>dbi_txns := track_read_keys i ks (dbi_txns (sy_db s))\<rparr>\<rparr>)"
proof -
  have "s0 \<le> ts_started_seq x" if "active_of (track_read_keys i ks (dbi_txns (sy_db s))) j = Some x" for j x
    using that assms unfolding active_of_read_keys txns_ok_def
    by (cases "j = i") (auto simp: state_track_read_keys_def)
  with assms show ?thesis by (simp add: txns_ok_def txn_ok_track)
qed

lemma txns_ok_step:
  assumes "sys_step om wal st timestamp s s'" "txns_ok s0 s" "seq_ok s0 s" "owned_ok s"
  shows "txns_ok s0 s'"
  using assms
proof (induction rule: sys_step.induct)
  case (begin_txn i s level t db)
  from begin_txn(3,4) show ?case
    unfolding txns_ok_def by (auto simp: begin_frame [OF begin_txn(2)] active_of_new seq_ok_def intro: txn_ok_begin split: if_splits)
next
  case (read_key t s k)
  have "txns_ok s0 (s\<lparr>sy_db := txn_track_get k t (sy_db s)\<rparr>)"
    using txns_ok_read_keys [OF read_key(2)] read_key(2) by (simp add: txn_track_get_def)
  then show ?case by (simp add: txns_ok_def)
next
  case (mark_read t s ks)
  then show ?case unfolding txn_mark_read_def by (intro txns_ok_read_keys)
next
  case (rollback t s)
  then show ?case by (auto simp: txns_ok_def txn_ok_txn_drop active_txn_drop)
next
  case (commit_done t s opts r db)
  from commit_registers [OF commit_done(2)] obtain f where
    f: "active_of (dbi_txns db) = (active s)(dt_txn_id t := map_option f (active s (dt_txn_id t)))" by blast
  from commit_done(3) show ?case
    by (auto simp: txns_ok_def active_txn_drop f commit_frame [OF commit_done(2)]
        intro!: txn_ok_txn_drop txn_ok_commit_options [OF _ commit_done(2)] split: if_splits)
next
  case (commit_send t s opts rq db)
  from commit_registers [OF commit_send(2)] obtain f where
    f: "active_of (dbi_txns db) = (active s)(dt_txn_id t := map_option f (active s (dt_txn_id t)))" "\<forall>x. registers t x (f x)" by blast
  from commit_send(3) f(2) show ?case
    by (auto simp: txns_ok_def f(1) commit_frame [OF commit_send(2)] registers_def
        intro!: txn_ok_commit_options [OF _ commit_send(2)] split: if_splits)
next
  case (assign s rq q seq orc now)
  from assign(5) show ?case
    by (simp add: txns_ok_def txn_ok_oracle [OF assign_commit_seq_fresh(3) [OF assign(4,3)]])
next
  case (assign_error s rq q e orc)
  from assign_commit_seq_error [OF assign_error(3)] assign_error(4) show ?case
    by (auto simp: txns_ok_def active_txn_drop intro!: txn_ok_txn_drop split: if_splits)
next
  case (track s rq seq rows)
  let ?i = "map_option dt_txn_id (rq_txn rq)"
  have "txn_ok (insert (seq, co_keys (commit_of rq seq rows s)) (log_of s)) (dbi_txns (track_commit ?i (batch_keys (rq_batch rq)) seq (sy_db s)))
      (dbi_oracle (track_commit ?i (batch_keys (rq_batch rq)) seq (sy_db s)))"
  proof (rule track_commit_txns)
    show "txn_ok (log_of s) (dbi_txns (sy_db s)) (dbi_oracle (sy_db s))" using track(2) by (simp add: txns_ok_def)
    fix j assume "?i = Some j"
    then obtain t where t: "rq_txn rq = Some t" "j = dt_txn_id t" by auto
    with pending_live [of rq s t] track(1) have "t \<in> set (live_txns s)" by simp
    from owned_okD(3) [OF track(4) this] t
    show "active s j = Some (the (active s (dt_txn_id (the (rq_txn rq))))) \<and>
        co_keys (commit_of rq seq rows s) = ts_write_keys (the (active s (dt_txn_id (the (rq_txn rq)))))"
      by (auto simp: commit_of_def Let_def)
  qed (simp add: commit_of_def)
  with track(2) show ?case by (auto simp: txns_ok_def active_of_commit split: option.splits if_splits)
next
  case (finish s rq seq ts r db)
  then show ?case
    by (auto simp: txns_ok_def active_txn_drop finish_frame [OF finish(2)] intro!: txn_ok_txn_drop split: if_splits)
qed (auto simp: txns_ok_def active_txn_drop apply_frame flush_frame intro!: txn_ok_txn_drop split: if_splits)

text \<open>No other owner holds a transaction that is dropped or handed on.\<close>

lemma open_other:
  assumes "owned_ok s" "t \<in> set (sy_open s)" "u \<in> set (remove_txn t (sy_open s)) \<or> u \<in> set (requested s)"
  shows "dt_txn_id u \<noteq> dt_txn_id t"
  using assms(3)
proof
  assume "u \<in> set (requested s)"
  with owned_okD(1) [OF assms(1)] assms(2) show ?thesis unfolding live_txns_def by (auto simp: image_iff)
qed (rule set_remove(2))

lemma pending_other:
  assumes "owned_ok s" "t \<in> set (sy_open s)" "rq \<in> set (pending_request (sy_writer s))" "rq_txn rq = Some u"
  shows "dt_txn_id u \<noteq> dt_txn_id t"
proof (rule open_other [OF assms(1,2)])
  from assms(3,4) show "u \<in> set (remove_txn t (sy_open s)) \<or> u \<in> set (requested s)"
    by (cases "sy_writer s") (auto simp: requested_def)
qed

lemma request_other:
  assumes "owned_ok s" "live_txns s = xs @ request_txns [rq] @ ys" "rq_txn rq = Some t" "u \<in> set (xs @ ys)"
  shows "dt_txn_id u \<noteq> dt_txn_id t"
  using owned_okD(1) [OF assms(1)] assms(4) unfolding assms(2) by (auto simp: assms(3) image_iff)

fun checked_request :: "writer \<Rightarrow> write_batch_request option" where
  "checked_request (Checked rq _ _) = Some rq"
| "checked_request (Staged rq _ _ _) = Some rq"
| "checked_request (Applied rq _ _) = Some rq"
| "checked_request _ = None"

lemma checked_pending: "checked_request w = Some rq \<Longrightarrow> rq \<in> set (pending_request w)"
  by (cases w) auto

text \<open>The transaction that the writer has checked conflicts with no commit.\<close>

definition checked_ok :: "('m, 'w) system \<Rightarrow> bool" where
  "checked_ok s \<longleftrightarrow> (\<forall>rq t. checked_request (sy_writer s) = Some rq \<longrightarrow> rq_txn rq = Some t \<longrightarrow>
     (\<exists>x. active s (dt_txn_id t) = Some x \<and> \<not> conflicts_with (log_of s) x))"

lemma checked_ok_client:
  assumes ok: "checked_ok s" and owned: "owned_ok s" and t: "t \<in> set (sy_open s)"
    and same: "sy_writer s' = sy_writer s" "log_of s' = log_of s" "\<And>i. i \<noteq> dt_txn_id t \<Longrightarrow> active s' i = active s i"
  shows "checked_ok s'"
  unfolding checked_ok_def same
proof (intro allI impI)
  fix rq u assume u: "checked_request (sy_writer s) = Some rq" "rq_txn rq = Some u"
  from pending_other [OF owned t checked_pending [OF u(1)] u(2)] have "dt_txn_id u \<noteq> dt_txn_id t" .
  from same(3) [OF this] ok u show "\<exists>x. active s' (dt_txn_id u) = Some x \<and> \<not> conflicts_with (log_of s) x"
    by (auto simp: checked_ok_def)
qed

lemma checked_ok_step:
  assumes "sys_step om wal st timestamp s s'" "checked_ok s" "txns_ok s0 s" "owned_ok s"
  shows "checked_ok s'"
  using assms
proof (induction rule: sys_step.induct)
  case (begin_txn i s level t db)
  have "dt_txn_id u \<noteq> i" if "checked_request (sy_writer s) = Some rq" "rq_txn rq = Some u" for rq u
    using pending_live [OF checked_pending [OF that(1)] that(2)] owned_okD(2) [OF begin_txn(5)] begin_txn(1) by auto
  with begin_txn(3) show ?case by (auto simp: checked_ok_def begin_frame [OF begin_txn(2)] active_of_new)
next
  case (edit t s t')
  then show ?case by (simp add: checked_ok_def)
next
  case (read_key t s k)
  show ?case by (rule checked_ok_client [OF read_key(2,4,1)]) (simp_all add: txn_track_get_def active_of_read_keys)
next
  case (read_range t s r)
  then show ?case by (simp add: checked_ok_def)
next
  case (mark_read t s ks)
  show ?case by (rule checked_ok_client [OF mark_read(2,4,1)]) (simp_all add: txn_mark_read_def active_of_read_keys)
next
  case (rollback t s)
  show ?case by (rule checked_ok_client [OF rollback(2,4,1)]) (simp_all add: active_txn_drop)
next
  case (commit_done t s opts r db)
  from commit_registers [OF commit_done(2)] obtain f where
    f: "active_of (dbi_txns db) = (active s)(dt_txn_id t := map_option f (active s (dt_txn_id t)))" by blast
  show ?case by (rule checked_ok_client [OF commit_done(3,5,1)]) (simp_all add: active_txn_drop f)
next
  case (commit_send t s opts rq db)
  from commit_registers [OF commit_send(2)] obtain f where
    f: "active_of (dbi_txns db) = (active s)(dt_txn_id t := map_option f (active s (dt_txn_id t)))" by blast
  show ?case by (rule checked_ok_client [OF commit_send(3,5,1)]) (simp_all add: f)
next
  case (check s rq now seq)
  have "\<exists>x. active s (dt_txn_id t) = Some x \<and> \<not> conflicts_with (log_of s) x" if t: "rq_txn rq = Some t" for t
  proof -
    from t check(1) have "t \<in> set (live_txns s)" using pending_live [of rq s t] by simp
    from owned_okD(3) [OF check(5) this] obtain x where x: "active s (dt_txn_id t) = Some x" by blast
    have "check_has_conflict (dt_txn_id t) (dbi_txns (sy_db s)) = Inr (conflicts_with (log_of s) x)"
      using check(4) x by (intro check_has_conflict_exact) (auto simp: txns_ok_def)
    with check(2) x t show ?thesis by (auto simp: check_conflict_def split: if_splits)
  qed
  then show ?case by (auto simp: checked_ok_def)
next
  case (flush s freeze r db)
  then show ?case by (simp add: checked_ok_def split: sum.split)
next
  case (finish s rq seq ts r db)
  then show ?case by (simp add: checked_ok_def split: sum.split)
qed (auto simp: checked_ok_def apply_frame)

end
