(* ===== verification/Serializability.thy ===== *)
theory Serializability
  imports Isolation
begin

section \<open>What isolation guarantees\<close>

text \<open>
  The invariants of the interleaving that speak of what transactions read and wrote, and the
  properties of every reachable state.
\<close>

subsection \<open>What the transactions read and write is registered\<close>

definition tracked_keys :: "transaction_state \<Rightarrow> bytes set" where
  "tracked_keys x = ts_read_keys x \<union> {k. \<exists>r\<in>set (ts_read_ranges x). contains r k}"

definition scanned_keys :: "db_transaction \<Rightarrow> bytes set" where
  "scanned_keys t = {k. \<exists>r\<in>set (dt_range_trackers t). contains r k}"

definition open_ok :: "transaction_state \<Rightarrow> bytes set \<Rightarrow> db_transaction \<Rightarrow> bool" where
  "open_ok x reads t \<longleftrightarrow> batch_ok (dt_write_batch t)
     \<and> (dt_isolation_level t = SerializableSnapshot \<longrightarrow> reads \<subseteq> tracked_keys x \<union> scanned_keys t)"

definition requested_ok :: "transaction_state \<Rightarrow> bytes set \<Rightarrow> db_transaction \<Rightarrow> bool" where
  "requested_ok x reads t \<longleftrightarrow> batch_ok (dt_write_batch t)
     \<and> (dt_isolation_level t = SerializableSnapshot \<longrightarrow> reads \<subseteq> tracked_keys x)
     \<and> batch_keys (dt_write_batch t) - dt_untracked_write_keys t \<subseteq> ts_write_keys x"

definition request_ok :: "write_batch_request \<Rightarrow> bool" where
  "request_ok rq \<longleftrightarrow> batch_ok (rq_batch rq) \<and> (\<forall>t. rq_txn rq = Some t \<longrightarrow> rq_batch rq = dt_write_batch t)"

definition registered_ok :: "('m, 'w) system \<Rightarrow> bool" where
  "registered_ok s \<longleftrightarrow>
     (\<forall>t\<in>set (sy_open s). \<forall>x. active s (dt_txn_id t) = Some x \<longrightarrow> open_ok x (sy_reads s (dt_txn_id t)) t)
     \<and> (\<forall>t\<in>set (requested s). \<forall>x. active s (dt_txn_id t) = Some x \<longrightarrow> requested_ok x (sy_reads s (dt_txn_id t)) t)
     \<and> (\<forall>rq\<in>set (pending_request (sy_writer s) @ sy_queue s). request_ok rq)"

lemma registered_okD:
  assumes "registered_ok s"
  shows "t \<in> set (sy_open s) \<Longrightarrow> active s (dt_txn_id t) = Some x \<Longrightarrow> open_ok x (sy_reads s (dt_txn_id t)) t"
    "t \<in> set (requested s) \<Longrightarrow> active s (dt_txn_id t) = Some x \<Longrightarrow> requested_ok x (sy_reads s (dt_txn_id t)) t"
    "rq \<in> set (pending_request (sy_writer s) @ sy_queue s) \<Longrightarrow> request_ok rq"
  using assms unfolding registered_ok_def by blast+




lemma tracked_keys_read [simp]: "tracked_keys (state_track_read_keys ks x) = ks \<union> tracked_keys x"
  by (auto simp: tracked_keys_def state_track_read_keys_def)

lemma open_unique:
  assumes "owned_ok s" "t \<in> set (sy_open s)" "u \<in> set (sy_open s)" "dt_txn_id u = dt_txn_id t"
  shows "u = t"
proof -
  from owned_okD(1) [OF assms(1)] have "inj_on dt_txn_id (set (sy_open s))" by (simp add: live_txns_def distinct_map inj_on_Un)
  with assms(2-4) show ?thesis by (meson inj_onD)
qed





subsection \<open>No committed transaction was overtaken\<close>





subsection \<open>The rows of the database come from the log\<close>

definition db_tables :: "'m db_state \<Rightarrow> 'm kv_table list" where
  "db_tables d = ds_memtable d # map imm_table (ds_imm_memtable d)"

definition db_rows :: "'m skip_map \<Rightarrow> 'm db_state \<Rightarrow> row_entry list" where
  "db_rows om d = concat (map (memtable_rows om) (db_tables d))"

lemma merged_rows_members:
  assumes "\<forall>r\<in>set rs. re_seq r = seq \<and> re_key r \<in> K"
  shows "\<forall>r\<in>set (merged_rows f dexp barrier rs). re_seq r = seq \<and> re_key r \<in> K"
  using assms
proof (induction f dexp barrier rs rule: merged_rows.induct)
  case (2 f dexp barrier x xs)
  show ?case
  proof (cases "is_merge (re_value x) \<and> (case barrier of Some b \<Rightarrow> re_seq x \<le> b | None \<Rightarrow> True)")
    case True
    let ?m = "\<lambda>r. is_matching_entry dexp r (re_key x) (re_expire_ts x)"
    let ?c = "\<lambda>r. ?m r \<and> is_merge (re_value r)"
    let ?rest = "dropWhile ?c xs"
    let ?base = "base_of ?m ?rest"
    let ?ys = "if ?base = None then ?rest else tl ?rest"
    have "set (tl ys) \<subseteq> set ys" for ys :: "row_entry list" by (cases ys) auto
    moreover have "set ?rest \<subseteq> set xs" by (auto dest: set_dropWhileD)
    ultimately have "set ?ys \<subseteq> set xs" by (auto split: if_splits)
    then have "\<forall>r\<in>set ?ys. re_seq r = seq \<and> re_key r \<in> K" using 2(3) by auto
    note IH = 2(1) [OF True refl refl refl refl this]
    have head: "re_seq (merged_row f (x # takeWhile ?c xs) ?base) = seq \<and> re_key (merged_row f (x # takeWhile ?c xs) ?base) \<in> K"
      using 2(3) by (simp add: merged_row_def Let_def)
    show ?thesis unfolding merged_rows.simps if_P [OF True] Let_def list.set ball_simps using head IH by (rule conjI)
  next
    case False
    from 2(3) have x: "re_seq x = seq \<and> re_key x \<in> K" "\<forall>r\<in>set xs. re_seq r = seq \<and> re_key r \<in> K" by simp_all
    show ?thesis unfolding merged_rows.simps if_not_P [OF False] list.set ball_simps using x(1) 2(2) [OF False x(2)] by (rule conjI)
  qed
qed simp

lemma extract_rows_members:
  "extract_rows extractor rs entries segs n = Inr (es, segs', n') \<Longrightarrow> set es \<subseteq> set entries \<union> set rs"
proof (induction extractor rs entries segs n rule: extract_rows.induct)
  case (2 extractor entry rs entries segs n)
  from 2(2) obtain segs1 where "\<not> (entries \<noteq> [] \<and> re_key (last entries) = re_key entry)"
    "extract_rows extractor rs (entries @ [entry]) segs1 (n + of_nat (length (re_key entry) + value_len (re_value entry)))
      = Inr (es, segs', n')"
    by (auto simp only: extract_rows.simps bind_result_eq_Inr split: if_splits)
  from 2(1) [OF this] show ?case by auto
qed simp

text \<open>The rows of a commit have its sequence number and keys of its batch.\<close>

lemma extract_entries_members:
  assumes op: "\<And>mb. merger = Some mb \<Longrightarrow> merge_operator mb f" and ok: "batch_ok b"
    and ex: "extract_entries b seq now dttl merger extractor = Inr (es, segs, n)"
  shows "\<forall>r\<in>set es. re_seq r = seq \<and> re_key r \<in> batch_keys b"
proof -
  have all: "\<forall>r\<in>set (concat (map (group_rows seq (Some now) dttl) (wb_ops b))). re_seq r = seq \<and> re_key r \<in> batch_keys b"
    by (force simp: group_rows_def batch_keys_def)
  have some: "\<forall>r\<in>set es. re_seq r = seq \<and> re_key r \<in> batch_keys b"
    if "merge_operator mb g" "extract_entries b seq now dttl (Some mb) extractor = Inr (es, segs, n)" for mb g
  proof -
    from that(2) have "set es \<subseteq> set (merged_rows g False None (concat (map (group_rows seq (Some now) dttl) (wb_ops b))))"
      unfolding extract_entries_rows [OF that(1) ok] by (auto dest!: extract_rows_members)
    with merged_rows_members [OF all, of g False None] show ?thesis by blast
  qed
  have none: "extract_entries b seq now dttl (Some (default_merge_batch append_merge)) extractor = Inr (es, segs, n)" if "merger = None"
    using ex unfolding that extract_entries_def by (auto simp: result_simps split: if_splits)
  show ?thesis
  proof (cases merger)
    case None
    show ?thesis by (rule some [OF appending.merge_operator_axioms none [OF None]])
  next
    case (Some mb)
    show ?thesis by (rule some [OF op [OF Some]]) (use ex Some in simp)
  qed
qed

abbreviation rows_of :: "'m skip_map \<Rightarrow> ('m, 'w) system \<Rightarrow> row_entry set" where
  "rows_of om s \<equiv> set (db_rows om (dbi_state (sy_db s)))"

definition tables_ok :: "'m skip_map \<Rightarrow> ('m \<Rightarrow> bool) \<Rightarrow> 'm db_state \<Rightarrow> bool" where
  "tables_ok om valid d \<longleftrightarrow> (\<forall>t\<in>set (db_tables d). memtable_ok om valid t)"

definition put_entry :: "'m skip_map \<Rightarrow> db_settings \<Rightarrow> row_entry \<Rightarrow> 'm kv_table \<Rightarrow> 'm kv_table" where
  "put_entry om st entry t = (if se_memtable_prune_overwrites st then put_and_prune_overwritten om entry t else kv_table_put om entry t)"

context skip_map
begin

lemma put_entry_rows:
  assumes "memtable_ok om valid t"
  shows "memtable_ok om valid (put_entry om st row t)"
    "set (memtable_rows om (put_entry om st row t)) \<subseteq> insert row (set (memtable_rows om t))"
    "\<not> se_memtable_prune_overwrites st \<Longrightarrow> r \<in> set (memtable_rows om t) \<Longrightarrow> re_seq r \<noteq> re_seq row \<Longrightarrow>
      r \<in> set (memtable_rows om (put_entry om st row t))"
proof -
  have rows: "set (memtable_rows om (put_inner om row t))
      = insert row {r \<in> set (memtable_rows om t). sequenced_key_of r \<noteq> sequenced_key_of row}"
    using assms by (intro put_inner_rows) (simp add: memtable_ok_def)
  show "memtable_ok om valid (put_entry om st row t)"
    using assms by (simp add: put_entry_def kv_table_put_def put_inner_ok prune_ok)
  have "set (memtable_rows om (put_and_prune_overwritten om row t)) \<subseteq> set (memtable_rows om (put_inner om row t))"
    by (rule prune_cases [OF assms, of row]) auto
  with rows show "set (memtable_rows om (put_entry om st row t)) \<subseteq> insert row (set (memtable_rows om t))"
    by (auto simp: put_entry_def kv_table_put_def)
  show "r \<in> set (memtable_rows om (put_entry om st row t))"
    if "\<not> se_memtable_prune_overwrites st" "r \<in> set (memtable_rows om t)" "re_seq r \<noteq> re_seq row"
    using that rows by (auto simp: put_entry_def kv_table_put_def sequenced_key_of_def)
qed

lemma put_entries_rows:
  assumes "memtable_ok om valid t"
  shows "memtable_ok om valid (fold (put_entry om st) rows t)
    \<and> set (memtable_rows om (fold (put_entry om st) rows t)) \<subseteq> set rows \<union> set (memtable_rows om t)
    \<and> (\<not> se_memtable_prune_overwrites st \<longrightarrow> (\<forall>r\<in>set (memtable_rows om t). re_seq r \<notin> re_seq ` set rows \<longrightarrow>
        r \<in> set (memtable_rows om (fold (put_entry om st) rows t))))"
  using assms
proof (induction rows arbitrary: t)
  case (Cons row rows)
  note IH = Cons.IH [OF put_entry_rows(1) [OF Cons.prems, of st row]]
  have "r \<in> set (memtable_rows om (put_entry om st row t))"
    if "\<not> se_memtable_prune_overwrites st" "r \<in> set (memtable_rows om t)" "re_seq r \<notin> re_seq ` set (row # rows)" for r
    using put_entry_rows(3) [OF Cons.prems that(1,2), of row] that(3) by auto
  with IH put_entry_rows(2) [OF Cons.prems, of st row] show ?case by auto
qed simp

lemma freeze_rows:
  assumes "tables_ok om valid d"
  shows "tables_ok om valid (freeze_current_memtable om w d)"
    "set (db_rows om (freeze_current_memtable om w d)) = set (db_rows om d)"
  using assms new_ok
  by (auto simp: freeze_current_memtable_def freeze_memtable_def tables_ok_def db_rows_def db_tables_def immutable_memtable_new_def)

lemma write_entries_rows:
  fixes db :: "('m, 'w) db_inner"
  assumes "tables_ok om valid (dbi_state db)" and "apply_entries om wal st rows segs db = Inr db'"
  shows "tables_ok om valid (dbi_state db')"
    "set (db_rows om (dbi_state db')) \<subseteq> set rows \<union> set (db_rows om (dbi_state db))"
    "\<not> se_memtable_prune_overwrites st \<Longrightarrow> r \<in> set (db_rows om (dbi_state db)) \<Longrightarrow> re_seq r \<notin> re_seq ` set rows \<Longrightarrow>
      r \<in> set (db_rows om (dbi_state db'))"
proof -
  let ?t = "record_touched_segments segs (ds_memtable (dbi_state db))"
  have s': "dbi_state db' = (dbi_state db)\<lparr>ds_memtable := fold (put_entry om st) rows ?t\<rparr>"
    using assms(2) by (auto simp: apply_entries_def write_entries_to_memtable_def Let_def result_simps put_entry_def [abs_def]
        split: option.splits)
  have "memtable_ok om valid ?t" using assms(1) by (simp add: tables_ok_def db_tables_def record_touched_ok)
  note p = put_entries_rows [OF this, of st rows, unfolded record_touched_rows]
  show "tables_ok om valid (dbi_state db')" using p assms(1) by (simp add: tables_ok_def db_tables_def s')
  show "set (db_rows om (dbi_state db')) \<subseteq> set rows \<union> set (db_rows om (dbi_state db))"
    using p by (auto simp: db_rows_def db_tables_def s')
  show "r \<in> set (db_rows om (dbi_state db'))"
    if "\<not> se_memtable_prune_overwrites st" "r \<in> set (db_rows om (dbi_state db))" "re_seq r \<notin> re_seq ` set rows"
    using p that by (auto simp: db_rows_def db_tables_def s')
qed

lemma finish_rows:
  fixes db :: "('m, 'w) db_inner"
  assumes "tables_ok om valid (dbi_state db)" and "finish_write om wal st timestamp ts seq db = (r, db')"
  shows "tables_ok om valid (dbi_state db') \<and> set (db_rows om (dbi_state db')) = set (db_rows om (dbi_state db))"
proof -
  have rec: "tables_ok om valid (dbi_state db1) \<and> set (db_rows om (dbi_state db1)) = set (db_rows om (dbi_state db))"
    if "record_memtable_sequence timestamp ts seq db = Inr db1" for db1
    using that assms(1)
    by (auto simp: record_memtable_sequence_def record_sequence_def result_simps tables_ok_def db_rows_def db_tables_def
        memtable_ok_frame memtable_rows_def)
  have "tables_ok om valid (dbi_state db2) \<and> set (db_rows om (dbi_state db2)) = set (db_rows om (dbi_state db1))"
    if "maybe_freeze_current_memtable om wal st db1 = Inr db2" "tables_ok om valid (dbi_state db1)" for db1 db2 :: "('m, 'w) db_inner"
    using that freeze_rows by (auto simp: maybe_freeze_current_memtable_def Let_def result_simps split: if_splits)
  with rec assms show ?thesis by (auto simp: finish_write_def split: sum.splits)
qed

lemma flush_rows:
  fixes db :: "('m, 'w) db_inner"
  assumes "tables_ok om valid (dbi_state db)" and "flush_batch_writer om wal fr db = (r, db')"
  shows "tables_ok om valid (dbi_state db') \<and> set (db_rows om (dbi_state db')) = set (db_rows om (dbi_state db))"
  using assms freeze_rows
  by (auto simp: flush_batch_writer_def Let_def result_simps split: sum.splits if_splits option.splits)

end

definition rows_for :: "u64 \<Rightarrow> bytes set \<Rightarrow> row_entry list \<Rightarrow> bool" where
  "rows_for seq keys rows \<longleftrightarrow> (\<forall>r\<in>set rows. re_seq r = seq \<and> re_key r \<in> keys)"

definition commit_batch_keys :: "commit \<Rightarrow> bytes set" where
  "commit_batch_keys c = (case co_txn c of Some (t, _) \<Rightarrow> batch_keys (dt_write_batch t) | None \<Rightarrow> co_keys c)"

fun writer_rows :: "writer \<Rightarrow> (write_batch_request \<times> u64 \<times> row_entry list) option" where
  "writer_rows (Staged rq seq rows _) = Some (rq, seq, rows)"
| "writer_rows (Applied rq seq rows) = Some (rq, seq, rows)"
| "writer_rows _ = None"

fun applied_rows :: "writer \<Rightarrow> row_entry set" where
  "applied_rows (Applied _ _ rows) = set rows"
| "applied_rows _ = {}"

definition stored_ok :: "'m skip_map \<Rightarrow> ('m \<Rightarrow> bool) \<Rightarrow> u64 \<Rightarrow> ('m, 'w) system \<Rightarrow> bool" where
  "stored_ok om valid s0 s \<longleftrightarrow>
     tables_ok om valid (dbi_state (sy_db s))
     \<and> (\<forall>c\<in>set (sy_log s). rows_for (co_seq c) (commit_batch_keys c) (co_rows c))
     \<and> (\<forall>rq seq rows. writer_rows (sy_writer s) = Some (rq, seq, rows) \<longrightarrow> rows_for seq (batch_keys (rq_batch rq)) rows)
     \<and> (\<forall>r\<in>rows_of om s. re_seq r \<le> s0 \<or> (\<exists>c\<in>set (sy_log s). r \<in> set (co_rows c)) \<or> r \<in> applied_rows (sy_writer s))"

lemma stored_ok_same:
  "stored_ok om valid s0 s \<Longrightarrow> dbi_state (sy_db s') = dbi_state (sy_db s) \<Longrightarrow> sy_log s' = sy_log s \<Longrightarrow>
   writer_rows (sy_writer s') = None \<or> sy_writer s' = sy_writer s \<Longrightarrow> applied_rows (sy_writer s') = applied_rows (sy_writer s) \<Longrightarrow>
   stored_ok om valid s0 s'"
  unfolding stored_ok_def by auto

context skip_map
begin

lemma stored_ok_step:
  fixes s :: "('m, 'w) system"
  assumes "sys_step om wal st timestamp s s'" "stored_ok om valid s0 s" "registered_ok s"
    and op: "\<And>mb. se_merge_operator st = Some mb \<Longrightarrow> merge_operator mb f"
  shows "stored_ok om valid s0 s'"
  using assms(1-3)
proof (induction rule: sys_step.induct)
  case (stage s rq now seq rows segs)
  have "request_ok rq" by (rule registered_okD(3) [OF stage(4)]) (simp add: stage(1))
  then have "batch_ok (rq_batch rq)" by (simp add: request_ok_def)
  moreover from stage(2) obtain n where
    "extract_entries (rq_batch rq) seq now (se_default_ttl_millis st) (se_merge_operator st) (se_segment_extractor st) = Inr (rows, segs, n)"
    by (auto simp: stage_entries_def result_simps)
  ultimately have "rows_for seq (batch_keys (rq_batch rq)) rows"
    unfolding rows_for_def by (intro extract_entries_members [of _ f]) (rule op)
  with stage(3) show ?case by (simp add: stored_ok_def stage(1))
next
  case (apply_rows s rq seq rows segs db)
  from apply_rows(3) have "tables_ok om valid (dbi_state (sy_db s))" by (simp add: stored_ok_def)
  from write_entries_rows(1,2) [OF this apply_rows(2)] apply_rows(3) show ?case by (auto simp: stored_ok_def apply_rows(1))
next
  case (track s rq seq rows)
  have "request_ok rq" by (rule registered_okD(3) [OF track(3)]) (simp add: track(1))
  then have "commit_batch_keys (commit_of rq seq rows s) = batch_keys (rq_batch rq)"
    by (auto simp: commit_batch_keys_def commit_of_def request_ok_def Let_def split: option.splits)
  with track(2) show ?case by (auto simp: stored_ok_def track(1) track_commit_frame)
next
  case (finish s rq seq ts r db)
  from finish(3) have "tables_ok om valid (dbi_state (sy_db s))" by (simp add: stored_ok_def)
  from finish_rows [OF this finish(2)] finish(1,3) show ?case by (auto simp: stored_ok_def split: sum.split)
next
  case (flush s freeze r db)
  from flush(3) have "tables_ok om valid (dbi_state (sy_db s))" by (simp add: stored_ok_def)
  from flush_rows [OF this flush(2)] flush(1,3) show ?case by (auto simp: stored_ok_def split: sum.split)
qed (erule stored_ok_same; simp add: begin_frame commit_frame)+

end

subsection \<open>Every reachable state\<close>






subsection \<open>What isolation means\<close>






subsection \<open>The handler is a run of the writer\<close>

definition handled_log ::
    "'m skip_map \<Rightarrow> 'w wal_ops \<Rightarrow> db_settings \<Rightarrow> i64 \<Rightarrow> write_batch_request \<Rightarrow> ('m, 'w) system \<Rightarrow> commit list" where
  "handled_log om wal st now rq s =
     (case assign_commit_seq (rq_options rq) (dbi_oracle (sy_db s)) of
        (Inl _, _) \<Rightarrow> []
      | (Inr seq, orc) \<Rightarrow>
          (case bind_result (check_conflict (map_option dt_txn_id (rq_txn rq)) (dbi_txns (sy_db s))) (\<lambda>_.
                bind_result (stage_entries st (rq_batch rq) seq now (dbi_state (sy_db s))) (\<lambda>(rows, segs).
                bind_result (apply_entries om wal st rows segs ((sy_db s)\<lparr>dbi_oracle := orc\<rparr>)) (\<lambda>_. Inr rows))) of
             Inl _ \<Rightarrow> []
           | Inr rows \<Rightarrow> [commit_of rq seq rows s]))"

lemma write_batch_run:
  fixes s :: "('m, 'w) system"
  assumes s: "sy_writer s = Idle" "sy_queue s = rq # q" "or_last_seq (dbi_oracle (sy_db s)) \<noteq> - 1"
    and wb: "db_write_batch om wal st timestamp (Inr now) ts (rq_batch rq) (rq_options rq) (map_option dt_txn_id (rq_txn rq)) (sy_db s) = (r, db)"
  shows "rtranclp (sys_step om wal st timestamp) s
    (s\<lparr>sy_queue := q, sy_db := txn_drop (rq_txn rq) db, sy_writer := (case r of Inr _ \<Rightarrow> Idle | Inl _ \<Rightarrow> Stopped),
       sy_log := sy_log s @ handled_log om wal st now rq s\<rparr>)"
proof -
  let ?step = "sys_step om wal st timestamp"
  obtain db0 op ids rd lg where s_eq: "s = \<lparr>sy_db = db0, sy_open = op, sy_queue = rq # q, sy_writer = Idle, sy_ids = ids,
      sy_reads = rd, sy_log = lg\<rparr>" using s(1,2) by (cases s) auto
  define mk where "mk = (\<lambda>db q w lg. \<lparr>sy_db = db, sy_open = op, sy_queue = q, sy_writer = w, sy_ids = ids, sy_reads = rd, sy_log = lg\<rparr> :: ('m, 'w) system)"
  have mk [simp]: "sy_db (mk db q w lg) = db" "sy_writer (mk db q w lg) = w" "sy_queue (mk db q w lg) = q" "sy_log (mk db q w lg) = lg"
    "sy_reads (mk db q w lg) = rd" "(mk db q w lg)\<lparr>sy_db := db'\<rparr> = mk db' q w lg" "(mk db q w lg)\<lparr>sy_writer := w'\<rparr> = mk db q w' lg"
    "(mk db q w lg)\<lparr>sy_queue := q'\<rparr> = mk db q' w lg" "(mk db q w lg)\<lparr>sy_log := lg'\<rparr> = mk db q w lg'"
    for db db' q q' w w' lg lg' by (simp_all add: mk_def)
  have s_mk: "s = mk db0 (rq # q) Idle lg" by (simp add: s_eq mk_def)
  let ?txn = "map_option dt_txn_id (rq_txn rq)"
  obtain a orc where a: "assign_commit_seq (rq_options rq) (dbi_oracle db0) = (a, orc)" by fastforce
  let ?db = "db0\<lparr>dbi_oracle := orc\<rparr>"
  note wb = wb [unfolded db_write_batch_def sum.case Let_def s_mk mk a prod.case]
  note into = converse_rtranclp_into_rtranclp [where r = ?step]
  note once = r_into_rtranclp [where r = ?step]
  show ?thesis
  proof (cases a)
    case (Inl e)
    have e: "?step s (mk (txn_drop (rq_txn rq) ?db) q Idle lg)"
      using sys_step.assign_error [of s rq q e orc om wal st timestamp] a Inl by (simp add: s_mk)
    from wb once [OF e] show ?thesis by (auto simp: a Inl handled_log_def s_mk)
  next
    case (Inr seq)
    have 1: "?step s (mk ?db q (Assigned rq now seq) lg)"
      using sys_step.assign [of s rq q seq orc om wal st timestamp now] a Inr s(3) by (simp add: s_mk)
    show ?thesis
    proof (cases "check_conflict ?txn (dbi_txns db0)")
      case (Inl e)
      have e: "?step (mk ?db q (Assigned rq now seq) lg) (mk (txn_drop (rq_txn rq) ?db) q Idle lg)"
        using sys_step.check_error [of "mk ?db q (Assigned rq now seq) lg" rq now seq e om wal st timestamp] Inl by simp
      from wb into [OF 1 once [OF e]] show ?thesis by (auto simp: a Inr Inl handled_log_def s_mk)
    next
      case ok: (Inr u)
      have 2: "?step (mk ?db q (Assigned rq now seq) lg) (mk ?db q (Checked rq now seq) lg)"
        using sys_step.check [of "mk ?db q (Assigned rq now seq) lg" rq now seq om wal st timestamp] ok by simp
      show ?thesis
      proof (cases "stage_entries st (rq_batch rq) seq now (dbi_state db0)")
        case (Inl e)
        have e: "?step (mk ?db q (Checked rq now seq) lg) (mk (txn_drop (rq_txn rq) ?db) q Idle lg)"
          using sys_step.stage_error [of "mk ?db q (Checked rq now seq) lg" rq now seq st e om wal timestamp] Inl by simp
        from wb into [OF 1 into [OF 2 once [OF e]]] show ?thesis by (auto simp: a Inr ok Inl handled_log_def s_mk)
      next
        case staged: (Inr p)
        obtain rows segs where p: "p = (rows, segs)" by fastforce
        have 3: "?step (mk ?db q (Checked rq now seq) lg) (mk ?db q (Staged rq seq rows segs) lg)"
          using sys_step.stage [of "mk ?db q (Checked rq now seq) lg" rq now seq st rows segs om wal timestamp] staged p by simp
        show ?thesis
        proof (cases "apply_entries om wal st rows segs ?db")
          case (Inl e)
          have e: "?step (mk ?db q (Staged rq seq rows segs) lg) (mk (txn_drop (rq_txn rq) ?db) q Stopped lg)"
            using sys_step.apply_error [of "mk ?db q (Staged rq seq rows segs) lg" rq seq rows segs om wal st e timestamp] Inl by simp
          from wb into [OF 1 into [OF 2 into [OF 3 once [OF e]]]] show ?thesis by (auto simp: a Inr ok staged p Inl handled_log_def s_mk)
        next
          case applied: (Inr db1)
          let ?lg = "lg @ [commit_of rq seq rows s]"
          have 4: "?step (mk ?db q (Staged rq seq rows segs) lg) (mk db1 q (Applied rq seq rows) lg)"
            using sys_step.apply_rows [of "mk ?db q (Staged rq seq rows segs) lg" rq seq rows segs om wal st db1 timestamp] applied by simp
          have same: "commit_of rq seq rows (mk db1 q (Applied rq seq rows) lg) = commit_of rq seq rows s"
            by (simp add: commit_of_def s_mk apply_frame [OF applied] split: option.split)
          have 5: "?step (mk db1 q (Applied rq seq rows) lg) (mk (track_commit ?txn (batch_keys (rq_batch rq)) seq db1) q (Tracked rq seq) ?lg)"
            using sys_step.track [of "mk db1 q (Applied rq seq rows) lg" rq seq rows om wal st timestamp] by (simp add: same)
          obtain r' db2 where f: "finish_write om wal st timestamp ts seq (track_commit ?txn (batch_keys (rq_batch rq)) seq db1) = (r', db2)" by fastforce
          have 6: "?step (mk (track_commit ?txn (batch_keys (rq_batch rq)) seq db1) q (Tracked rq seq) ?lg)
              (mk (txn_drop (rq_txn rq) db2) q (case r' of Inr _ \<Rightarrow> Idle | Inl _ \<Rightarrow> Stopped) ?lg)"
            using sys_step.finish [of "mk (track_commit ?txn (batch_keys (rq_batch rq)) seq db1) q (Tracked rq seq) ?lg" rq seq om wal st timestamp ts r' db2] f
            by simp
          have "rtranclp ?step s (mk (txn_drop (rq_txn rq) db2) q (case r' of Inr _ \<Rightarrow> Idle | Inl _ \<Rightarrow> Stopped) ?lg)"
            by (rule into [OF 1 into [OF 2 into [OF 3 into [OF 4 into [OF 5 once [OF 6]]]]]])
          with wb show ?thesis by (auto simp: a Inr ok staged p applied f handled_log_def s_mk split: sum.splits)
        qed
      qed
    qed
  qed
qed

text \<open>
  C10: handling a request without interruption, as \<open>db_write_batch\<close> does, is a run of the interleaved
  system: it ends with the writer idle, or stopped after an error of the WAL, the request answered
  and its transaction dropped, and exactly the commit that succeeded in the log. What holds in all
  interleavings therefore holds of the handler.
\<close>

theorem write_batch_steps:
  fixes s :: "('m, 'w) system"
  assumes s: "sy_writer s = Idle" "sy_queue s = rq # q" "or_last_seq (dbi_oracle (sy_db s)) \<noteq> - 1"
    and wb: "db_write_batch om wal st timestamp (Inr now) ts (rq_batch rq) (rq_options rq) (map_option dt_txn_id (rq_txn rq)) (sy_db s) = (r, db)"
  shows "rtranclp (sys_step om wal st timestamp) s
    (s\<lparr>sy_queue := q, sy_db := txn_drop (rq_txn rq) db, sy_writer := (case r of Inr _ \<Rightarrow> Idle | Inl _ \<Rightarrow> Stopped),
       sy_log := sy_log s @ handled_log om wal st now rq s\<rparr>)"
  by (rule write_batch_run [OF assms])

subsection \<open>A run with two commits\<close>

text \<open>A plain write of a key, then a serializable transaction that reads and overwrites it.\<close>

definition sample_settings :: db_settings where
  "sample_settings = \<lparr>se_default_ttl_millis = None, se_memtable_prune_overwrites = False, se_l0_sst_size_bytes = 1000,
     se_merge_operator = None, se_segment_extractor = None, se_estimate_encoded_size = (\<lambda>_ n. n)\<rparr>"

definition sample_wal :: "unit wal_ops" where
  "sample_wal = \<lparr>wo_append = (\<lambda>_ w. Inr w), wo_should_flush_memtable = (\<lambda>_ _. False), wo_flush = (\<lambda>w. Inr (0, w)),
     wo_last_flushed_wal_id = (\<lambda>_. Inr 0)\<rparr>"

type_synonym sample_db = "((sequenced_key \<times> row_entry) list, unit) db_inner"
type_synonym sample_system = "((sequenced_key \<times> row_entry) list, unit) system"

definition sample_db :: "row_entry list \<Rightarrow> u64 \<Rightarrow> transaction_manager \<Rightarrow> sample_db" where
  "sample_db rows seq tm =
     \<lparr>dbi_state =
        \<lparr>ds_memtable = (kv_table_new btree)
           \<lparr>kt_map := map (\<lambda>r. (sequenced_key_of r, r)) rows, kt_entries_size := of_nat (18 * length rows),
            kt_last_tick := (if rows = [] then 2 ^ 63 else 0), kt_last_seq := (if rows = [] then 0 else seq),
            kt_first_seq := (if rows = [] then - 1 else 6),
            kt_sequence_tracker := (if rows = [] then sequence_tracker_new else
              sequence_tracker_new\<lparr>st_sequence_numbers := [6], st_timestamps := [0], st_last_recorded_ts := Some 0\<rparr>)\<rparr>,
         ds_imm_memtable = [], ds_replay_after_wal_id = 0, ds_segments = []\<rparr>,
      dbi_oracle = \<lparr>or_last_seq = seq, or_last_committed_seq = seq, or_last_durable_seq = 0, or_reported_durable_seq = 0\<rparr>,
      dbi_txns = tm, dbi_wal = None, dbi_last_flushed_wal_id = Inr 0, dbi_memtable_segments = {}, dbi_closed = None\<rparr>"

definition sample_put_row :: "byte \<Rightarrow> u64 \<Rightarrow> row_entry" where
  "sample_put_row v seq = \<lparr>re_key = [1], re_value = Value [v], re_seq = seq, re_create_ts = Some 0, re_expire_ts = None\<rparr>"

definition sample_put_batch :: "byte \<Rightarrow> write_batch" where
  "sample_put_batch v = \<lparr>wb_ops = [([1], [WPut [v] \<lparr>po_ttl = NoExpiry\<rparr>])], wb_op_count = 1, wb_has_merge_ops = False\<rparr>"




lemma sample_write:
  "db_write_batch btree sample_wal sample_settings id (Inr 0) 0 (sample_put_batch 7) \<lparr>wop_seqnum = 0\<rparr> None (sample_db [] 5 transaction_manager_new)
    = (Inr (Inr (6, 0)), sample_db [sample_put_row 7 6] 6 transaction_manager_new)"
  by code_simp


definition sample_system ::
    "sample_db \<Rightarrow> db_transaction list \<Rightarrow> write_batch_request list \<Rightarrow> uuid set \<Rightarrow> (uuid \<Rightarrow> bytes set) \<Rightarrow> commit list \<Rightarrow> sample_system" where
  "sample_system db txns rqs ids reads lg =
     \<lparr>sy_db = db, sy_open = txns, sy_queue = rqs, sy_writer = Idle, sy_ids = ids, sy_reads = reads, sy_log = lg\<rparr>"

definition sample_request :: "byte \<Rightarrow> db_transaction option \<Rightarrow> write_batch_request" where
  "sample_request v txn = \<lparr>rq_batch = sample_put_batch v, rq_options = \<lparr>wop_seqnum = 0\<rparr>, rq_txn = txn\<rparr>"

definition sample_commit1 :: commit where
  "sample_commit1 = \<lparr>co_seq = 6, co_keys = {[1]}, co_rows = [sample_put_row 7 6], co_txn = None, co_reads = {}\<rparr>"



lemma sample_log1:
  "handled_log btree sample_wal sample_settings 0 (sample_request 7 None)
     (sample_system (sample_db [] 5 transaction_manager_new) [] [sample_request 7 None] {} (\<lambda>_. {}) []) = [sample_commit1]"
  by code_simp


abbreviation sample_step :: "sample_system \<Rightarrow> sample_system \<Rightarrow> bool" where
  "sample_step \<equiv> sys_step btree sample_wal sample_settings id"




definition sample_start :: sample_system where
  "sample_start = sample_system (sample_db [] 5 transaction_manager_new) [] [] {} (\<lambda>_. {}) []"

definition sample_middle :: sample_system where
  "sample_middle = sample_system (sample_db [sample_put_row 7 6] 6 transaction_manager_new) [] [] {} (\<lambda>_. {}) [sample_commit1]"







text \<open>Witness of C10: the request of the plain write, handled from the state that holds it.\<close>

theorem write_batch_steps_witness:
  "rtranclp sample_step (sample_start\<lparr>sy_queue := [sample_request 7 None]\<rparr>) sample_middle"
proof -
  let ?s = "sample_start\<lparr>sy_queue := [sample_request 7 None]\<rparr>"
  have "or_last_seq (dbi_oracle (sy_db ?s)) \<noteq> - 1" by (simp add: sample_start_def sample_system_def sample_db_def)
  from write_batch_steps [where s = ?s and om = btree and wal = sample_wal and st = sample_settings and timestamp = id
      and now = 0 and ts = 0 and rq = "sample_request 7 None" and q = "[]", OF _ _ this] sample_write sample_log1
  show ?thesis by (simp add: sample_start_def sample_middle_def sample_system_def sample_request_def txn_drop_def)
qed

end
