(* ===== verification/Progress.thy ===== *)
theory Progress
  imports Serializability
begin
















end
