(* ===== verification/StoreProgram.thy ===== *)
theory StoreProgram
  imports Prelude
begin

section \<open>Programs that call a service\<close>

text \<open>
  Asynchronous code that awaits the answers of a service which other processes use at the same time:
  a program is finished, makes a silent step, or makes a call and goes on with the answer. Between
  two calls everybody else may act, so a program says nothing of the state of the service; what it
  may rely on is the subject of the rules below. A loop need not end.
\<close>

codatatype ('q, 'r, 'a) prog =
    Ret 'a
  | Tau "('q, 'r, 'a) prog"
  | Call 'q "'r \<Rightarrow> ('q, 'r, 'a) prog"

primcorec prog_bind :: "('q, 'r, 'a) prog \<Rightarrow> ('a \<Rightarrow> ('q, 'r, 'b) prog) \<Rightarrow> ('q, 'r, 'b) prog" where
  "prog_bind p f =
     (case p of
        Ret a \<Rightarrow> f a
      | Tau p \<Rightarrow> Tau (prog_bind p f)
      | Call q c \<Rightarrow> Call q (\<lambda>r. prog_bind (c r) f))"

primcorec iterate_from :: "('x \<Rightarrow> ('q, 'r, 'x + 'a) prog) \<Rightarrow> ('q, 'r, 'x + 'a) prog \<Rightarrow> ('q, 'r, 'a) prog" where
  "iterate_from body p =
     (case p of
        Ret r \<Rightarrow> (case r of Inl x \<Rightarrow> Tau (iterate_from body (body x)) | Inr a \<Rightarrow> Ret a)
      | Tau p \<Rightarrow> Tau (iterate_from body p)
      | Call q c \<Rightarrow> Call q (\<lambda>r. iterate_from body (c r)))"

definition iterate :: "('x \<Rightarrow> ('q, 'r, 'x + 'a) prog) \<Rightarrow> 'x \<Rightarrow> ('q, 'r, 'a) prog" where
  "iterate body x = iterate_from body (body x)"

lemma prog_bind_simps [simp]:
  "prog_bind (Ret a) f = f a"
  "prog_bind (Tau p) f = Tau (prog_bind p f)"
  "prog_bind (Call q c) f = Call q (\<lambda>r. prog_bind (c r) f)"
  by (subst prog_bind.code, simp)+

lemma iterate_from_simps [simp]:
  "iterate_from body (Ret (Inl x)) = Tau (iterate_from body (body x))"
  "iterate_from body (Ret (Inr a)) = Ret a"
  "iterate_from body (Tau p) = Tau (iterate_from body p)"
  "iterate_from body (Call q c) = Call q (\<lambda>r. iterate_from body (c r))"
  by (subst iterate_from.code, simp)+

lemma prog_bind_Ret: "prog_bind p Ret = p"
  by (coinduction arbitrary: p rule: prog.coinduct_strong) (auto split: prog.splits simp: rel_fun_def)

text \<open>
  Fallible actions on a local state: an error leaves the state as it is at that point. A loop runs its
  body until it breaks with a value (\<open>Inr\<close>) or fails.
\<close>

type_synonym ('q, 'r, 'e, 's, 'a) action = "'s \<Rightarrow> ('q, 'r, ('e + 'a) \<times> 's) prog"

definition ok :: "'a \<Rightarrow> ('q, 'r, 'e, 's, 'a) action" where
  "ok a s = Ret (Inr a, s)"

definition fail :: "'e \<Rightarrow> ('q, 'r, 'e, 's, 'a) action" where
  "fail e s = Ret (Inl e, s)"

definition await :: "'q \<Rightarrow> ('r \<Rightarrow> ('q, 'r, 'e, 's, 'a) action) \<Rightarrow> ('q, 'r, 'e, 's, 'a) action" where
  "await q f s = Call q (\<lambda>r. f r s)"

definition modify :: "('s \<Rightarrow> 's) \<Rightarrow> ('q, 'r, 'e, 's, unit) action" where
  "modify f s = Ret (Inr (), f s)"

definition get_state :: "('q, 'r, 'e, 's, 's) action" where
  "get_state s = Ret (Inr s, s)"

definition attempt :: "('q, 'r, 'e, 's, 'a) action \<Rightarrow> ('e + 'a \<Rightarrow> ('q, 'r, 'e, 's, 'b) action) \<Rightarrow> ('q, 'r, 'e, 's, 'b) action" where
  "attempt m f s = prog_bind (m s) (\<lambda>(r, s). f r s)"

definition bind_ok :: "('q, 'r, 'e, 's, 'a) action \<Rightarrow> ('a \<Rightarrow> ('q, 'r, 'e, 's, 'b) action) \<Rightarrow> ('q, 'r, 'e, 's, 'b) action" where
  "bind_ok m f = attempt m (\<lambda>r. case r of Inl e \<Rightarrow> fail e | Inr a \<Rightarrow> f a)"

definition loop :: "('x \<Rightarrow> ('q, 'r, 'e, 's, 'x + 'a) action) \<Rightarrow> 'x \<Rightarrow> ('q, 'r, 'e, 's, 'a) action" where
  "loop body x s =
     iterate (\<lambda>(x, s). prog_bind (body x s) (\<lambda>(r, s). Ret
       (case r of
          Inl e \<Rightarrow> Inr (Inl e, s)
        | Inr (Inl x) \<Rightarrow> Inl (x, s)
        | Inr (Inr a) \<Rightarrow> Inr (Inr a, s)))) (x, s)"

lemma bind_ok_get_state: "bind_ok get_state f s = f s s"
  by (simp add: get_state_def attempt_def bind_ok_def)

lemma bind_ok_modify: "bind_ok (modify u) f s = f () (u s)"
  by (simp add: modify_def attempt_def bind_ok_def)

lemma bind_ok_Ret: "bind_ok (ok a) f s = f a s" "bind_ok (fail e) f s = Ret (Inl e, s)"
  by (simp_all add: ok_def fail_def attempt_def bind_ok_def)

lemma attempt_Ret: "attempt (ok a) f s = f (Inr a) s" "attempt (fail e) f s = f (Inl e) s"
  by (simp_all add: ok_def fail_def attempt_def)

lemmas action_simps = ok_def fail_def modify_def await_def bind_ok_get_state bind_ok_modify bind_ok_Ret attempt_Ret

text \<open>An action on a part of the state.\<close>

definition on_part :: "('s \<Rightarrow> 't) \<Rightarrow> (('t \<Rightarrow> 't) \<Rightarrow> 's \<Rightarrow> 's) \<Rightarrow> ('q, 'r, 'e, 't, 'a) action \<Rightarrow> ('q, 'r, 'e, 's, 'a) action" where
  "on_part get upd m s = prog_bind (m (get s)) (\<lambda>(r, t). Ret (r, upd (\<lambda>_. t) s))"

subsection \<open>Relying on what others keep\<close>

text \<open>
  What holds of the service is described by a ghost state. Others only ever extend it. A call must be
  permitted in whatever extension it finds, and the program goes on with any answer the service may
  give there. \<open>safe\<close> says that a program started in a ghost state makes permitted calls only and
  ends with a result that satisfies the postcondition.
\<close>

locale rely =
  fixes extends :: "'g \<Rightarrow> 'g \<Rightarrow> bool"
    and permitted :: "'g \<Rightarrow> 'q \<Rightarrow> bool"
    and answers :: "'g \<Rightarrow> 'q \<Rightarrow> 'r \<Rightarrow> 'g \<Rightarrow> bool"
  assumes extends_refl: "extends g g"
    and extends_trans: "extends g g' \<Longrightarrow> extends g' g'' \<Longrightarrow> extends g g''"
    and answers_extend: "permitted g q \<Longrightarrow> answers g q r g' \<Longrightarrow> extends g g'"
begin

coinductive safe :: "('g \<Rightarrow> 'a \<Rightarrow> bool) \<Rightarrow> 'g \<Rightarrow> ('q, 'r, 'a) prog \<Rightarrow> bool"
  for Q where
  safe_Ret: "Q g a \<Longrightarrow> safe Q g (Ret a)"
| safe_Tau: "safe Q g p \<Longrightarrow> safe Q g (Tau p)"
| safe_Call: "(\<And>g'. extends g g' \<Longrightarrow> permitted g' q \<and> (\<forall>r g''. answers g' q r g'' \<longrightarrow> safe Q g'' (c r)))
    \<Longrightarrow> safe Q g (Call q c)"

inductive_cases safe_RetE: "safe Q g (Ret a)"
inductive_cases safe_TauE: "safe Q g (Tau p)"
inductive_cases safe_CallE: "safe Q g (Call q c)"

lemma safe_bind:
  assumes "safe R g p" "\<And>g a. R g a \<Longrightarrow> safe Q g (f a)"
  shows "safe Q g (prog_bind p f)"
proof -
  define X where "X = (\<lambda>g u. (\<exists>p. safe R g p \<and> u = prog_bind p f))"
  have "X g (prog_bind p f)" using assms(1) by (auto simp: X_def)
  then show ?thesis
  proof (coinduct rule: safe.coinduct)
    case (safe g u)
    then obtain p where p: "safe R g p" "u = prog_bind p f" by (auto simp: X_def)
    show ?case
    proof (cases p)
      case (Ret a)
      with p(1) have "R g a" by (auto elim: safe_RetE)
      from assms(2) [OF this] have "safe Q g (f a)" .
      moreover have "u = f a" using p(2) Ret by simp
      ultimately show ?thesis by (cases rule: safe.cases) auto
    next
      case (Tau p')
      with p show ?thesis by (auto simp: X_def elim: safe_TauE)
    next
      case (Call q c)
      with p(1) have "extends g g' \<Longrightarrow> permitted g' q \<and> (\<forall>r g''. answers g' q r g'' \<longrightarrow> safe R g'' (c r))" for g'
        by (auto elim: safe_CallE)
      with p(2) Call show ?thesis by (auto simp: X_def)
    qed
  qed
qed

lemma safe_iterate_from:
  assumes "safe (\<lambda>g r. case r of Inl x \<Rightarrow> J g x | Inr a \<Rightarrow> Q g a) g p"
    and body: "\<And>g x. J g x \<Longrightarrow> safe (\<lambda>g r. case r of Inl x \<Rightarrow> J g x | Inr a \<Rightarrow> Q g a) g (body x)"
  shows "safe Q g (iterate_from body p)"
proof -
  let ?R = "\<lambda>g r. case r of Inl x \<Rightarrow> J g x | Inr a \<Rightarrow> Q g a"
  define X where "X = (\<lambda>g u. (\<exists>p. safe ?R g p \<and> u = iterate_from body p))"
  have "X g (iterate_from body p)" using assms(1) by (auto simp: X_def)
  then show ?thesis
  proof (coinduct rule: safe.coinduct)
    case (safe g u)
    then obtain p where p: "safe ?R g p" "u = iterate_from body p" by (auto simp: X_def)
    show ?case
    proof (cases p)
      case (Ret r)
      with p(1) have r: "?R g r" by (auto elim: safe_RetE)
      show ?thesis
      proof (cases r)
        case (Inl x)
        with r body have "safe ?R g (body x)" by simp
        then show ?thesis using p(2) Ret Inl by (auto simp: X_def)
      next
        case (Inr a)
        with r p(2) Ret show ?thesis by simp
      qed
    next
      case (Tau p')
      with p show ?thesis by (auto simp: X_def elim: safe_TauE)
    next
      case (Call q c)
      with p(1) have "extends g g' \<Longrightarrow> permitted g' q \<and> (\<forall>r g''. answers g' q r g'' \<longrightarrow> safe ?R g'' (c r))" for g'
        by (auto elim: safe_CallE)
      with p(2) Call show ?thesis by (auto simp: X_def)
    qed
  qed
qed

text \<open>Specifications of actions, on the ghost state and the local state.\<close>

definition spec :: "('g \<Rightarrow> 's \<Rightarrow> bool) \<Rightarrow> ('q, 'r, 'e, 's, 'a) action \<Rightarrow> ('g \<Rightarrow> 'e + 'a \<Rightarrow> 's \<Rightarrow> bool) \<Rightarrow> bool" where
  "spec P m Q \<longleftrightarrow> (\<forall>g s. P g s \<longrightarrow> safe (\<lambda>g (r, s). Q g r s) g (m s))"

lemma safe_mono: "safe Q g p \<Longrightarrow> (\<And>g a. Q g a \<Longrightarrow> Q' g a) \<Longrightarrow> safe Q' g p"
  using safe_bind [of Q g p Q' Ret] by (metis prog_bind_Ret safe_Ret)

lemma spec_mono:
  "spec P m Q \<Longrightarrow> (\<And>g s. P' g s \<Longrightarrow> P g s) \<Longrightarrow> (\<And>g r s. Q g r s \<Longrightarrow> Q' g r s) \<Longrightarrow> spec P' m Q'"
  unfolding spec_def by (blast intro: safe_mono)

lemma spec_ok: "(\<And>g s. P g s \<Longrightarrow> Q g (Inr a) s) \<Longrightarrow> spec P (ok a) Q"
  by (simp add: spec_def ok_def safe_Ret)

lemma spec_fail: "(\<And>g s. P g s \<Longrightarrow> Q g (Inl e) s) \<Longrightarrow> spec P (fail e) Q"
  by (simp add: spec_def fail_def safe_Ret)

lemma spec_modify: "(\<And>g s. P g s \<Longrightarrow> Q g (Inr ()) (f s)) \<Longrightarrow> spec P (modify f) Q"
  by (simp add: spec_def modify_def safe_Ret)

lemma spec_attempt: "spec P m R \<Longrightarrow> (\<And>r. spec (\<lambda>g s. R g r s) (f r) Q) \<Longrightarrow> spec P (attempt m f) Q"
  unfolding spec_def attempt_def by (fastforce intro: safe_bind)

lemma spec_bind_ok:
  assumes "spec P m R" "\<And>g e s. R g (Inl e) s \<Longrightarrow> Q g (Inl e) s" "\<And>a. spec (\<lambda>g s. R g (Inr a) s) (f a) Q"
  shows "spec P (bind_ok m f) Q"
  unfolding bind_ok_def using assms(2,3)
  by (intro spec_attempt [OF assms(1)]) (auto split: sum.split intro: spec_fail)

lemma spec_get_state: "(\<And>s0. spec (\<lambda>g s. P g s \<and> s = s0) (f s0) Q) \<Longrightarrow> spec P (bind_ok get_state f) Q"
  by (rule spec_bind_ok [where R = "\<lambda>g r s. P g s \<and> r = Inr s"])
     (auto simp: spec_def get_state_def safe_Ret)

lemma spec_await:
  assumes "\<And>g g' s. P g s \<Longrightarrow> extends g g' \<Longrightarrow> P g' s \<and> permitted g' q"
    and "\<And>r. spec (\<lambda>g s. \<exists>g'. P g' s \<and> answers g' q r g) (f r) Q"
  shows "spec P (await q f) Q"
  unfolding spec_def await_def using assms unfolding spec_def by (blast intro: safe_Call)

lemma spec_loop:
  assumes "\<And>x. spec (J x) (body x)
    (\<lambda>g r s. case r of Inl e \<Rightarrow> Q g (Inl e) s | Inr (Inl x) \<Rightarrow> J x g s | Inr (Inr a) \<Rightarrow> Q g (Inr a) s)"
  shows "spec (J x) (loop body x) Q"
  unfolding spec_def
proof (intro allI impI)
  fix g s assume J: "J x g s"
  let ?J = "\<lambda>g (x, s). J x g s" and ?Q = "\<lambda>g (r, s). Q g r s"
  let ?body = "\<lambda>(x, s). prog_bind (body x s) (\<lambda>(r, s). Ret
       (case r of Inl e \<Rightarrow> Inr (Inl e, s) | Inr (Inl x) \<Rightarrow> Inl (x, s) | Inr (Inr a) \<Rightarrow> Inr (Inr a, s)))"
  have "safe (\<lambda>g r. case r of Inl x \<Rightarrow> ?J g x | Inr a \<Rightarrow> ?Q g a) g (?body x)" if "?J g x" for g x
  proof -
    obtain x' s' where x: "x = (x', s')" by fastforce
    from assms that have "safe (\<lambda>g (r, s). case r of Inl e \<Rightarrow> Q g (Inl e) s | Inr (Inl x) \<Rightarrow> J x g s | Inr (Inr a) \<Rightarrow> Q g (Inr a) s) g (body x' s')"
      by (simp add: spec_def x)
    then show ?thesis unfolding x prod.case
      by (rule safe_bind) (auto intro!: safe_Ret split: sum.splits)
  qed
  from safe_iterate_from [where J = ?J and Q = ?Q and body = ?body, OF this [of g "(x, s)"] this] J
  show "safe ?Q g (loop body x s)" by (simp add: loop_def iterate_def)
qed

text \<open>What others keep is kept by a program as well.\<close>

lemma safe_frame:
  assumes "safe Q g p" "F g" and stable: "\<And>g g'. F g \<Longrightarrow> extends g g' \<Longrightarrow> F g'"
  shows "safe (\<lambda>g a. Q g a \<and> F g) g p"
proof -
  have "safe Q g p \<and> F g" using assms(1,2) ..
  then show ?thesis
  proof (coinduct rule: safe.coinduct)
    case (safe g p)
    show ?case
    proof (cases p)
      case (Call q c)
      with safe have "extends g g' \<Longrightarrow> permitted g' q \<and> (\<forall>r g''. answers g' q r g'' \<longrightarrow> safe Q g'' (c r))" for g'
        by (auto elim: safe_CallE)
      with Call safe stable answers_extend show ?thesis by (auto intro: extends_trans) metis
    qed (use safe in \<open>auto elim: safe_RetE safe_TauE\<close>)
  qed
qed

lemma spec_frame:
  assumes "spec P m Q" and "\<And>g g'. F g \<Longrightarrow> extends g g' \<Longrightarrow> F g'"
  shows "spec (\<lambda>g s. P g s \<and> F g) m (\<lambda>g r s. Q g r s \<and> F g)"
  unfolding spec_def
proof (intro allI impI; elim conjE)
  fix g s assume "P g s" "F g"
  with assms(1) have "safe (\<lambda>g (r, s). Q g r s) g (m s)" by (simp add: spec_def)
  from safe_frame [of _ g _ F, OF this \<open>F g\<close> assms(2)]
  show "safe (\<lambda>g (r, s). Q g r s \<and> F g) g (m s)" by (rule safe_mono) auto
qed

lemma spec_on_part:
  assumes "\<And>s0. spec (\<lambda>g t. P g s0 \<and> t = get s0) m (\<lambda>g r t. Q g r (upd (\<lambda>_. t) s0))"
  shows "spec P (on_part get upd m) Q"
  unfolding spec_def on_part_def
proof (intro allI impI)
  fix g s assume "P g s"
  with assms [of s] have "safe (\<lambda>g (r, t). Q g r (upd (\<lambda>_. t) s)) g (m (get s))" by (simp add: spec_def)
  then show "safe (\<lambda>g (r, s). Q g r s) g (prog_bind (m (get s)) (\<lambda>(r, t). Ret (r, upd (\<lambda>_. t) s)))"
    by (rule safe_bind) (auto intro: safe_Ret)
qed

end

end
