(* ===== verification/TxnObject.thy ===== *)
theory TxnObject
  imports StoreProgram OrderedMap
begin

section \<open>Transactional objects\<close>

text \<open>
  The crate \<open>slatedb-txn-obj\<close>: an object (the manifest, the state of the compactor) is kept in object
  storage as a series of files, one for each version. An update creates the file of the next version,
  which fails when another process has created it first. A garbage collector deletes old versions
  once a durable boundary is above them; a writer that created a file checks the boundary
  afterwards, since the file may have existed and been deleted before. On top of this
  an epoch stored in the object fences off processes that were replaced.

  An operation is a program that calls the object store. The files are addressed by version number:
  their names, and the text form of the boundary, are not modelled. The caches of a protocol are
  those of one process, whose operations run one after the other.
\<close>

subsection \<open>Calls to the object store\<close>

record update_version =
  uv_e_tag :: "string option"
  uv_version :: "string option"

datatype store_request =
    GetFile u64
  | CreateFile u64 bytes
  | DeleteFile u64
  | ListFiles
  | GetBoundary "string option"
  | CreateBoundary u64
  | UpdateBoundary update_version u64

datatype store_response =
    Found bytes
  | NotFound
  | Created
  | Deleted
  | Listed "u64 list"
  | BoundaryAt u64 update_version
  | NotModified
  | Stored update_version
  | AlreadyExists
  | Precondition
  | StoreError

datatype tx_error =
    ObjectStoreError
  | LatestRecordMissing
  | ObjectVersionExists
  | Fenced
  | InvalidObjectState
  | CallbackError string
  | TxPanic string

definition is_sequenced_write_conflict :: "tx_error \<Rightarrow> bool" where
  "is_sequenced_write_conflict e = (e = ObjectVersionExists)"

record 'v object_codec =
  oc_encode :: "'v \<Rightarrow> bytes"
  oc_decode :: "bytes \<Rightarrow> string + 'v"

text \<open>The state of \<open>ObjectStoreSequencedStorageProtocol\<close> and of its \<open>ObjectStoreBoundaryObject\<close>.\<close>

record protocol =
  pr_latest :: "(u64 \<times> bytes) option"
  pr_cache :: "(u64 \<times> update_version) option"

definition protocol_new :: protocol where
  "protocol_new = \<lparr>pr_latest = None, pr_cache = None\<rparr>"

type_synonym ('s, 'a) store_action = "(store_request, store_response, tx_error, 's, 'a) action"

definition initial_id :: u64 where
  "initial_id = 1"

definition next_id :: "u64 \<Rightarrow> u64" where
  "next_id ver = ver + 1"

definition MAX_PROBES :: nat where
  "MAX_PROBES = 4"

subsection \<open>The boundary\<close>

definition update_cache ::
    "u64 \<Rightarrow> update_version \<Rightarrow> protocol \<Rightarrow> (u64 \<times> update_version option) \<times> protocol" where
  "update_cache boundary version p =
     (case pr_cache p of
        Some (cached_id, cached_version) \<Rightarrow>
          if cached_id > boundary then ((cached_id, Some cached_version), p)
          else ((boundary, Some version), p\<lparr>pr_cache := Some (boundary, version)\<rparr>)
      | None \<Rightarrow> ((boundary, Some version), p\<lparr>pr_cache := Some (boundary, version)\<rparr>))"

definition read_boundary :: "(protocol, u64 \<times> update_version option) store_action" where
  "read_boundary =
     bind_ok get_state (\<lambda>p.
     await (GetBoundary (case pr_cache p of Some (_, version) \<Rightarrow> uv_e_tag version | None \<Rightarrow> None)) (\<lambda>r.
       case r of
         BoundaryAt boundary version \<Rightarrow>
           bind_ok get_state (\<lambda>p. case update_cache boundary version p of (res, p) \<Rightarrow>
           bind_ok (modify (\<lambda>_. p)) (\<lambda>_. ok res))
       | NotModified \<Rightarrow>
           bind_ok get_state (\<lambda>p.
             case pr_cache p of
               Some (boundary, version) \<Rightarrow> ok (boundary, Some version)
             | None \<Rightarrow> fail InvalidObjectState)
       | NotFound \<Rightarrow> ok (0, None)
       | _ \<Rightarrow> fail ObjectStoreError))"

definition check_boundary :: "u64 \<Rightarrow> u64 \<Rightarrow> (protocol, unit) store_action" where
  "check_boundary ver boundary = (if ver \<le> boundary then fail ObjectVersionExists else ok ())"

definition boundary_check :: "u64 \<Rightarrow> (protocol, unit) store_action" where
  "boundary_check ver =
     bind_ok get_state (\<lambda>p.
     bind_ok (case pr_cache p of Some (boundary, _) \<Rightarrow> check_boundary ver boundary | None \<Rightarrow> ok ()) (\<lambda>_.
     bind_ok read_boundary (\<lambda>(boundary, _).
     check_boundary ver boundary)))"

definition boundary_advance :: "u64 \<Rightarrow> (protocol, unit) store_action" where
  "boundary_advance boundary =
     loop (\<lambda>_.
       bind_ok get_state (\<lambda>p.
       bind_ok (case pr_cache p of Some (cached, version) \<Rightarrow> ok (cached, Some version) | None \<Rightarrow> read_boundary)
         (\<lambda>(current_boundary, current_version).
       if current_boundary \<ge> boundary then ok (Inr ())
       else
         await (case current_version of Some version \<Rightarrow> UpdateBoundary version boundary | None \<Rightarrow> CreateBoundary boundary) (\<lambda>r.
           case r of
             Stored version \<Rightarrow> bind_ok (modify (\<lambda>p. snd (update_cache boundary version p))) (\<lambda>_. ok (Inr ()))
           | AlreadyExists \<Rightarrow> bind_ok read_boundary (\<lambda>_. ok (Inl ()))
           | Precondition \<Rightarrow> bind_ok read_boundary (\<lambda>_. ok (Inl ()))
           | _ \<Rightarrow> fail ObjectStoreError)))) ()"

subsection \<open>The sequenced protocol\<close>

definition maybe_cache_latest :: "u64 \<Rightarrow> bytes \<Rightarrow> protocol \<Rightarrow> protocol" where
  "maybe_cache_latest ver bytes p =
     (if (case pr_latest p of Some (cached_id, _) \<Rightarrow> ver > cached_id | None \<Rightarrow> True)
      then p\<lparr>pr_latest := Some (ver, bytes)\<rparr> else p)"

definition invalidate_cached :: "u64 \<Rightarrow> protocol \<Rightarrow> protocol" where
  "invalidate_cached ver p =
     (if (case pr_latest p of Some (cached_id, _) \<Rightarrow> cached_id = ver | None \<Rightarrow> False)
      then p\<lparr>pr_latest := None\<rparr> else p)"

definition invalidate_cached_through :: "u64 \<Rightarrow> protocol \<Rightarrow> protocol" where
  "invalidate_cached_through boundary p =
     (if (case pr_latest p of Some (cached_id, _) \<Rightarrow> cached_id \<le> boundary | None \<Rightarrow> False)
      then p\<lparr>pr_latest := None\<rparr> else p)"

definition try_read_bytes_unchecked :: "u64 \<Rightarrow> (protocol, bytes option) store_action" where
  "try_read_bytes_unchecked ver =
     await (GetFile ver) (\<lambda>r.
       case r of Found bytes \<Rightarrow> ok (Some bytes) | NotFound \<Rightarrow> ok None | _ \<Rightarrow> fail ObjectStoreError)"

definition check :: "u64 \<Rightarrow> (protocol, unit) store_action" where
  "check ver =
     attempt (boundary_check ver) (\<lambda>result.
     bind_ok (modify (\<lambda>p. if result = Inl ObjectVersionExists then invalidate_cached ver p else p)) (\<lambda>_.
     case result of Inl e \<Rightarrow> fail e | Inr _ \<Rightarrow> ok ()))"

definition advance :: "u64 \<Rightarrow> (protocol, unit) store_action" where
  "advance boundary =
     bind_ok (boundary_advance boundary) (\<lambda>_. modify (invalidate_cached_through boundary))"

definition write_unchecked :: "'v object_codec \<Rightarrow> u64 option \<Rightarrow> 'v \<Rightarrow> (protocol, u64) store_action" where
  "write_unchecked codec current_id new_value =
     (let ver = (case current_id of Some ver \<Rightarrow> next_id ver | None \<Rightarrow> initial_id);
          bytes = oc_encode codec new_value
      in await (CreateFile ver bytes) (\<lambda>r.
           case r of
             Created \<Rightarrow> bind_ok (modify (maybe_cache_latest ver bytes)) (\<lambda>_. ok ver)
           | AlreadyExists \<Rightarrow> fail ObjectVersionExists
           | _ \<Rightarrow> fail ObjectStoreError))"

definition list_files :: "u64 bound \<Rightarrow> u64 bound \<Rightarrow> (protocol, u64 list) store_action" where
  "list_files from to =
     await ListFiles (\<lambda>r.
       case r of Listed ids \<Rightarrow> ok (sort (filter (in_bounds from to) ids)) | _ \<Rightarrow> fail ObjectStoreError)"

definition decoded :: "'v object_codec \<Rightarrow> bytes \<Rightarrow> ('v \<Rightarrow> ('s, 'a) store_action) \<Rightarrow> ('s, 'a) store_action" where
  "decoded codec bytes f = (case oc_decode codec bytes of Inl e \<Rightarrow> fail (CallbackError e) | Inr v \<Rightarrow> f v)"

primrec probe_latest :: "'v object_codec \<Rightarrow> nat \<Rightarrow> u64 \<Rightarrow> bytes \<Rightarrow> (protocol, (u64 \<times> 'v) option) store_action" where
  "probe_latest codec 0 ver bytes = ok None"
| "probe_latest codec (Suc n) ver bytes =
     bind_ok (try_read_bytes_unchecked (next_id ver)) (\<lambda>next_bytes.
       case next_bytes of
         Some next_bytes \<Rightarrow>
           bind_ok (modify (maybe_cache_latest (next_id ver) next_bytes)) (\<lambda>_.
           probe_latest codec n (next_id ver) next_bytes)
       | None \<Rightarrow> decoded codec bytes (\<lambda>v. ok (Some (ver, v))))"

definition list_latest :: "'v object_codec \<Rightarrow> (protocol, (u64 \<times> 'v) option) store_action" where
  "list_latest codec =
     loop (\<lambda>_.
       bind_ok (list_files Unbounded Unbounded) (\<lambda>files.
       bind_ok get_state (\<lambda>p.
       if files = [] then
         bind_ok (case pr_latest p of Some (cached_id, _) \<Rightarrow> modify (invalidate_cached cached_id) | None \<Rightarrow> ok ())
           (\<lambda>_. ok (Inr None))
       else
         let ver = last files
         in bind_ok (case pr_latest p of
                       Some (cached_id, bytes) \<Rightarrow> if cached_id = ver then ok (Some bytes) else try_read_bytes_unchecked ver
                     | None \<Rightarrow> try_read_bytes_unchecked ver) (\<lambda>bytes.
              case bytes of
                None \<Rightarrow> ok (Inl ())
              | Some bytes \<Rightarrow>
                  decoded codec bytes (\<lambda>v.
                  bind_ok (modify (maybe_cache_latest ver bytes)) (\<lambda>_.
                  ok (Inr (Some (ver, v))))))))) ()"

definition try_read_latest_unchecked :: "'v object_codec \<Rightarrow> (protocol, (u64 \<times> 'v) option) store_action" where
  "try_read_latest_unchecked codec =
     bind_ok get_state (\<lambda>p.
       case pr_latest p of
         Some (ver, bytes) \<Rightarrow>
           bind_ok (probe_latest codec MAX_PROBES ver bytes) (\<lambda>found.
             case found of Some r \<Rightarrow> ok (Some r) | None \<Rightarrow> list_latest codec)
       | None \<Rightarrow> list_latest codec)"

definition try_read_unchecked :: "'v object_codec \<Rightarrow> u64 \<Rightarrow> (protocol, 'v option) store_action" where
  "try_read_unchecked codec ver =
     bind_ok (try_read_bytes_unchecked ver) (\<lambda>bytes.
       case bytes of Some bytes \<Rightarrow> decoded codec bytes (\<lambda>v. ok (Some v)) | None \<Rightarrow> ok None)"

definition delete_unchecked :: "u64 \<Rightarrow> (protocol, unit) store_action" where
  "delete_unchecked ver =
     await (DeleteFile ver) (\<lambda>r. case r of Deleted \<Rightarrow> modify (invalidate_cached ver) | _ \<Rightarrow> fail ObjectStoreError)"

definition delete :: "u64 \<Rightarrow> (protocol, unit) store_action" where
  "delete ver =
     attempt (check ver) (\<lambda>r.
       case r of
         Inr _ \<Rightarrow> fail InvalidObjectState
       | Inl e \<Rightarrow> if e = ObjectVersionExists then delete_unchecked ver else fail e)"

definition protocol_write :: "'v object_codec \<Rightarrow> u64 option \<Rightarrow> 'v \<Rightarrow> (protocol, u64) store_action" where
  "protocol_write codec current_id new_value =
     bind_ok (write_unchecked codec current_id new_value) (\<lambda>ver.
     bind_ok (check ver) (\<lambda>_. ok ver))"

definition try_read_latest :: "'v object_codec \<Rightarrow> (protocol, (u64 \<times> 'v) option) store_action" where
  "try_read_latest codec =
     loop (\<lambda>_.
       bind_ok (try_read_latest_unchecked codec) (\<lambda>r.
         case r of
           None \<Rightarrow> ok (Inr None)
         | Some (ver, v) \<Rightarrow>
             attempt (check ver) (\<lambda>r.
               case r of
                 Inr _ \<Rightarrow> ok (Inr (Some (ver, v)))
               | Inl e \<Rightarrow> if e = ObjectVersionExists then ok (Inl ()) else fail e))) ()"

subsection \<open>Objects\<close>

record 'v dirty_object =
  do_id :: u64
  do_value :: 'v

record 'v simple_object =
  so_id :: u64
  so_object :: 'v
  so_ops :: protocol
  so_invariants :: "('v \<Rightarrow> 'v \<Rightarrow> string option) list"

definition with_invariants :: "('v \<Rightarrow> 'v \<Rightarrow> string option) list \<Rightarrow> 'v simple_object \<Rightarrow> 'v simple_object" where
  "with_invariants invariants o' = o'\<lparr>so_invariants := invariants\<rparr>"

definition simple_init :: "'v object_codec \<Rightarrow> 'v \<Rightarrow> (protocol, 'v simple_object) store_action" where
  "simple_init codec v =
     bind_ok (protocol_write codec None v) (\<lambda>ver.
     bind_ok get_state (\<lambda>p. ok \<lparr>so_id = ver, so_object = v, so_ops = p, so_invariants = []\<rparr>))"

definition try_load :: "'v object_codec \<Rightarrow> (protocol, 'v simple_object option) store_action" where
  "try_load codec =
     bind_ok (try_read_latest codec) (\<lambda>r.
       case r of
         None \<Rightarrow> ok None
       | Some (ver, v) \<Rightarrow> bind_ok get_state (\<lambda>p. ok (Some \<lparr>so_id = ver, so_object = v, so_ops = p, so_invariants = []\<rparr>)))"

definition load :: "'v object_codec \<Rightarrow> (protocol, 'v simple_object) store_action" where
  "load codec = bind_ok (try_load codec) (\<lambda>r. case r of Some o' \<Rightarrow> ok o' | None \<Rightarrow> fail LatestRecordMissing)"

definition prepare_dirty :: "'v simple_object \<Rightarrow> 'v dirty_object" where
  "prepare_dirty o' = \<lparr>do_id = so_id o', do_value = so_object o'\<rparr>"

definition on_ops :: "(protocol, 'a) store_action \<Rightarrow> ('v simple_object, 'a) store_action" where
  "on_ops m = on_part so_ops so_ops_update m"

definition refresh :: "'v object_codec \<Rightarrow> ('v simple_object, unit) store_action" where
  "refresh codec =
     bind_ok (on_ops (try_read_latest codec)) (\<lambda>r.
       case r of
         None \<Rightarrow> fail InvalidObjectState
       | Some (ver, v) \<Rightarrow> modify (\<lambda>o'. o'\<lparr>so_id := ver, so_object := v\<rparr>))"

fun first_violation :: "('v \<Rightarrow> 'v \<Rightarrow> string option) list \<Rightarrow> 'v \<Rightarrow> 'v \<Rightarrow> string option" where
  "first_violation [] v current = None"
| "first_violation (invariant # invariants) v current =
     (case invariant v current of Some e \<Rightarrow> Some e | None \<Rightarrow> first_violation invariants v current)"

definition update :: "'v object_codec \<Rightarrow> 'v dirty_object \<Rightarrow> ('v simple_object, unit) store_action" where
  "update codec dirty =
     bind_ok get_state (\<lambda>o'.
       if do_id dirty \<noteq> so_id o' then fail ObjectVersionExists
       else
         case first_violation (so_invariants o') (do_value dirty) (so_object o') of
           Some e \<Rightarrow> fail (CallbackError e)
         | None \<Rightarrow>
             bind_ok (on_ops (protocol_write codec (Some (do_id dirty)) (do_value dirty))) (\<lambda>ver.
             modify (\<lambda>o'. o'\<lparr>so_id := ver, so_object := do_value dirty\<rparr>)))"

text \<open>The retry loop of the trait \<open>TransactionalObject\<close>, over the operations of its implementation.\<close>

definition maybe_apply_update ::
    "('d \<Rightarrow> ('o, unit) store_action) \<Rightarrow> ('o, unit) store_action \<Rightarrow> ('o \<Rightarrow> string + 'd option) \<Rightarrow> ('o, unit) store_action" where
  "maybe_apply_update upd refr mutator =
     loop (\<lambda>_.
       bind_ok get_state (\<lambda>o'.
         case mutator o' of
           Inl e \<Rightarrow> fail (CallbackError e)
         | Inr None \<Rightarrow> ok (Inr ())
         | Inr (Some dirty) \<Rightarrow>
             attempt (upd dirty) (\<lambda>r.
               case r of
                 Inr _ \<Rightarrow> ok (Inr ())
               | Inl e \<Rightarrow>
                   if is_sequenced_write_conflict e then bind_ok refr (\<lambda>_. ok (Inl ())) else fail e))) ()"

subsection \<open>Fencing\<close>

record 'v fenceable_object =
  fo_delegate :: "'v simple_object"
  fo_local_epoch :: u64

definition fence_init ::
    "'v object_codec \<Rightarrow> ('v \<Rightarrow> u64) \<Rightarrow> ('v \<Rightarrow> u64 \<Rightarrow> 'v) \<Rightarrow> ('v simple_object, 'v fenceable_object) store_action" where
  "fence_init codec get_epoch set_epoch =
     loop (\<lambda>_.
       bind_ok get_state (\<lambda>delegate.
         let local_epoch = get_epoch (so_object delegate) + 1;
             new_val = set_epoch (so_object delegate) local_epoch;
             dirty = (prepare_dirty delegate)\<lparr>do_value := new_val\<rparr>
         in attempt (update codec dirty) (\<lambda>r.
              case r of
                Inr _ \<Rightarrow>
                  bind_ok get_state (\<lambda>delegate. ok (Inr \<lparr>fo_delegate = delegate, fo_local_epoch = local_epoch\<rparr>))
              | Inl e \<Rightarrow>
                  if is_sequenced_write_conflict e then bind_ok (refresh codec) (\<lambda>_. ok (Inl ())) else fail e))) ()"

definition fence_init_with_epoch ::
    "'v object_codec \<Rightarrow> ('v \<Rightarrow> u64) \<Rightarrow> ('v \<Rightarrow> u64 \<Rightarrow> 'v) \<Rightarrow> u64 \<Rightarrow> bool
      \<Rightarrow> ('v simple_object, 'v fenceable_object) store_action" where
  "fence_init_with_epoch codec get_epoch set_epoch epoch exact_epoch =
     loop (\<lambda>_.
       bind_ok get_state (\<lambda>delegate.
         let stored_epoch = get_epoch (so_object delegate)
         in if epoch \<le> stored_epoch \<or> (exact_epoch \<and> (stored_epoch = - 1 \<or> stored_epoch + 1 \<noteq> epoch))
            then fail Fenced
            else
              let dirty = prepare_dirty delegate;
                  dirty = dirty\<lparr>do_value := set_epoch (do_value dirty) epoch\<rparr>
              in attempt (update codec dirty) (\<lambda>r.
                   case r of
                     Inr _ \<Rightarrow>
                       bind_ok get_state (\<lambda>delegate. ok (Inr \<lparr>fo_delegate = delegate, fo_local_epoch = epoch\<rparr>))
                   | Inl e \<Rightarrow>
                       if is_sequenced_write_conflict e then bind_ok (refresh codec) (\<lambda>_. ok (Inl ())) else fail e))) ()"

definition check_epoch :: "('v \<Rightarrow> u64) \<Rightarrow> ('v fenceable_object, unit) store_action" where
  "check_epoch get_epoch =
     bind_ok get_state (\<lambda>fo.
       let stored_epoch = get_epoch (so_object (fo_delegate fo))
       in if fo_local_epoch fo < stored_epoch then fail Fenced
          else if fo_local_epoch fo > stored_epoch then fail (TxPanic ''the stored epoch is lower than the local epoch'')
          else ok ())"

definition on_delegate :: "('v simple_object, 'a) store_action \<Rightarrow> ('v fenceable_object, 'a) store_action" where
  "on_delegate m = on_part fo_delegate fo_delegate_update m"

definition fence_prepare_dirty :: "('v \<Rightarrow> u64) \<Rightarrow> ('v fenceable_object, 'v dirty_object) store_action" where
  "fence_prepare_dirty get_epoch =
     bind_ok (check_epoch get_epoch) (\<lambda>_.
     bind_ok get_state (\<lambda>fo. ok (prepare_dirty (fo_delegate fo))))"

definition fence_refresh :: "'v object_codec \<Rightarrow> ('v \<Rightarrow> u64) \<Rightarrow> ('v fenceable_object, unit) store_action" where
  "fence_refresh codec get_epoch =
     bind_ok (on_delegate (refresh codec)) (\<lambda>_. check_epoch get_epoch)"

definition fence_update ::
    "'v object_codec \<Rightarrow> ('v \<Rightarrow> u64) \<Rightarrow> 'v dirty_object \<Rightarrow> ('v fenceable_object, unit) store_action" where
  "fence_update codec get_epoch dirty =
     bind_ok (check_epoch get_epoch) (\<lambda>_. on_delegate (update codec dirty))"

end
