(* ===== verification/Cluster.thy ===== *)
theory Cluster
  imports TxnObject
begin

section \<open>Processes that share an object\<close>

text \<open>
  Any number of processes that run operations on one transactional object at the same time, over an
  object store of which only its documented laws are known. A step is one call to the store, so that
  the calls of the processes interleave in every way, and a process may crash at any point, also
  between the call of an update and its answer.
\<close>

subsection \<open>Operations of a process\<close>

text \<open>What a process holds: a protocol, an object that was loaded, or one whose epoch was claimed.\<close>

datatype 'v client_state =
    Unloaded protocol
  | Loaded "'v simple_object"
  | Claimed "'v fenceable_object"

datatype 'v operation =
    Create 'v
  | Load
  | Refresh
  | Update "'v \<Rightarrow> 'v"
  | ApplyUpdate "'v \<Rightarrow> 'v"
  | Claim
  | ClaimEpoch u64 bool
  | AdvanceBoundary u64
  | DeleteVersion u64

datatype 'v event =
    ClaimedEpoch u64 u64
  | Updated "u64 option" u64 "'v \<Rightarrow> 'v" 'v
  | Observed u64 'v

text \<open>An update changes the value that was read, as the callers of \<open>prepare_dirty\<close> do.\<close>

definition mutate :: "('v \<Rightarrow> 'v) \<Rightarrow> 'v dirty_object \<Rightarrow> 'v dirty_object" where
  "mutate m dirty = dirty\<lparr>do_value := m (do_value dirty)\<rparr>"

definition update_simple :: "'v object_codec \<Rightarrow> ('v \<Rightarrow> 'v) \<Rightarrow> ('v simple_object, unit) store_action" where
  "update_simple codec m = bind_ok get_state (\<lambda>o'. update codec (mutate m (prepare_dirty o')))"

definition update_fenced :: "'v object_codec \<Rightarrow> ('v \<Rightarrow> u64) \<Rightarrow> ('v \<Rightarrow> 'v) \<Rightarrow> ('v fenceable_object, unit) store_action" where
  "update_fenced codec get_epoch m =
     bind_ok (fence_prepare_dirty get_epoch) (\<lambda>dirty. fence_update codec get_epoch (mutate m dirty))"

definition apply_simple :: "'v object_codec \<Rightarrow> ('v \<Rightarrow> 'v) \<Rightarrow> ('v simple_object, unit) store_action" where
  "apply_simple codec m = maybe_apply_update (update codec) (refresh codec) (\<lambda>o'. Inr (Some (mutate m (prepare_dirty o'))))"

definition apply_fenced :: "'v object_codec \<Rightarrow> ('v \<Rightarrow> u64) \<Rightarrow> ('v \<Rightarrow> 'v) \<Rightarrow> ('v fenceable_object, unit) store_action" where
  "apply_fenced codec get_epoch m =
     maybe_apply_update (fence_update codec get_epoch) (fence_refresh codec get_epoch)
       (\<lambda>fo. Inr (Some (mutate m (prepare_dirty (fo_delegate fo)))))"

text \<open>An operation ends with what it did and saw, and with what the process then holds.\<close>

type_synonym 'v outcome = "'v event list \<times> 'v client_state"
type_synonym 'v run = "(store_request, store_response, 'v outcome) prog"

fun observations :: "'v client_state \<Rightarrow> 'v event list" where
  "observations (Unloaded p) = []"
| "observations (Loaded o') = [Observed (so_id o') (so_object o')]"
| "observations (Claimed fo) = [Observed (so_id (fo_delegate fo)) (so_object (fo_delegate fo))]"

definition settle :: "'v event list \<Rightarrow> 'v client_state \<Rightarrow> 'v outcome" where
  "settle events st = (events @ observations st, st)"

definition loaded_end :: "(tx_error + 'v simple_object) \<times> protocol \<Rightarrow> 'v outcome" where
  "loaded_end = (\<lambda>(r, p). settle [] (case r of Inr o' \<Rightarrow> Loaded o' | Inl _ \<Rightarrow> Unloaded p))"

definition claimed_end :: "(tx_error + 'v fenceable_object) \<times> 'v simple_object \<Rightarrow> 'v outcome" where
  "claimed_end = (\<lambda>(r, o').
     case r of
       Inr fo \<Rightarrow> settle [ClaimedEpoch (fo_local_epoch fo) (so_id (fo_delegate fo))] (Claimed fo)
     | Inl _ \<Rightarrow> settle [] (Loaded o'))"

definition simple_end :: "('v \<Rightarrow> 'v) \<Rightarrow> (tx_error + unit) \<times> 'v simple_object \<Rightarrow> 'v outcome" where
  "simple_end m = (\<lambda>(r, o'). settle (case r of Inr _ \<Rightarrow> [Updated None (so_id o') m (so_object o')] | Inl _ \<Rightarrow> []) (Loaded o'))"

definition fenced_end :: "('v \<Rightarrow> 'v) \<Rightarrow> (tx_error + unit) \<times> 'v fenceable_object \<Rightarrow> 'v outcome" where
  "fenced_end m = (\<lambda>(r, fo).
     settle
       (case r of
          Inr _ \<Rightarrow> [Updated (Some (fo_local_epoch fo)) (so_id (fo_delegate fo)) m (so_object (fo_delegate fo))]
        | Inl _ \<Rightarrow> [])
       (Claimed fo))"

definition finally_do :: "('s, 'a) store_action \<Rightarrow> ((tx_error + 'a) \<times> 's \<Rightarrow> 'v outcome) \<Rightarrow> 's \<Rightarrow> 'v run" where
  "finally_do act f s = prog_bind (act s) (\<lambda>r. Ret (f r))"

fun run_operation ::
    "'v object_codec \<Rightarrow> ('v \<Rightarrow> u64) \<Rightarrow> ('v \<Rightarrow> u64 \<Rightarrow> 'v) \<Rightarrow> 'v operation \<Rightarrow> 'v client_state \<Rightarrow> 'v run" where
  "run_operation codec ge se (Create v) (Unloaded p) = finally_do (simple_init codec v) loaded_end p"
| "run_operation codec ge se Load (Unloaded p) = finally_do (load codec) loaded_end p"
| "run_operation codec ge se (AdvanceBoundary b) (Unloaded p) =
     finally_do (advance b) (\<lambda>(_, p). settle [] (Unloaded p)) p"
| "run_operation codec ge se (DeleteVersion ver) (Unloaded p) =
     finally_do (delete ver) (\<lambda>(_, p). settle [] (Unloaded p)) p"
| "run_operation codec ge se Refresh (Loaded o') =
     finally_do (refresh codec) (\<lambda>(_, o'). settle [] (Loaded o')) o'"
| "run_operation codec ge se (Update m) (Loaded o') = finally_do (update_simple codec m) (simple_end m) o'"
| "run_operation codec ge se (ApplyUpdate m) (Loaded o') = finally_do (apply_simple codec m) (simple_end m) o'"
| "run_operation codec ge se Claim (Loaded o') = finally_do (fence_init codec ge se) claimed_end o'"
| "run_operation codec ge se (ClaimEpoch e exact) (Loaded o') =
     finally_do (fence_init_with_epoch codec ge se e exact) claimed_end o'"
| "run_operation codec ge se Refresh (Claimed fo) =
     finally_do (fence_refresh codec ge) (\<lambda>(_, fo). settle [] (Claimed fo)) fo"
| "run_operation codec ge se (Update m) (Claimed fo) = finally_do (update_fenced codec ge m) (fenced_end m) fo"
| "run_operation codec ge se (ApplyUpdate m) (Claimed fo) = finally_do (apply_fenced codec ge m) (fenced_end m) fo"
| "run_operation codec ge se _ st = Ret (settle [] st)"

text \<open>Only claiming changes the epoch: the value that an update writes has the epoch of the one it replaces.\<close>

fun keeps_epoch :: "('v \<Rightarrow> u64) \<Rightarrow> 'v operation \<Rightarrow> bool" where
  "keeps_epoch ge (Update m) \<longleftrightarrow> (\<forall>v. ge (m v) = ge v)"
| "keeps_epoch ge (ApplyUpdate m) \<longleftrightarrow> (\<forall>v. ge (m v) = ge v)"
| "keeps_epoch ge _ \<longleftrightarrow> True"

subsection \<open>The object store\<close>

text \<open>
  What the object store promises: files are created only where there is none, an update of the
  boundary is accepted only for the version that is stored, an entity tag stands for one content. A call may fail after it took
  effect. Listings are not relied on.
\<close>

locale object_store =
  fixes os_files :: "'os \<Rightarrow> u64 \<rightharpoonup> bytes"
    and os_boundary :: "'os \<Rightarrow> (u64 \<times> update_version) option"
    and os_call :: "'os \<Rightarrow> store_request \<Rightarrow> store_response \<Rightarrow> 'os \<Rightarrow> bool"
    and content_of :: "update_version \<Rightarrow> u64"
  assumes get_file: "os_call s (GetFile ver) r s' \<Longrightarrow> s' = s \<and> (\<forall>bytes. r = Found bytes \<longrightarrow> os_files s ver = Some bytes)"
    and create_file: "os_call s (CreateFile ver bytes) r s' \<Longrightarrow> s' = s \<and> r \<noteq> Created
        \<or> os_files s ver = None \<and> os_files s' = (os_files s)(ver \<mapsto> bytes) \<and> os_boundary s' = os_boundary s"
    and delete_file: "os_call s (DeleteFile ver) r s' \<Longrightarrow> s' = s
        \<or> os_files s' = (os_files s)(ver := None) \<and> os_boundary s' = os_boundary s"
    and list_calls: "os_call s ListFiles r s' \<Longrightarrow> s' = s"
    and get_boundary: "os_call s (GetBoundary tag) r s' \<Longrightarrow> s' = s
        \<and> (\<forall>b version. r = BoundaryAt b version \<longrightarrow> os_boundary s = Some (b, version))
        \<and> (r = NotModified \<longrightarrow> (\<exists>b version. os_boundary s = Some (b, version) \<and> tag \<noteq> None \<and> uv_e_tag version = tag))
        \<and> (r = NotFound \<longrightarrow> os_boundary s = None)"
    and create_boundary: "os_call s (CreateBoundary b) r s' \<Longrightarrow> s' = s \<and> (\<forall>version. r \<noteq> Stored version)
        \<or> os_boundary s = None \<and> os_files s' = os_files s
          \<and> (\<exists>version. os_boundary s' = Some (b, version) \<and> (\<forall>version'. r = Stored version' \<longrightarrow> version' = version))"
    and update_boundary: "os_call s (UpdateBoundary expected b) r s' \<Longrightarrow> s' = s \<and> (\<forall>version. r \<noteq> Stored version)
        \<or> (\<exists>b0 current. os_boundary s = Some (b0, current) \<and> uv_e_tag expected \<noteq> None \<and> uv_e_tag current = uv_e_tag expected)
          \<and> os_files s' = os_files s
          \<and> (\<exists>version. os_boundary s' = Some (b, version) \<and> (\<forall>version'. r = Stored version' \<longrightarrow> version' = version))"
    and content_of: "os_boundary s = Some (b, version) \<Longrightarrow> content_of version = b"
    and same_e_tag: "uv_e_tag version = uv_e_tag version' \<Longrightarrow> uv_e_tag version \<noteq> None \<Longrightarrow> content_of version = content_of version'"

subsection \<open>Steps of the cluster\<close>

text \<open>
  Every operation gets a number when it starts. The requests that were sent and the events of the
  operations that ended are recorded.
\<close>

datatype 'v client = Idle "'v client_state" | Running nat "'v run"

record ('os, 'v) cluster =
  cl_store :: 'os
  cl_clients :: "nat \<Rightarrow> 'v client"
  cl_started :: nat
  cl_requests :: "store_request list"
  cl_log :: "(nat \<times> 'v event) list"

definition cluster_init :: "'os \<Rightarrow> ('os, 'v) cluster" where
  "cluster_init s = \<lparr>cl_store = s, cl_clients = (\<lambda>_. Idle (Unloaded protocol_new)), cl_started = 0, cl_requests = [], cl_log = []\<rparr>"

abbreviation set_client :: "nat \<Rightarrow> 'v client \<Rightarrow> ('os, 'v) cluster \<Rightarrow> ('os, 'v) cluster" where
  "set_client i x c \<equiv> c\<lparr>cl_clients := (cl_clients c)(i := x)\<rparr>"

inductive cluster_step ::
    "('os \<Rightarrow> store_request \<Rightarrow> store_response \<Rightarrow> 'os \<Rightarrow> bool) \<Rightarrow> 'v object_codec \<Rightarrow> ('v \<Rightarrow> u64) \<Rightarrow> ('v \<Rightarrow> u64 \<Rightarrow> 'v)
      \<Rightarrow> ('os, 'v) cluster \<Rightarrow> ('os, 'v) cluster \<Rightarrow> bool"
  for os_call codec ge se where
  start: "cl_clients c i = Idle st \<Longrightarrow> keeps_epoch ge op
    \<Longrightarrow> cluster_step os_call codec ge se c
          (set_client i (Running (cl_started c) (run_operation codec ge se op st)) c\<lparr>cl_started := Suc (cl_started c)\<rparr>)"
| tau: "cl_clients c i = Running k (Tau p) \<Longrightarrow> cluster_step os_call codec ge se c (set_client i (Running k p) c)"
| call: "cl_clients c i = Running k (Call q f) \<Longrightarrow> os_call (cl_store c) q r s
    \<Longrightarrow> cluster_step os_call codec ge se c
          (set_client i (Running k (f r)) c\<lparr>cl_store := s, cl_requests := cl_requests c @ [q]\<rparr>)"
| finish: "cl_clients c i = Running k (Ret (events, st))
    \<Longrightarrow> cluster_step os_call codec ge se c
          (set_client i (Idle st) c\<lparr>cl_log := cl_log c @ map (Pair k) events\<rparr>)"
| crash: "cluster_step os_call codec ge se c (set_client i (Idle (Unloaded protocol_new)) c)"

text \<open>
  The numbers of versions and of epochs have 64 bits. The theorems are about runs that do not use the last ones.
\<close>

definition not_exhausted :: "'v object_codec \<Rightarrow> ('v \<Rightarrow> u64) \<Rightarrow> ('os, 'v) cluster \<Rightarrow> bool" where
  "not_exhausted codec ge c \<longleftrightarrow>
     (\<forall>ver b. CreateFile ver b \<in> set (cl_requests c) \<longrightarrow> ver \<noteq> - 1 \<and> (\<forall>v. oc_decode codec b = Inr v \<longrightarrow> ge v \<noteq> - 1))"

end
