(* ===== verification/ObjectSpecs.thy ===== *)
theory ObjectSpecs
  imports Cluster
begin

section \<open>What an operation on an object guarantees\<close>

text \<open>
  Specifications of the operations of one process, proved for every behaviour of the others that keeps
  to the protocol: what is read is the content of its version, and an update that succeeds is the
  next version after the one it was made from.

  The ghost state records every file that was created, in order, with the process that created
  it, and the boundary. The first file created for a version is the version: later ones, which are
  possible after the file was deleted, are below the boundary and nobody accepts them.
\<close>

record ghost =
  gh_created :: "(u64 \<times> bytes \<times> nat) list"
  gh_bnd :: u64

definition first_created :: "ghost \<Rightarrow> u64 \<Rightarrow> (bytes \<times> nat) option" where
  "first_created g ver = map_of (gh_created g) ver"

definition gh_extends :: "ghost \<Rightarrow> ghost \<Rightarrow> bool" where
  "gh_extends g g' \<longleftrightarrow> prefix (gh_created g) (gh_created g') \<and> gh_bnd g \<le> gh_bnd g'"

definition seen :: "ghost \<Rightarrow> u64 \<Rightarrow> bytes \<Rightarrow> bool" where
  "seen g ver b \<longleftrightarrow> (\<exists>i. first_created g ver = Some (b, i)) \<or> ver \<le> gh_bnd g"

definition authentic :: "ghost \<Rightarrow> u64 \<Rightarrow> bytes \<Rightarrow> bool" where
  "authentic g ver b \<longleftrightarrow> (\<exists>i. first_created g ver = Some (b, i))"

text \<open>The content of a version follows that of another: its epoch is not lower, unless epochs are exhausted.\<close>

definition follows :: "'v object_codec \<Rightarrow> ('v \<Rightarrow> u64) \<Rightarrow> bytes \<Rightarrow> bytes \<Rightarrow> bool" where
  "follows codec get_epoch b0 b \<longleftrightarrow>
     (\<exists>v0 v. oc_decode codec b0 = Inr v0 \<and> oc_decode codec b = Inr v \<and> (get_epoch v0 \<le> get_epoch v \<or> get_epoch v0 = - 1))"

definition follows_version :: "'v object_codec \<Rightarrow> ('v \<Rightarrow> u64) \<Rightarrow> ghost \<Rightarrow> u64 \<Rightarrow> bytes \<Rightarrow> bool" where
  "follows_version codec get_epoch g ver b \<longleftrightarrow>
     ver = initial_id \<or> (\<exists>n b0. ver = next_id n \<and> authentic g n b0 \<and> follows codec get_epoch b0 b)"

fun permitted :: "'v object_codec \<Rightarrow> ('v \<Rightarrow> u64) \<Rightarrow> (update_version \<Rightarrow> u64) \<Rightarrow> ghost \<Rightarrow> store_request \<Rightarrow> bool" where
  "permitted codec get_epoch content_of g (CreateFile ver b) \<longleftrightarrow>
     first_created g ver = None \<longrightarrow> (\<exists>v. oc_decode codec b = Inr v) \<and> follows_version codec get_epoch g ver b"
| "permitted codec get_epoch content_of g (DeleteFile ver) \<longleftrightarrow> ver \<le> gh_bnd g"
| "permitted codec get_epoch content_of g (UpdateBoundary version b) \<longleftrightarrow> content_of version \<le> b"
| "permitted codec get_epoch content_of g _ \<longleftrightarrow> True"

definition add_created :: "u64 \<Rightarrow> bytes \<Rightarrow> nat \<Rightarrow> ghost \<Rightarrow> ghost" where
  "add_created ver b i g = g\<lparr>gh_created := gh_created g @ [(ver, b, i)]\<rparr>"

fun answers :: "(update_version \<Rightarrow> u64) \<Rightarrow> nat \<Rightarrow> ghost \<Rightarrow> store_request \<Rightarrow> store_response \<Rightarrow> ghost \<Rightarrow> bool" where
  "answers content_of i g (GetFile ver) r g' \<longleftrightarrow> g' = g \<and> (\<forall>b. r = Found b \<longrightarrow> seen g ver b)"
| "answers content_of i g (CreateFile ver b) r g' \<longleftrightarrow>
     g' = add_created ver b i g \<and> (first_created g ver = None \<or> ver \<le> gh_bnd g) \<or> g' = g \<and> r \<noteq> Created"
| "answers content_of i g (DeleteFile ver) r g' \<longleftrightarrow> g' = g"
| "answers content_of i g ListFiles r g' \<longleftrightarrow> g' = g"
| "answers content_of i g (GetBoundary tag) r g' \<longleftrightarrow>
     g' = g \<and> (\<forall>b version. r = BoundaryAt b version \<longrightarrow> b = gh_bnd g \<and> content_of version = b)
     \<and> (r = NotModified \<longrightarrow> (\<exists>version. tag \<noteq> None \<and> uv_e_tag version = tag \<and> content_of version = gh_bnd g))
     \<and> (r = NotFound \<longrightarrow> gh_bnd g = 0)"
| "answers content_of i g (CreateBoundary b) r g' \<longleftrightarrow>
     g' = g\<lparr>gh_bnd := b\<rparr> \<and> gh_bnd g = 0 \<and> (\<forall>version. r = Stored version \<longrightarrow> content_of version = b)
     \<or> g' = g \<and> (\<forall>version. r \<noteq> Stored version)"
| "answers content_of i g (UpdateBoundary version b) r g' \<longleftrightarrow>
     g' = g\<lparr>gh_bnd := b\<rparr> \<and> content_of version = gh_bnd g \<and> (\<forall>version. r = Stored version \<longrightarrow> content_of version = b)
     \<or> g' = g \<and> (\<forall>version. r \<noteq> Stored version)"

lemma first_created_extends: "first_created g ver = Some x \<Longrightarrow> gh_extends g g' \<Longrightarrow> first_created g' ver = Some x"
  by (auto simp: first_created_def gh_extends_def prefix_def)

lemma authentic_extends: "authentic g ver b \<Longrightarrow> gh_extends g g' \<Longrightarrow> authentic g' ver b"
  unfolding authentic_def by (blast intro: first_created_extends)

lemma seen_extends: "seen g ver b \<Longrightarrow> gh_extends g g' \<Longrightarrow> seen g' ver b"
  unfolding seen_def by (auto simp: gh_extends_def dest: first_created_extends intro: order_trans)

lemma seen_authentic: "seen g ver b \<Longrightarrow> gh_bnd g < ver \<Longrightarrow> authentic g ver b"
  by (auto simp: seen_def authentic_def)

lemma first_created_add:
  "first_created (add_created ver b i g) n = (if n = ver \<and> first_created g n = None then Some (b, i) else first_created g n)"
  by (auto simp: first_created_def add_created_def map_add_def split: option.splits)

locale versioned_object =
  fixes codec :: "'v object_codec" and get_epoch :: "'v \<Rightarrow> u64" and set_epoch :: "'v \<Rightarrow> u64 \<Rightarrow> 'v"
    and content_of :: "update_version \<Rightarrow> u64" and me :: nat
  assumes decode_encode: "oc_decode codec (oc_encode codec v) = Inr v"
    and get_set_epoch: "get_epoch (set_epoch v e) = e"
    and same_e_tag: "uv_e_tag version = uv_e_tag version' \<Longrightarrow> uv_e_tag version \<noteq> None \<Longrightarrow> content_of version = content_of version'"

sublocale versioned_object \<subseteq> rely gh_extends "permitted codec get_epoch content_of" "answers content_of me"
proof
  fix g g' g'' q r
  show "gh_extends g g" by (simp add: gh_extends_def)
  show "gh_extends g g' \<Longrightarrow> gh_extends g' g'' \<Longrightarrow> gh_extends g g''"
    by (auto simp: gh_extends_def intro: order_trans prefix_order.order_trans)
  show "permitted codec get_epoch content_of g q \<Longrightarrow> answers content_of me g q r g' \<Longrightarrow> gh_extends g g'"
    by (cases q) (auto simp: gh_extends_def add_created_def)
qed

context versioned_object
begin

definition proto_ok :: "ghost \<Rightarrow> protocol \<Rightarrow> bool" where
  "proto_ok g p \<longleftrightarrow> (\<forall>ver b. pr_latest p = Some (ver, b) \<longrightarrow> seen g ver b)
     \<and> (\<forall>b version. pr_cache p = Some (b, version) \<longrightarrow> b \<le> gh_bnd g \<and> content_of version = b)"

lemma proto_ok_extends: "proto_ok g p \<Longrightarrow> gh_extends g g' \<Longrightarrow> proto_ok g' p"
  by (auto simp: proto_ok_def gh_extends_def dest: seen_extends [of _ _ _ g'] intro: order_trans)
     (metis gh_extends_def seen_extends)

lemma proto_ok_caches:
  "proto_ok g p \<Longrightarrow> seen g ver b \<Longrightarrow> proto_ok g (maybe_cache_latest ver b p)"
  "proto_ok g p \<Longrightarrow> proto_ok g (invalidate_cached ver p)"
  "proto_ok g p \<Longrightarrow> proto_ok g (invalidate_cached_through ver p)"
  by (auto simp: proto_ok_def maybe_cache_latest_def invalidate_cached_def invalidate_cached_through_def)

text \<open>The boundary read is the boundary at that moment.\<close>

definition read_post :: "ghost \<Rightarrow> tx_error + u64 \<times> update_version option \<Rightarrow> protocol \<Rightarrow> bool" where
  "read_post g r p \<longleftrightarrow> proto_ok g p \<and> (\<forall>b version. r = Inr (b, version) \<longrightarrow> b = gh_bnd g
     \<and> (case version of Some version \<Rightarrow> content_of version = b | None \<Rightarrow> b = 0)) \<and> r \<noteq> Inl ObjectVersionExists"

lemma read_boundary_spec: "spec proto_ok read_boundary read_post"
  unfolding spec_def
proof (intro allI impI)
  fix g p assume ok: "proto_ok g p"
  show "safe (\<lambda>g (r, p). read_post g r p) g (read_boundary p)"
  proof (simp only: read_boundary_def action_simps, rule safe_Call, intro conjI allI impI, simp, goal_cases)
    case (1 g' r g'')
    from ok 1(1) have p: "proto_ok g' p" by (rule proto_ok_extends)
    from 1(2) have g'': "g'' = g'" by simp
    show ?case
    proof (cases r)
      case (BoundaryAt b version)
      with 1(2) p show ?thesis unfolding g''
        by (auto simp: action_simps update_cache_def read_post_def proto_ok_def split: option.split intro!: safe_Ret)
    next
      case NotModified
      with 1(2) obtain b version version' where c: "pr_cache p = Some (b, version)"
        "uv_e_tag version \<noteq> None" "uv_e_tag version' = uv_e_tag version" "content_of version' = gh_bnd g'"
        by (auto split: option.splits)
      with p same_e_tag [of version' version] have "b = gh_bnd g'" "content_of version = b" by (auto simp: proto_ok_def)
      with c p NotModified show ?thesis unfolding g'' by (simp add: action_simps read_post_def safe_Ret)
    qed (use 1(2) p in \<open>auto simp: g'' action_simps read_post_def intro!: safe_Ret\<close>)
  qed
qed

definition check_post :: "u64 \<Rightarrow> ghost \<Rightarrow> tx_error + unit \<Rightarrow> protocol \<Rightarrow> bool" where
  "check_post ver g r p \<longleftrightarrow> proto_ok g p \<and> (r = Inr () \<longrightarrow> gh_bnd g < ver) \<and> (r = Inl ObjectVersionExists \<longrightarrow> ver \<le> gh_bnd g)"

lemma boundary_check_spec: "spec proto_ok (boundary_check ver) (check_post ver)"
proof -
  have known: "spec (\<lambda>g p. proto_ok g p \<and> p = p0)
      (case pr_cache p0 of Some (boundary, _) \<Rightarrow> check_boundary ver boundary | None \<Rightarrow> ok ())
      (\<lambda>g r p. proto_ok g p \<and> (r = Inl ObjectVersionExists \<longrightarrow> ver \<le> gh_bnd g))" for p0
    by (auto simp: check_boundary_def proto_ok_def split: option.split intro!: spec_ok spec_fail intro: order_trans)
  have final: "spec (\<lambda>g. read_post g (Inr x)) (case x of (boundary, _) \<Rightarrow> check_boundary ver boundary) (check_post ver)" for x
    by (auto simp: check_boundary_def check_post_def read_post_def split: prod.split intro!: spec_ok spec_fail)
  have read: "spec (\<lambda>g p. proto_ok g p) (bind_ok read_boundary (\<lambda>(boundary, _). check_boundary ver boundary)) (check_post ver)"
    by (rule spec_bind_ok [OF read_boundary_spec _ final]) (auto simp: check_post_def read_post_def)
  show ?thesis
    unfolding boundary_check_def
    by (rule spec_get_state, rule spec_bind_ok [OF known], auto simp: check_post_def intro: spec_mono [OF read])
qed

lemma check_spec: "spec proto_ok (check ver) (check_post ver)"
  unfolding check_def
proof (rule spec_attempt [OF boundary_check_spec])
  fix r
  have "spec (\<lambda>g p. check_post ver g r p) (modify (\<lambda>p. if r = Inl ObjectVersionExists then invalidate_cached ver p else p))
      (\<lambda>g r' p. r' = Inr () \<and> check_post ver g r p)"
    by (rule spec_modify) (auto simp: check_post_def proto_ok_caches)
  then show "spec (\<lambda>g p. check_post ver g r p)
      (bind_ok (modify (\<lambda>p. if r = Inl ObjectVersionExists then invalidate_cached ver p else p)) (\<lambda>_. case r of Inl e \<Rightarrow> fail e | Inr _ \<Rightarrow> ok ()))
      (check_post ver)"
    by (rule spec_bind_ok) (auto split: sum.split intro!: spec_ok spec_fail)
qed

lemma boundary_advance_spec: "spec proto_ok (boundary_advance b) (\<lambda>g r p. proto_ok g p)"
proof -
  define cur where "cur = (\<lambda>g (r :: tx_error + u64 \<times> update_version option) p. proto_ok g p \<and> (\<forall>c version. r = Inr (c, Some version) \<longrightarrow> content_of version = c))"
  let ?J = "\<lambda>(_::unit) g p. proto_ok g p"
  let ?Q = "\<lambda>g (r :: tx_error + unit + unit) p. proto_ok g p"
  have known: "spec (\<lambda>g p. proto_ok g p \<and> p = p0)
      (case pr_cache p0 of Some (cached, version) \<Rightarrow> ok (cached, Some version) | None \<Rightarrow> read_boundary) cur" for p0
  proof (cases "pr_cache p0")
    case None
    then show ?thesis by simp (rule spec_mono [OF read_boundary_spec], auto simp: cur_def read_post_def)
  next
    case (Some c)
    then show ?thesis by (cases c) (auto simp: cur_def proto_ok_def intro!: spec_ok)
  qed
  have again: "spec proto_ok (bind_ok read_boundary (\<lambda>_. ok (Inl ()))) ?Q"
    by (rule spec_bind_ok [OF read_boundary_spec]) (auto simp: read_post_def intro: spec_ok)
  have put: "spec (\<lambda>g. cur g (Inr (c, version)))
      (await (case version of Some version \<Rightarrow> UpdateBoundary version b | None \<Rightarrow> CreateBoundary b) (\<lambda>r.
           case r of
             Stored version \<Rightarrow> bind_ok (modify (\<lambda>p. snd (update_cache b version p))) (\<lambda>_. ok (Inr ()))
           | AlreadyExists \<Rightarrow> bind_ok read_boundary (\<lambda>_. ok (Inl ()))
           | Precondition \<Rightarrow> bind_ok read_boundary (\<lambda>_. ok (Inl ()))
           | _ \<Rightarrow> fail ObjectStoreError)) ?Q" if "\<not> b \<le> c" for c version
  proof (rule spec_await, goal_cases)
    case (1 g g' p)
    with that show ?case by (auto simp: cur_def intro: proto_ok_extends split: option.split)
  next
    case (2 r)
    have grown: "proto_ok g' p"
      if "cur g (Inr (c, version)) p" "answers content_of me g (case version of Some version \<Rightarrow> UpdateBoundary version b | None \<Rightarrow> CreateBoundary b) r g'" for g g' p
    proof (rule proto_ok_extends)
      show "proto_ok g p" using that(1) by (simp add: cur_def)
      show "gh_extends g g'"
        by (rule answers_extend [OF _ that(2)]) (use that(1) \<open>\<not> b \<le> c\<close> in \<open>cases version; simp add: cur_def\<close>)
    qed
    show ?case
    proof (cases r)
      case (Stored version')
      have "spec (\<lambda>g p. \<exists>g'. cur g' (Inr (c, version)) p
            \<and> answers content_of me g' (case version of None \<Rightarrow> CreateBoundary b | Some version \<Rightarrow> UpdateBoundary version b) r g)
          (modify (\<lambda>p. snd (update_cache b version' p))) (\<lambda>g r p. proto_ok g p)"
      proof (rule spec_modify, elim exE conjE)
        fix g p g' assume a: "cur g' (Inr (c, version)) p"
          "answers content_of me g' (case version of None \<Rightarrow> CreateBoundary b | Some version \<Rightarrow> UpdateBoundary version b) r g"
        then have "content_of version' = b" "gh_bnd g = b" using Stored by (auto split: option.splits)
        with grown [OF a] show "proto_ok g (snd (update_cache b version' p))"
          by (auto simp: proto_ok_def update_cache_def split: option.split)
      qed
      then show ?thesis unfolding Stored store_response.case
        by (rule spec_bind_ok) (auto intro: spec_ok)
    next
      case AlreadyExists
      then show ?thesis using grown by (simp, intro spec_mono [OF again]) blast+
    next
      case Precondition
      then show ?thesis using grown by (simp, intro spec_mono [OF again]) blast+
    qed (simp, rule spec_fail, use grown in blast)+
  qed
  have step: "spec (\<lambda>g p. cur g (Inr x) p)
      (case x of (current_boundary, current_version) \<Rightarrow>
         if current_boundary \<ge> b then ok (Inr ())
         else await (case current_version of Some version \<Rightarrow> UpdateBoundary version b | None \<Rightarrow> CreateBoundary b) (\<lambda>r.
           case r of
             Stored version \<Rightarrow> bind_ok (modify (\<lambda>p. snd (update_cache b version p))) (\<lambda>_. ok (Inr ()))
           | AlreadyExists \<Rightarrow> bind_ok read_boundary (\<lambda>_. ok (Inl ()))
           | Precondition \<Rightarrow> bind_ok read_boundary (\<lambda>_. ok (Inl ()))
           | _ \<Rightarrow> fail ObjectStoreError)) ?Q" for x
  proof (cases x)
    case (Pair c version)
    show ?thesis
    proof (cases "b \<le> c")
      case True
      then show ?thesis unfolding Pair by (simp, intro spec_ok) (simp add: cur_def)
    next
      case False
      from put [OF this] False show ?thesis unfolding Pair by simp
    qed
  qed
  show ?thesis
    unfolding boundary_advance_def
    by (rule spec_loop [where J = ?J], rule spec_mono [where Q = ?Q], rule spec_get_state, rule spec_bind_ok [OF known _ step])
       (auto simp: cur_def split: sum.split)
qed

lemma advance_spec: "spec proto_ok (advance b) (\<lambda>g r p. proto_ok g p)"
  unfolding advance_def by (rule spec_bind_ok [OF boundary_advance_spec]) (auto intro: spec_modify proto_ok_caches)

lemma delete_spec: "spec proto_ok (delete ver) (\<lambda>g r p. proto_ok g p)"
  unfolding delete_def
proof (rule spec_attempt [OF check_spec])
  fix r
  have "spec (\<lambda>g p. proto_ok g p \<and> ver \<le> gh_bnd g) (delete_unchecked ver) (\<lambda>g r p. proto_ok g p)"
    unfolding delete_unchecked_def
  proof (rule spec_await, goal_cases)
    case (1 g g' p)
    then show ?case by (auto intro: proto_ok_extends simp: gh_extends_def)
  next
    case (2 r)
    show ?case by (cases r) (auto intro!: spec_fail spec_modify proto_ok_caches)
  qed
  then have "spec (\<lambda>g p. check_post ver g r p) (delete_unchecked ver) (\<lambda>g r p. proto_ok g p)" if "r = Inl ObjectVersionExists"
    by (rule spec_mono) (auto simp: check_post_def that)
  then show "spec (\<lambda>g p. check_post ver g r p)
      (case r of Inr _ \<Rightarrow> fail InvalidObjectState | Inl e \<Rightarrow> if e = ObjectVersionExists then delete_unchecked ver else fail e)
      (\<lambda>g r p. proto_ok g p)"
    by (auto simp: check_post_def split: sum.split intro!: spec_fail)
qed

subsection \<open>An accepted write is the first of its version\<close>

definition next_version :: "u64 option \<Rightarrow> u64" where
  "next_version current_id = (case current_id of Some ver \<Rightarrow> next_id ver | None \<Rightarrow> initial_id)"

definition mine :: "ghost \<Rightarrow> u64 \<Rightarrow> bytes \<Rightarrow> bool" where
  "mine g ver b \<longleftrightarrow> first_created g ver = Some (b, me)"

lemma mine_extends: "mine g ver b \<Longrightarrow> gh_extends g g' \<Longrightarrow> mine g' ver b"
  unfolding mine_def by (rule first_created_extends)

lemma follows_version_extends:
  "follows_version codec get_epoch g ver b \<Longrightarrow> gh_extends g g' \<Longrightarrow> follows_version codec get_epoch g' ver b"
  unfolding follows_version_def by (blast intro: authentic_extends)

lemma write_unchecked_spec:
  fixes current_id v
  defines "ver \<equiv> next_version current_id" and "b \<equiv> oc_encode codec v"
  shows "spec (\<lambda>g p. proto_ok g p \<and> follows_version codec get_epoch g ver b) (write_unchecked codec current_id v)
    (\<lambda>g r p. proto_ok g p \<and> (\<forall>x. r = Inr x \<longrightarrow> x = ver \<and> (mine g ver b \<or> ver \<le> gh_bnd g)))"
proof -
  let ?k = "\<lambda>r. case r of
      Created \<Rightarrow> bind_ok (modify (maybe_cache_latest ver b)) (\<lambda>_. ok ver)
    | AlreadyExists \<Rightarrow> fail ObjectVersionExists
    | _ \<Rightarrow> fail ObjectStoreError"
  let ?P = "\<lambda>g p. proto_ok g p \<and> follows_version codec get_epoch g ver b"
  have eq: "write_unchecked codec current_id v = await (CreateFile ver b) ?k"
    unfolding write_unchecked_def ver_def b_def next_version_def Let_def ..
  have after: "proto_ok g' p" if "?P g p" "answers content_of me g (CreateFile ver b) r g'" for g g' p r
  proof -
    have "gh_extends g g'"
      by (rule answers_extend [OF _ that(2)]) (use that(1) decode_encode in \<open>simp add: b_def\<close>)
    with that(1) show ?thesis by (blast intro: proto_ok_extends)
  qed
  show ?thesis
    unfolding eq
  proof (rule spec_await, goal_cases)
    case (1 g g' p)
    then show ?case using decode_encode by (auto simp: b_def intro: proto_ok_extends follows_version_extends)
  next
    case (2 r)
    show ?case
    proof (cases r)
      case Created
      have new: "mine g' ver b \<or> ver \<le> gh_bnd g'" if "answers content_of me g (CreateFile ver b) Created g'" for g g'
        using that by (auto simp: mine_def first_created_add) (auto simp: add_created_def)
      then have "spec (\<lambda>g p. \<exists>g'. ?P g' p \<and> answers content_of me g' (CreateFile ver b) r g) (modify (maybe_cache_latest ver b))
          (\<lambda>g r p. proto_ok g p \<and> (mine g ver b \<or> ver \<le> gh_bnd g))"
        unfolding Created
      proof (intro spec_modify, elim exE)
        fix g p g' assume a: "?P g' p \<and> answers content_of me g' (CreateFile ver b) Created g"
        from new [OF conjunct2 [OF a]] after [OF conjunct1 [OF a] conjunct2 [OF a]]
        show "proto_ok g (maybe_cache_latest ver b p) \<and> (mine g ver b \<or> ver \<le> gh_bnd g)"
          by (auto intro!: proto_ok_caches simp: seen_def mine_def)
      qed
      then show ?thesis unfolding Created store_response.case
        by (rule spec_bind_ok) (auto intro: spec_ok)
    qed (simp only: store_response.case, rule spec_fail, use after in blast)+
  qed
qed

lemma protocol_write_spec:
  fixes current_id v
  defines "ver \<equiv> next_version current_id" and "b \<equiv> oc_encode codec v"
  shows "spec (\<lambda>g p. proto_ok g p \<and> follows_version codec get_epoch g ver b) (protocol_write codec current_id v)
    (\<lambda>g r p. proto_ok g p \<and> (\<forall>x. r = Inr x \<longrightarrow> x = ver \<and> mine g ver b))"
proof -
  let ?F = "\<lambda>x g. x = ver \<and> (mine g ver b \<or> ver \<le> gh_bnd g)"
  have checked: "spec (\<lambda>g p. proto_ok g p \<and> ?F x g) (bind_ok (check x) (\<lambda>_. ok x))
      (\<lambda>g r p. proto_ok g p \<and> (\<forall>x. r = Inr x \<longrightarrow> x = ver \<and> mine g ver b))" for x
  proof (rule spec_bind_ok [OF spec_frame [OF check_spec, where F = "?F x"]])
    fix g g' assume "?F x g" "gh_extends g g'"
    then show "?F x g'" by (auto intro: mine_extends simp: gh_extends_def)
  next
    fix u
    show "spec (\<lambda>g p. check_post x g (Inr u) p \<and> ?F x g) (ok x)
        (\<lambda>g r p. proto_ok g p \<and> (\<forall>x. r = Inr x \<longrightarrow> x = ver \<and> mine g ver b))"
      by (rule spec_ok) (auto simp: check_post_def)
  qed (simp add: check_post_def)
  show ?thesis
    unfolding protocol_write_def
    by (rule spec_bind_ok [OF write_unchecked_spec [of current_id v, folded ver_def b_def]])
       (auto intro: spec_mono [OF checked])
qed

subsection \<open>A version that is read is authentic\<close>

lemma try_read_bytes_spec:
  "spec proto_ok (try_read_bytes_unchecked ver) (\<lambda>g r p. proto_ok g p \<and> (\<forall>b. r = Inr (Some b) \<longrightarrow> seen g ver b))"
  unfolding try_read_bytes_unchecked_def
proof (rule spec_await, goal_cases)
  case (1 g g' p)
  then show ?case by (auto intro: proto_ok_extends)
next
  case (2 r)
  show ?case by (cases r) (auto intro!: spec_ok spec_fail)
qed

definition read_ok :: "(ghost \<Rightarrow> u64 \<Rightarrow> bytes \<Rightarrow> bool) \<Rightarrow> ghost \<Rightarrow> tx_error + (u64 \<times> 'v) option \<Rightarrow> protocol \<Rightarrow> bool" where
  "read_ok known g r p \<longleftrightarrow> proto_ok g p \<and> (\<forall>ver v. r = Inr (Some (ver, v)) \<longrightarrow> (\<exists>b. known g ver b \<and> oc_decode codec b = Inr v))"

lemma probe_latest_spec: "spec (\<lambda>g p. proto_ok g p \<and> seen g ver b) (probe_latest codec n ver b) (read_ok seen)"
proof (induction n arbitrary: ver b)
  case 0
  then show ?case by (auto simp: read_ok_def intro: spec_ok)
next
  case (Suc n)
  let ?R = "\<lambda>g r p. (proto_ok g p \<and> (\<forall>b'. r = Inr (Some b') \<longrightarrow> seen g (next_id ver) b')) \<and> seen g ver b"
  have found: "spec (\<lambda>g p. ?R g (Inr (Some b')) p)
      (bind_ok (modify (maybe_cache_latest (next_id ver) b')) (\<lambda>_. probe_latest codec n (next_id ver) b')) (read_ok seen)" for b'
  proof (rule spec_bind_ok)
    show "spec (\<lambda>g p. ?R g (Inr (Some b')) p) (modify (maybe_cache_latest (next_id ver) b')) (\<lambda>g r p. r = Inr () \<and> proto_ok g p \<and> seen g (next_id ver) b')"
      by (rule spec_modify) (simp add: proto_ok_caches)
  qed (auto intro: spec_mono [OF Suc])
  have last: "spec (\<lambda>g p. ?R g (Inr None) p) (decoded codec b (\<lambda>v. ok (Some (ver, v)))) (read_ok seen)"
    unfolding decoded_def by (cases "oc_decode codec b") (auto simp: read_ok_def intro!: spec_ok spec_fail)
  show ?case
    unfolding probe_latest.simps
  proof (rule spec_bind_ok)
    show "spec (\<lambda>g p. proto_ok g p \<and> seen g ver b) (try_read_bytes_unchecked (next_id ver)) ?R"
      by (rule spec_frame [OF try_read_bytes_spec]) (rule seen_extends)
  next
    fix r
    show "spec (\<lambda>g p. ?R g (Inr r) p)
        (case r of
          Some b' \<Rightarrow> bind_ok (modify (maybe_cache_latest (next_id ver) b')) (\<lambda>_. probe_latest codec n (next_id ver) b')
        | None \<Rightarrow> decoded codec b (\<lambda>v. ok (Some (ver, v)))) (read_ok seen)"
      using found last by (cases r) simp_all
  qed (simp add: read_ok_def)
qed

lemma list_files_spec: "spec proto_ok (list_files from to) (\<lambda>g r p. proto_ok g p)"
  unfolding list_files_def
proof (rule spec_await, goal_cases)
  case (1 g g' p)
  then show ?case by (auto intro: proto_ok_extends)
next
  case (2 r)
  show ?case by (cases r) (auto intro!: spec_ok spec_fail)
qed

lemma list_latest_spec: "spec proto_ok (list_latest codec) (read_ok seen)"
proof -
  let ?Q = "\<lambda>g r p. case r of Inl e \<Rightarrow> read_ok seen g (Inl e) p | Inr (Inl x) \<Rightarrow> proto_ok g p | Inr (Inr a) \<Rightarrow> read_ok seen g (Inr a) p"
  let ?R = "\<lambda>ver g r p. proto_ok g p \<and> (\<forall>b. r = Inr (Some b) \<longrightarrow> seen g ver b)"
  have empty: "spec (\<lambda>g p. proto_ok g p \<and> p = p0)
      (bind_ok (case pr_latest p0 of Some (cached_id, _) \<Rightarrow> modify (invalidate_cached cached_id) | None \<Rightarrow> ok ()) (\<lambda>_. ok (Inr None))) ?Q" for p0
    by (rule spec_bind_ok [where R = "\<lambda>g r p. proto_ok g p"])
       (auto simp: read_ok_def proto_ok_caches split: option.split intro!: spec_ok spec_modify)
  have bytes: "spec (\<lambda>g p. proto_ok g p \<and> p = p0)
      (case pr_latest p0 of
         Some (cached_id, b) \<Rightarrow> if cached_id = ver then ok (Some b) else try_read_bytes_unchecked ver
       | None \<Rightarrow> try_read_bytes_unchecked ver) (?R ver)" for p0 ver
  proof (cases "\<exists>b. pr_latest p0 = Some (ver, b)")
    case True
    then show ?thesis by (auto simp: proto_ok_def intro!: spec_ok)
  next
    case False
    then have "(case pr_latest p0 of
         Some (cached_id, b) \<Rightarrow> if cached_id = ver then ok (Some b) else try_read_bytes_unchecked ver
       | None \<Rightarrow> try_read_bytes_unchecked ver) = try_read_bytes_unchecked ver" by (auto split: option.split)
    then show ?thesis by (simp only:) (rule spec_mono [OF try_read_bytes_spec], simp_all)
  qed
  have got: "spec (\<lambda>g p. ?R ver g (Inr r) p)
      (case r of
         None \<Rightarrow> ok (Inl ())
       | Some b \<Rightarrow> decoded codec b (\<lambda>v. bind_ok (modify (maybe_cache_latest ver b)) (\<lambda>_. ok (Inr (Some (ver, v)))))) ?Q" for r ver
  proof (cases r)
    case None
    then show ?thesis by (auto intro: spec_ok)
  next
    case (Some b)
    have "spec (\<lambda>g p. ?R ver g (Inr r) p) (bind_ok (modify (maybe_cache_latest ver b)) (\<lambda>_. ok (Inr (Some (ver, v))))) ?Q"
      if "oc_decode codec b = Inr v" for v
      by (rule spec_bind_ok [where R = "\<lambda>g r p. r = Inr () \<and> proto_ok g p \<and> seen g ver b"])
         (use that in \<open>auto simp: Some read_ok_def proto_ok_caches intro!: spec_ok spec_modify\<close>)
    then show ?thesis unfolding Some decoded_def
      by (cases "oc_decode codec b") (auto simp: read_ok_def intro: spec_fail)
  qed
  show ?thesis
    unfolding list_latest_def
  proof (rule spec_loop [where J = "\<lambda>_. proto_ok"], rule spec_bind_ok [OF list_files_spec], simp add: read_ok_def, rule spec_get_state)
    fix files p0
    show "spec (\<lambda>g p. proto_ok g p \<and> p = p0)
      (if files = [] then
         bind_ok (case pr_latest p0 of Some (cached_id, _) \<Rightarrow> modify (invalidate_cached cached_id) | None \<Rightarrow> ok ()) (\<lambda>_. ok (Inr None))
       else let ver = last files
         in bind_ok (case pr_latest p0 of
                       Some (cached_id, b) \<Rightarrow> if cached_id = ver then ok (Some b) else try_read_bytes_unchecked ver
                     | None \<Rightarrow> try_read_bytes_unchecked ver) (\<lambda>b.
              case b of
                None \<Rightarrow> ok (Inl ())
              | Some b \<Rightarrow> decoded codec b (\<lambda>v. bind_ok (modify (maybe_cache_latest ver b)) (\<lambda>_. ok (Inr (Some (ver, v))))))) ?Q"
    proof (cases "files = []")
      case True
      then show ?thesis using empty by simp
    next
      case False
      show ?thesis unfolding if_not_P [OF False] Let_def
        by (rule spec_bind_ok [OF bytes _ got]) (simp add: read_ok_def)
    qed
  qed
qed

lemma try_read_latest_unchecked_spec: "spec proto_ok (try_read_latest_unchecked codec) (read_ok seen)"
  unfolding try_read_latest_unchecked_def
proof (rule spec_get_state)
  fix p0
  have found: "spec (\<lambda>g p. read_ok seen g (Inr r) p) (case r of Some r \<Rightarrow> ok (Some r) | None \<Rightarrow> list_latest codec) (read_ok seen)" for r
    by (cases r) (auto intro: spec_ok spec_mono [OF list_latest_spec] simp: read_ok_def)
  show "spec (\<lambda>g p. proto_ok g p \<and> p = p0)
      (case pr_latest p0 of
         Some (ver, b) \<Rightarrow> bind_ok (probe_latest codec MAX_PROBES ver b) (\<lambda>found. case found of Some r \<Rightarrow> ok (Some r) | None \<Rightarrow> list_latest codec)
       | None \<Rightarrow> list_latest codec) (read_ok seen)"
  proof (cases "pr_latest p0")
    case None
    then show ?thesis by simp (rule spec_mono [OF list_latest_spec], simp_all)
  next
    case (Some x)
    then obtain ver b where x: "pr_latest p0 = Some (ver, b)" by (cases x) simp
    have "spec (\<lambda>g p. proto_ok g p \<and> p = p0) (probe_latest codec MAX_PROBES ver b) (read_ok seen)"
      by (rule spec_mono [OF probe_latest_spec]) (auto simp: proto_ok_def x)
    then show ?thesis unfolding x option.case prod.case by (rule spec_bind_ok) (simp add: read_ok_def, rule found)
  qed
qed

lemma try_read_latest_spec: "spec proto_ok (try_read_latest codec) (read_ok authentic)"
proof -
  let ?Q = "\<lambda>g r p. case r of Inl e \<Rightarrow> read_ok authentic g (Inl e) p | Inr (Inl x) \<Rightarrow> proto_ok g p | Inr (Inr a) \<Rightarrow> read_ok authentic g (Inr a) p"
  have checked: "spec (\<lambda>g p. read_ok seen g (Inr (Some (ver, v))) p)
      (attempt (check ver) (\<lambda>r. case r of Inr _ \<Rightarrow> ok (Inr (Some (ver, v))) | Inl e \<Rightarrow> if e = ObjectVersionExists then ok (Inl ()) else fail e)) ?Q" for ver v
  proof -
    let ?F = "\<lambda>g. \<exists>b. seen g ver b \<and> oc_decode codec b = Inr v"
    have "spec (\<lambda>g p. proto_ok g p \<and> ?F g) (check ver) (\<lambda>g r p. check_post ver g r p \<and> ?F g)"
      by (rule spec_frame [OF check_spec]) (blast intro: seen_extends)
    then have "spec (\<lambda>g p. read_ok seen g (Inr (Some (ver, v))) p) (check ver) (\<lambda>g r p. check_post ver g r p \<and> ?F g)"
      by (rule spec_mono) (auto simp: read_ok_def)
    then show ?thesis
      by (rule spec_attempt)
         (auto simp: check_post_def read_ok_def split: sum.split intro!: spec_ok spec_fail dest: seen_authentic)
  qed
  have step: "spec (\<lambda>g p. read_ok seen g (Inr r) p)
      (case r of
         None \<Rightarrow> ok (Inr None)
       | Some (ver, v) \<Rightarrow>
           attempt (check ver) (\<lambda>r. case r of Inr _ \<Rightarrow> ok (Inr (Some (ver, v))) | Inl e \<Rightarrow> if e = ObjectVersionExists then ok (Inl ()) else fail e)) ?Q" for r
    using checked by (cases r) (auto simp: read_ok_def intro: spec_ok)
  show ?thesis
    unfolding try_read_latest_def
    by (rule spec_loop [where J = "\<lambda>_. proto_ok"], rule spec_bind_ok [OF try_read_latest_unchecked_spec _ step]) (simp add: read_ok_def)
qed

subsection \<open>Operations on objects\<close>

definition version_value :: "ghost \<Rightarrow> u64 \<Rightarrow> 'v \<Rightarrow> bool" where
  "version_value g ver v \<longleftrightarrow> (\<exists>b. authentic g ver b \<and> oc_decode codec b = Inr v)"

definition object_ok :: "ghost \<Rightarrow> 'v simple_object \<Rightarrow> bool" where
  "object_ok g o' \<longleftrightarrow> proto_ok g (so_ops o') \<and> version_value g (so_id o') (so_object o')"

definition linked :: "ghost \<Rightarrow> u64 \<Rightarrow> 'v \<Rightarrow> 'v \<Rightarrow> bool" where
  "linked g n v0 v \<longleftrightarrow> version_value g n v0 \<and> mine g (next_id n) (oc_encode codec v)"

definition grows :: "'v \<Rightarrow> 'v \<Rightarrow> bool" where
  "grows v0 v \<longleftrightarrow> get_epoch v0 \<le> get_epoch v \<or> get_epoch v0 = - 1"

lemma version_value_extends: "version_value g ver v \<Longrightarrow> gh_extends g g' \<Longrightarrow> version_value g' ver v"
  unfolding version_value_def by (blast intro: authentic_extends)

lemma linked_extends: "linked g n v0 v \<Longrightarrow> gh_extends g g' \<Longrightarrow> linked g' n v0 v"
  unfolding linked_def by (blast intro: version_value_extends mine_extends)

lemma mine_value: "mine g ver (oc_encode codec v) \<Longrightarrow> version_value g ver v"
  using decode_encode by (auto simp: mine_def version_value_def authentic_def)

lemma version_value_follows:
  "version_value g n v0 \<Longrightarrow> grows v0 v \<Longrightarrow> follows_version codec get_epoch g (next_id n) (oc_encode codec v)"
  using decode_encode by (auto simp: version_value_def grows_def follows_version_def follows_def)

lemma object_ok_ops: "object_ok g o' \<Longrightarrow> proto_ok g p \<Longrightarrow> object_ok g (o'\<lparr>so_ops := p\<rparr>)"
  by (simp add: object_ok_def)

lemma refresh_spec: "spec object_ok (refresh codec) (\<lambda>g r. object_ok g)"
  unfolding refresh_def
proof (rule spec_bind_ok)
  let ?R = "\<lambda>g r (o' :: 'v simple_object). object_ok g o' \<and> (\<forall>ver v. r = Inr (Some (ver, v)) \<longrightarrow> version_value g ver v)"
  show "spec object_ok (on_ops (try_read_latest codec)) ?R"
    unfolding on_ops_def
  proof (rule spec_on_part)
    fix o' :: "'v simple_object"
    have "spec (\<lambda>g p. proto_ok g p \<and> version_value g (so_id o') (so_object o')) (try_read_latest codec)
        (\<lambda>g r p. read_ok authentic g r p \<and> version_value g (so_id o') (so_object o'))"
      by (rule spec_frame [OF try_read_latest_spec version_value_extends])
    then show "spec (\<lambda>g p. object_ok g o' \<and> p = so_ops o') (try_read_latest codec) (\<lambda>g r p. ?R g r (o'\<lparr>so_ops := p\<rparr>))"
      by (rule spec_mono) (auto simp: object_ok_def read_ok_def version_value_def)
  qed
  fix r
  show "spec (\<lambda>g o'. ?R g (Inr r) o')
      (case r of None \<Rightarrow> fail InvalidObjectState | Some (ver, v) \<Rightarrow> modify (\<lambda>o'. o'\<lparr>so_id := ver, so_object := v\<rparr>)) (\<lambda>g r. object_ok g)"
    by (auto split: option.split simp: object_ok_def intro!: spec_fail spec_modify)
qed simp

text \<open>An update that succeeds replaces the value of the version it is based on.\<close>

definition update_post :: "u64 \<Rightarrow> 'v \<Rightarrow> 'v dirty_object \<Rightarrow> ghost \<Rightarrow> tx_error + unit \<Rightarrow> 'v simple_object \<Rightarrow> bool" where
  "update_post n v0 dirty g r o' \<longleftrightarrow> object_ok g o'
     \<and> (case r of
          Inr _ \<Rightarrow> so_id o' = next_id n \<and> so_object o' = do_value dirty \<and> linked g n v0 (do_value dirty)
        | Inl _ \<Rightarrow> so_id o' = n \<and> so_object o' = v0)"

lemma update_spec:
  "spec (\<lambda>g o'. object_ok g o' \<and> so_id o' = n \<and> so_object o' = v0 \<and> grows v0 (do_value dirty)) (update codec dirty) (update_post n v0 dirty)"
  unfolding update_def
proof (rule spec_get_state)
  fix o0
  let ?v = "do_value dirty" and ?P = "\<lambda>g (o' :: 'v simple_object). (object_ok g o' \<and> so_id o' = n \<and> so_object o' = v0 \<and> grows v0 (do_value dirty)) \<and> o' = o0"
  let ?R = "\<lambda>g r (o' :: 'v simple_object). object_ok g o' \<and> so_id o' = n \<and> so_object o' = v0 \<and> (\<forall>x. r = Inr x \<longrightarrow> x = next_id n \<and> linked g n v0 ?v)"
  have written: "spec ?P (on_ops (protocol_write codec (Some n) ?v)) ?R" if "grows v0 ?v"
    unfolding on_ops_def
  proof (rule spec_on_part)
    fix o' :: "'v simple_object"
    have "spec (\<lambda>g p. (proto_ok g p \<and> follows_version codec get_epoch g (next_id n) (oc_encode codec ?v)) \<and> version_value g n v0)
        (protocol_write codec (Some n) ?v)
        (\<lambda>g r p. (proto_ok g p \<and> (\<forall>x. r = Inr x \<longrightarrow> x = next_id n \<and> mine g (next_id n) (oc_encode codec ?v))) \<and> version_value g n v0)"
      using spec_frame [OF protocol_write_spec [of "Some n" ?v], of "\<lambda>g. version_value g n v0", OF version_value_extends] by (simp add: next_version_def)
    then show "spec (\<lambda>g p. ?P g o' \<and> p = so_ops o') (protocol_write codec (Some n) ?v) (\<lambda>g r p. ?R g r (o'\<lparr>so_ops := p\<rparr>))"
    proof (cases "so_id o' = n \<and> so_object o' = v0")
      case False
      then show ?thesis by (auto simp: spec_def)
    next
      case True
      assume a: "spec (\<lambda>g p. (proto_ok g p \<and> follows_version codec get_epoch g (next_id n) (oc_encode codec ?v)) \<and> version_value g n v0)
        (protocol_write codec (Some n) ?v)
        (\<lambda>g r p. (proto_ok g p \<and> (\<forall>x. r = Inr x \<longrightarrow> x = next_id n \<and> mine g (next_id n) (oc_encode codec ?v))) \<and> version_value g n v0)"
      from a show ?thesis
        by (rule spec_mono) (use True that in \<open>auto simp: object_ok_def linked_def intro: version_value_follows\<close>)
    qed
  qed
  have wr: "spec ?P (bind_ok (on_ops (protocol_write codec (Some n) ?v)) (\<lambda>ver. modify (\<lambda>o'. o'\<lparr>so_id := ver, so_object := ?v\<rparr>)))
      (update_post n v0 dirty)" if "grows v0 ?v"
    by (rule spec_bind_ok [OF written [OF that]])
       (auto simp: update_post_def object_ok_def linked_def intro!: spec_modify intro: mine_value)
  show "spec ?P
      (if do_id dirty \<noteq> so_id o0 then fail ObjectVersionExists
       else case first_violation (so_invariants o0) ?v (so_object o0) of
           Some e \<Rightarrow> fail (CallbackError e)
         | None \<Rightarrow> bind_ok (on_ops (protocol_write codec (Some (do_id dirty)) ?v)) (\<lambda>ver. modify (\<lambda>o'. o'\<lparr>so_id := ver, so_object := ?v\<rparr>)))
      (update_post n v0 dirty)"
  proof (cases "do_id dirty = so_id o0 \<and> first_violation (so_invariants o0) ?v (so_object o0) = None \<and> so_id o0 = n \<and> grows v0 ?v")
    case True
    then show ?thesis using wr by simp
  next
    case False
    then show ?thesis
      by (auto simp: update_post_def split: option.split intro!: spec_fail) (auto simp: spec_def)
  qed
qed

lemma init_spec:
  "spec proto_ok (simple_init codec v) (\<lambda>g r p. proto_ok g p \<and> (\<forall>o'. r = Inr o' \<longrightarrow> object_ok g o'))"
  unfolding simple_init_def
proof (rule spec_bind_ok)
  show "spec proto_ok (protocol_write codec None v)
      (\<lambda>g r p. proto_ok g p \<and> (\<forall>x. r = Inr x \<longrightarrow> mine g x (oc_encode codec v)))"
    by (rule spec_mono [OF protocol_write_spec]) (auto simp: next_version_def follows_version_def)
qed (auto simp: object_ok_def intro!: spec_get_state spec_ok mine_value)

lemma load_spec: "spec proto_ok (load codec) (\<lambda>g r p. proto_ok g p \<and> (\<forall>o'. r = Inr o' \<longrightarrow> object_ok g o'))"
proof -
  have built: "spec (\<lambda>g. read_ok authentic g (Inr r))
      (case r of None \<Rightarrow> ok None | Some (ver, v) \<Rightarrow> bind_ok get_state (\<lambda>p. ok (Some \<lparr>so_id = ver, so_object = v, so_ops = p, so_invariants = []\<rparr>)))
      (\<lambda>g r p. proto_ok g p \<and> (\<forall>o'. r = Inr (Some o') \<longrightarrow> object_ok g o'))" for r
    by (auto simp: read_ok_def object_ok_def version_value_def split: option.split intro!: spec_get_state spec_ok)
  have "spec proto_ok (try_load codec) (\<lambda>g r p. proto_ok g p \<and> (\<forall>o'. r = Inr (Some o') \<longrightarrow> object_ok g o'))"
    unfolding try_load_def by (rule spec_bind_ok [OF try_read_latest_spec _ built]) (simp add: read_ok_def)
  then show ?thesis unfolding load_def
    by (rule spec_bind_ok) (auto split: option.split intro!: spec_ok spec_fail)
qed

subsection \<open>Updates\<close>

text \<open>An accepted update: the new value is made from that of the preceding version, which has the epoch of the updater.\<close>

definition updated :: "ghost \<Rightarrow> u64 option \<Rightarrow> u64 \<Rightarrow> ('v \<Rightarrow> 'v) \<Rightarrow> 'v \<Rightarrow> bool" where
  "updated g e ver m v \<longleftrightarrow>
     (\<exists>n v0. ver = next_id n \<and> linked g n v0 v \<and> v = m v0 \<and> get_epoch v = get_epoch v0 \<and> (\<forall>x. e = Some x \<longrightarrow> get_epoch v0 = x))"

definition simple_post :: "('v \<Rightarrow> 'v) \<Rightarrow> ghost \<Rightarrow> tx_error + unit \<Rightarrow> 'v simple_object \<Rightarrow> bool" where
  "simple_post m g r o' \<longleftrightarrow> object_ok g o' \<and> (r = Inr () \<longrightarrow> updated g None (so_id o') m (so_object o'))"

definition fenced_post :: "('v \<Rightarrow> 'v) \<Rightarrow> ghost \<Rightarrow> tx_error + unit \<Rightarrow> 'v fenceable_object \<Rightarrow> bool" where
  "fenced_post m g r fo \<longleftrightarrow> object_ok g (fo_delegate fo)
     \<and> (r = Inr () \<longrightarrow> updated g (Some (fo_local_epoch fo)) (so_id (fo_delegate fo)) m (so_object (fo_delegate fo)))"

lemma updated_extends: "updated g e ver m v \<Longrightarrow> gh_extends g g' \<Longrightarrow> updated g' e ver m v"
  unfolding updated_def by (blast intro: linked_extends)

lemma update_mutated_spec:
  assumes "\<forall>v. get_epoch (m v) = get_epoch v"
  shows "spec (\<lambda>g o'. object_ok g o' \<and> o' = o0) (update codec (mutate m (prepare_dirty o0)))
    (\<lambda>g r o'. object_ok g o' \<and> (r = Inr () \<longrightarrow> so_id o' = next_id (so_id o0) \<and> so_object o' = m (so_object o0)
       \<and> linked g (so_id o0) (so_object o0) (so_object o')))"
  by (rule spec_mono [OF update_spec [of "so_id o0" "so_object o0"]])
     (use assms in \<open>auto simp: update_post_def grows_def mutate_def prepare_dirty_def\<close>)

lemma update_simple_step:
  assumes "\<forall>v. get_epoch (m v) = get_epoch v"
  shows "spec (\<lambda>g o'. object_ok g o' \<and> o' = o0) (update codec (mutate m (prepare_dirty o0))) (simple_post m)"
  by (rule spec_mono [OF update_mutated_spec [OF assms]]) (use assms in \<open>auto simp: simple_post_def updated_def intro!: exI [of _ "so_id o0"] exI [of _ "so_object o0"]\<close>)

lemma update_simple_spec:
  assumes "\<forall>v. get_epoch (m v) = get_epoch v"
  shows "spec object_ok (update_simple codec m) (simple_post m)"
  unfolding update_simple_def by (rule spec_get_state [OF update_simple_step [OF assms]])

lemma maybe_apply_update_spec:
  assumes upd: "\<And>s0 dirty. mutator s0 = Inr (Some dirty) \<Longrightarrow> spec (\<lambda>g s. I g s \<and> s = s0) (upd dirty) (\<lambda>g r s. I g s \<and> (r = Inr () \<longrightarrow> Q g s))"
    and refr: "spec I refr (\<lambda>g r s. I g s)"
    and quit: "\<And>g s. mutator s = Inr None \<Longrightarrow> I g s \<Longrightarrow> Q g s"
  shows "spec I (maybe_apply_update upd refr mutator) (\<lambda>g r s. I g s \<and> (r = Inr () \<longrightarrow> Q g s))"
  unfolding maybe_apply_update_def
proof (rule spec_loop [where J = "\<lambda>_. I"], rule spec_get_state)
  fix s0
  let ?R = "\<lambda>g (r :: tx_error + unit + unit) s.
    case r of
      Inl e \<Rightarrow> I g s \<and> ((Inl e :: tx_error + unit) = Inr () \<longrightarrow> Q g s)
    | Inr (Inl x) \<Rightarrow> I g s
    | Inr (Inr a) \<Rightarrow> I g s \<and> ((Inr a :: tx_error + unit) = Inr () \<longrightarrow> Q g s)"
  have retry: "spec I (bind_ok refr (\<lambda>_. ok (Inl ()))) ?R"
    by (rule spec_bind_ok [OF refr]) (auto intro: spec_ok)
  have "spec (\<lambda>g s. I g s \<and> s = s0)
      (attempt (upd dirty) (\<lambda>r. case r of
          Inr _ \<Rightarrow> ok (Inr ())
        | Inl e \<Rightarrow> if is_sequenced_write_conflict e then bind_ok refr (\<lambda>_. ok (Inl ())) else fail e)) ?R"
    if "mutator s0 = Inr (Some dirty)" for dirty
  proof (rule spec_attempt [OF upd [OF that]])
    fix r :: "tx_error + unit"
    show "spec (\<lambda>g s. I g s \<and> (r = Inr () \<longrightarrow> Q g s)) (case r of
          Inr _ \<Rightarrow> ok (Inr ())
        | Inl e \<Rightarrow> if is_sequenced_write_conflict e then bind_ok refr (\<lambda>_. ok (Inl ())) else fail e) ?R"
    proof (cases r)
      case (Inl e)
      then show ?thesis by (auto intro!: spec_fail intro: spec_mono [OF retry])
    qed (auto intro!: spec_ok)
  qed
  moreover have "spec (\<lambda>g s. I g s \<and> s = s0) (fail e) ?R" for e by (rule spec_fail) simp
  moreover have "spec (\<lambda>g s. I g s \<and> s = s0) (ok (Inr ())) ?R" if "mutator s0 = Inr None"
    by (rule spec_ok) (use quit that in auto)
  ultimately show "spec (\<lambda>g s. I g s \<and> s = s0)
      (case mutator s0 of
         Inl e \<Rightarrow> fail (CallbackError e)
       | Inr None \<Rightarrow> ok (Inr ())
       | Inr (Some dirty) \<Rightarrow> attempt (upd dirty) (\<lambda>r. case r of
             Inr _ \<Rightarrow> ok (Inr ())
           | Inl e \<Rightarrow> if is_sequenced_write_conflict e then bind_ok refr (\<lambda>_. ok (Inl ())) else fail e)) ?R"
    by (cases "mutator s0"; cases "projr (mutator s0)") simp_all
qed

lemma apply_simple_spec:
  assumes "\<forall>v. get_epoch (m v) = get_epoch v"
  shows "spec object_ok (apply_simple codec m) (simple_post m)"
  unfolding apply_simple_def
  by (rule spec_mono [OF maybe_apply_update_spec [where I = object_ok and Q = "\<lambda>g o'. updated g None (so_id o') m (so_object o')"]])
     (auto simp: simple_post_def intro!: refresh_spec spec_mono [OF update_simple_step [OF assms]])

subsection \<open>Fencing\<close>

definition fence_ok :: "ghost \<Rightarrow> 'v fenceable_object \<Rightarrow> bool" where
  "fence_ok g fo \<longleftrightarrow> object_ok g (fo_delegate fo)"

definition claimed :: "ghost \<Rightarrow> u64 \<Rightarrow> u64 \<Rightarrow> bool" where
  "claimed g e ver \<longleftrightarrow>
     (\<exists>n v0 v. ver = next_id n \<and> linked g n v0 v \<and> get_epoch v = e \<and> (get_epoch v0 < e \<or> get_epoch v0 = - 1))"

definition claim_post :: "ghost \<Rightarrow> tx_error + 'v fenceable_object \<Rightarrow> 'v simple_object \<Rightarrow> bool" where
  "claim_post g r o' \<longleftrightarrow>
     (case r of
        Inr fo \<Rightarrow> fence_ok g fo \<and> claimed g (fo_local_epoch fo) (so_id (fo_delegate fo))
      | Inl _ \<Rightarrow> object_ok g o')"

lemma claimed_extends: "claimed g e ver \<Longrightarrow> gh_extends g g' \<Longrightarrow> claimed g' e ver"
  unfolding claimed_def by (blast intro: linked_extends)

text \<open>One attempt to claim an epoch, as both ways of claiming make it.\<close>

lemma claim_attempt_spec:
  assumes higher: "get_epoch (so_object o0) < e \<or> get_epoch (so_object o0) = - 1"
    and dirty: "dirty = \<lparr>do_id = so_id o0, do_value = set_epoch (so_object o0) e\<rparr>"
  shows "spec (\<lambda>g o'. object_ok g o' \<and> o' = o0)
    (attempt (update codec dirty) (\<lambda>r.
       case r of
         Inr _ \<Rightarrow> bind_ok get_state (\<lambda>delegate. ok (Inr \<lparr>fo_delegate = delegate, fo_local_epoch = e\<rparr>))
       | Inl e \<Rightarrow> if is_sequenced_write_conflict e then bind_ok (refresh codec) (\<lambda>_. ok (Inl ())) else fail e))
    (\<lambda>g r o'. case r of Inl err \<Rightarrow> claim_post g (Inl err) o' | Inr (Inl x) \<Rightarrow> object_ok g o' | Inr (Inr fo) \<Rightarrow> claim_post g (Inr fo) o')"
    (is "spec ?P _ ?Q")
proof (rule spec_attempt [where R = "update_post (so_id o0) (so_object o0) dirty"])
  show "spec ?P (update codec dirty) (update_post (so_id o0) (so_object o0) dirty)"
    by (rule spec_mono [OF update_spec]) (use higher in \<open>auto simp: dirty grows_def get_set_epoch\<close>)
  fix r
  have retry: "spec object_ok (bind_ok (refresh codec) (\<lambda>_. ok (Inl ()))) ?Q"
    by (rule spec_bind_ok [OF refresh_spec]) (auto simp: claim_post_def intro: spec_ok)
  show "spec (\<lambda>g. update_post (so_id o0) (so_object o0) dirty g r)
      (case r of
         Inr _ \<Rightarrow> bind_ok get_state (\<lambda>delegate. ok (Inr \<lparr>fo_delegate = delegate, fo_local_epoch = e\<rparr>))
       | Inl e \<Rightarrow> if is_sequenced_write_conflict e then bind_ok (refresh codec) (\<lambda>_. ok (Inl ())) else fail e) ?Q"
  proof (cases r)
    case (Inl err)
    then show ?thesis
      by (auto simp: update_post_def claim_post_def intro!: spec_fail intro: spec_mono [OF retry])
  next
    case (Inr x)
    have "claimed g e (next_id (so_id o0))" if "linked g (so_id o0) (so_object o0) (set_epoch (so_object o0) e)" for g
      unfolding claimed_def using that higher get_set_epoch by blast
    with Inr show ?thesis
      by (auto simp: update_post_def claim_post_def fence_ok_def dirty intro!: spec_get_state spec_ok)
  qed
qed

lemma fence_init_spec: "spec object_ok (fence_init codec get_epoch set_epoch) claim_post"
  unfolding fence_init_def Let_def
proof (rule spec_loop [where J = "\<lambda>_. object_ok"], rule spec_get_state, rule claim_attempt_spec)
  fix o0 :: "'v simple_object"
  show "get_epoch (so_object o0) < get_epoch (so_object o0) + 1 \<or> get_epoch (so_object o0) = - 1"
    using inc_less_eq_triv_imp linorder_not_less by blast
qed (simp add: prepare_dirty_def)

lemma fence_init_with_epoch_spec: "spec object_ok (fence_init_with_epoch codec get_epoch set_epoch epoch exact_epoch) claim_post"
  unfolding fence_init_with_epoch_def Let_def
proof (rule spec_loop [where J = "\<lambda>_. object_ok"], rule spec_get_state, goal_cases)
  case (1 _ o0)
  show ?case
  proof (cases "epoch \<le> get_epoch (so_object o0)")
    case True
    then show ?thesis by (auto simp: claim_post_def intro!: spec_fail)
  next
    case False
    then show ?thesis
      by (auto simp: claim_post_def prepare_dirty_def intro!: spec_fail claim_attempt_spec)
  qed
qed

lemma check_epoch_spec:
  "spec P (check_epoch get_epoch) (\<lambda>g r fo. P g fo \<and> (r = Inr () \<longrightarrow> get_epoch (so_object (fo_delegate fo)) = fo_local_epoch fo))"
  unfolding check_epoch_def Let_def by (rule spec_get_state) (auto intro!: spec_fail spec_ok)

lemma fence_refresh_spec: "spec fence_ok (fence_refresh codec get_epoch) (\<lambda>g r. fence_ok g)"
  unfolding fence_refresh_def
proof (rule spec_bind_ok [where R = "\<lambda>g r. fence_ok g"])
  show "spec fence_ok (on_delegate (refresh codec)) (\<lambda>g r. fence_ok g)"
    unfolding on_delegate_def by (rule spec_on_part, rule spec_mono [OF refresh_spec]) (auto simp: fence_ok_def)
  show "spec fence_ok (check_epoch get_epoch) (\<lambda>g r. fence_ok g)"
    by (rule spec_mono [OF check_epoch_spec [of fence_ok]]) auto
qed

lemma fence_update_spec:
  assumes keep: "\<forall>v. get_epoch (m v) = get_epoch v"
  shows "spec (\<lambda>g fo. fence_ok g fo \<and> fo = fo0) (fence_update codec get_epoch (mutate m (prepare_dirty (fo_delegate fo0)))) (fenced_post m)"
  unfolding fence_update_def
proof (rule spec_bind_ok [OF check_epoch_spec])
  show "fenced_post m g (Inl e) fo" if "(fence_ok g fo \<and> fo = fo0) \<and> (Inl e = Inr () \<longrightarrow> get_epoch (so_object (fo_delegate fo)) = fo_local_epoch fo)" for g e fo
    using that by (auto simp: fence_ok_def fenced_post_def)
  fix x :: unit
  show "spec (\<lambda>g fo. (fence_ok g fo \<and> fo = fo0) \<and> (Inr x = Inr () \<longrightarrow> get_epoch (so_object (fo_delegate fo)) = fo_local_epoch fo))
      (on_delegate (update codec (mutate m (prepare_dirty (fo_delegate fo0))))) (fenced_post m)"
    unfolding on_delegate_def
  proof (rule spec_on_part)
    fix fo :: "'v fenceable_object"
    show "spec (\<lambda>g o'. ((fence_ok g fo \<and> fo = fo0) \<and> (Inr x = Inr () \<longrightarrow> get_epoch (so_object (fo_delegate fo)) = fo_local_epoch fo)) \<and> o' = fo_delegate fo)
      (update codec (mutate m (prepare_dirty (fo_delegate fo0)))) (\<lambda>g r o'. fenced_post m g r (fo\<lparr>fo_delegate := o'\<rparr>))"
    proof (cases "fo = fo0 \<and> get_epoch (so_object (fo_delegate fo)) = fo_local_epoch fo")
      case True
      then show ?thesis
        by (intro spec_mono [OF update_mutated_spec [OF keep]])
           (use keep in \<open>auto simp: fence_ok_def fenced_post_def updated_def
              intro!: exI [of _ "so_id (fo_delegate fo0)"] exI [of _ "so_object (fo_delegate fo0)"]\<close>)
    qed (auto simp: spec_def)
  qed
qed

lemma update_fenced_spec:
  assumes "\<forall>v. get_epoch (m v) = get_epoch v"
  shows "spec fence_ok (update_fenced codec get_epoch m) (fenced_post m)"
  unfolding update_fenced_def
proof (rule spec_bind_ok)
  let ?R = "\<lambda>g r fo. fence_ok g fo \<and> (\<forall>d. r = Inr d \<longrightarrow> d = prepare_dirty (fo_delegate fo))"
  show "spec fence_ok (fence_prepare_dirty get_epoch) ?R"
    unfolding fence_prepare_dirty_def
    by (rule spec_bind_ok [OF check_epoch_spec]) (auto intro!: spec_get_state spec_ok)
  show "fenced_post m g (Inl e) fo" if "?R g (Inl e) fo" for g e fo
    using that by (simp add: fence_ok_def fenced_post_def)
  fix d
  show "spec (\<lambda>g. ?R g (Inr d)) (fence_update codec get_epoch (mutate m d)) (fenced_post m)"
    unfolding spec_def using fence_update_spec [OF assms] by (auto simp: spec_def)
qed

lemma apply_fenced_spec:
  assumes "\<forall>v. get_epoch (m v) = get_epoch v"
  shows "spec fence_ok (apply_fenced codec get_epoch m) (fenced_post m)"
  unfolding apply_fenced_def
proof (rule spec_mono [OF maybe_apply_update_spec [where I = fence_ok
        and Q = "\<lambda>g fo. updated g (Some (fo_local_epoch fo)) (so_id (fo_delegate fo)) m (so_object (fo_delegate fo))"]], goal_cases)
  case (1 fo dirty)
  then have "dirty = mutate m (prepare_dirty (fo_delegate fo))" by simp
  then show ?case
    by (simp only:, intro spec_mono [OF fence_update_spec [OF assms]]) (auto simp: fenced_post_def fence_ok_def)
next
  case 2
  show ?case by (rule fence_refresh_spec)
qed (auto simp: fenced_post_def fence_ok_def)

subsection \<open>Every operation of a process\<close>

fun client_ok :: "ghost \<Rightarrow> 'v client_state \<Rightarrow> bool" where
  "client_ok g (Unloaded p) \<longleftrightarrow> proto_ok g p"
| "client_ok g (Loaded o') \<longleftrightarrow> object_ok g o'"
| "client_ok g (Claimed fo) \<longleftrightarrow> fence_ok g fo"

fun event_ok :: "ghost \<Rightarrow> 'v event \<Rightarrow> bool" where
  "event_ok g (ClaimedEpoch e ver) \<longleftrightarrow> claimed g e ver"
| "event_ok g (Updated e ver m v) \<longleftrightarrow> updated g e ver m v"
| "event_ok g (Observed ver v) \<longleftrightarrow> version_value g ver v"

definition outcome_ok :: "ghost \<Rightarrow> 'v outcome \<Rightarrow> bool" where
  "outcome_ok g out \<longleftrightarrow> (\<forall>ev \<in> set (fst out). event_ok g ev) \<and> client_ok g (snd out)"

lemma object_ok_extends: "object_ok g o' \<Longrightarrow> gh_extends g g' \<Longrightarrow> object_ok g' o'"
  unfolding object_ok_def by (blast intro: proto_ok_extends version_value_extends)

lemma client_ok_extends: "client_ok g st \<Longrightarrow> gh_extends g g' \<Longrightarrow> client_ok g' st"
  by (cases st) (auto simp: fence_ok_def intro: proto_ok_extends object_ok_extends)

lemma event_ok_extends: "event_ok g ev \<Longrightarrow> gh_extends g g' \<Longrightarrow> event_ok g' ev"
  by (cases ev) (auto intro: claimed_extends updated_extends version_value_extends)

lemma settle_ok: "client_ok g st \<Longrightarrow> \<forall>ev \<in> set events. event_ok g ev \<Longrightarrow> outcome_ok g (settle events st)"
  by (cases st) (auto simp: outcome_ok_def settle_def object_ok_def fence_ok_def)

lemma finally_do_safe:
  assumes "spec P act Q" "P g s" "\<And>g r s. Q g r s \<Longrightarrow> outcome_ok g (f (r, s))"
  shows "safe outcome_ok g (finally_do act f s)"
proof -
  from assms(1,2) have "safe (\<lambda>g (r, s). Q g r s) g (act s)" by (simp add: spec_def)
  then show ?thesis unfolding finally_do_def by (rule safe_bind) (auto intro!: safe_Ret assms(3))
qed

lemma loaded_end_ok: "proto_ok g p \<and> (\<forall>o'. r = Inr o' \<longrightarrow> object_ok g o') \<Longrightarrow> outcome_ok g (loaded_end (r, p))"
  by (cases r) (auto simp: loaded_end_def intro!: settle_ok)

lemma simple_end_ok: "simple_post m g r o' \<Longrightarrow> outcome_ok g (simple_end m (r, o'))"
  by (cases r) (auto simp: simple_end_def simple_post_def intro!: settle_ok)

lemma fenced_end_ok: "fenced_post m g r fo \<Longrightarrow> outcome_ok g (fenced_end m (r, fo))"
  by (cases r) (auto simp: fenced_end_def fenced_post_def fence_ok_def intro!: settle_ok)

lemma claimed_end_ok: "claim_post g r o' \<Longrightarrow> outcome_ok g (claimed_end (r, o'))"
  by (cases r) (auto simp: claimed_end_def claim_post_def intro!: settle_ok)

lemma run_operation_safe:
  assumes "client_ok g st" "keeps_epoch get_epoch op"
  shows "safe outcome_ok g (run_operation codec get_epoch set_epoch op st)"
proof -
  have idle: "safe outcome_ok g (Ret (settle [] st))" using assms(1) by (auto intro!: safe_Ret settle_ok)
  show ?thesis
  proof (cases st)
    case (Unloaded p)
    with assms idle show ?thesis
      by (cases op) (auto intro: finally_do_safe [OF init_spec] finally_do_safe [OF load_spec] loaded_end_ok
          intro!: finally_do_safe [OF advance_spec] finally_do_safe [OF delete_spec] settle_ok)
  next
    case (Loaded o')
    with assms idle show ?thesis
      by (cases op) (auto intro: finally_do_safe [OF update_simple_spec]
          finally_do_safe [OF apply_simple_spec] finally_do_safe [OF fence_init_spec]
          finally_do_safe [OF fence_init_with_epoch_spec] simple_end_ok claimed_end_ok
          intro!: finally_do_safe [OF refresh_spec] settle_ok)
  next
    case (Claimed fo)
    with assms idle show ?thesis
      by (cases op) (auto intro: finally_do_safe [OF update_fenced_spec] finally_do_safe [OF apply_fenced_spec] fenced_end_ok
          intro!: finally_do_safe [OF fence_refresh_spec] settle_ok)
  qed
qed

end

end
