(* ===== verification/Fencing.thy ===== *)
theory Fencing
  imports ObjectSpecs RowCodec
begin

section \<open>Fencing of transactional objects\<close>

text \<open>
  The versions of the object form one chain, in which each was made from the one before it, accepted
  updates are links of this chain, and once a process has claimed an epoch no process with a lower
  one gets an update accepted.
\<close>

locale cluster_laws = object_store os_files os_boundary os_call content_of
  for os_files :: "'os \<Rightarrow> u64 \<rightharpoonup> bytes"
    and os_boundary :: "'os \<Rightarrow> (u64 \<times> update_version) option"
    and os_call :: "'os \<Rightarrow> store_request \<Rightarrow> store_response \<Rightarrow> 'os \<Rightarrow> bool"
    and content_of :: "update_version \<Rightarrow> u64" +
  fixes codec :: "'v object_codec" and ge :: "'v \<Rightarrow> u64" and se :: "'v \<Rightarrow> u64 \<Rightarrow> 'v"
  assumes decode_encode: "oc_decode codec (oc_encode codec v) = Inr v"
    and get_set_epoch: "ge (se v e) = e"

sublocale cluster_laws \<subseteq> vo: versioned_object codec ge se content_of k for k
  by unfold_locales (auto intro: decode_encode get_set_epoch same_e_tag)

context cluster_laws
begin

definition bound_of :: "'os \<Rightarrow> u64" where
  "bound_of s = (case os_boundary s of Some (b, _) \<Rightarrow> b | None \<Rightarrow> 0)"

definition store_inv :: "ghost \<Rightarrow> 'os \<Rightarrow> bool" where
  "store_inv g s \<longleftrightarrow>
     (\<forall>ver b. os_files s ver = Some b \<longrightarrow> seen g ver b)
     \<and> (\<forall>ver. os_files s ver = None \<longrightarrow> first_created g ver = None \<or> ver \<le> gh_bnd g)
     \<and> gh_bnd g = bound_of s"

definition chain :: "ghost \<Rightarrow> bool" where
  "chain g \<longleftrightarrow> (\<forall>ver b i. first_created g ver = Some (b, i) \<longrightarrow> (\<exists>v. oc_decode codec b = Inr v) \<and> follows_version codec ge g ver b)"

definition sent :: "store_request list \<Rightarrow> ghost \<Rightarrow> bool" where
  "sent qs g \<longleftrightarrow> (\<forall>ver b i. first_created g ver = Some (b, i) \<longrightarrow> CreateFile ver b \<in> set qs)"

definition client_inv :: "ghost \<Rightarrow> 'v client \<Rightarrow> bool" where
  "client_inv g x \<longleftrightarrow>
     (case x of
        Idle st \<Rightarrow> vo.client_ok g st
      | Running k p \<Rightarrow> \<exists>g0. gh_extends g0 g \<and> vo.safe k (vo.outcome_ok k) g0 p)"

definition cluster_inv :: "ghost \<Rightarrow> ('os, 'v) cluster \<Rightarrow> bool" where
  "cluster_inv g c \<longleftrightarrow> store_inv g (cl_store c) \<and> chain g \<and> sent (cl_requests c) g
     \<and> (\<forall>i. client_inv g (cl_clients c i)) \<and> (\<forall>(k, ev) \<in> set (cl_log c). vo.event_ok k g ev)"

lemma store_invD:
  assumes "store_inv g s"
  shows "os_files s ver = Some b \<Longrightarrow> seen g ver b"
    and "os_files s ver = None \<Longrightarrow> first_created g ver = None \<or> ver \<le> gh_bnd g"
    and "gh_bnd g = bound_of s"
  using assms unfolding store_inv_def by blast+

lemma store_invI:
  assumes "\<And>ver b. os_files s ver = Some b \<Longrightarrow> seen g ver b"
    and "\<And>ver. os_files s ver = None \<Longrightarrow> first_created g ver = None \<or> ver \<le> gh_bnd g"
    and "gh_bnd g = bound_of s"
  shows "store_inv g s"
  using assms unfolding store_inv_def by blast

text \<open>Each call to the store is answered as the specifications of the operations rely on.\<close>

lemma store_inv_boundary:
  assumes "store_inv g s" "os_files s' = os_files s" "os_boundary s' = Some (b, version)" "gh_bnd g \<le> b"
  shows "store_inv (g\<lparr>gh_bnd := b\<rparr>) s'"
proof (rule store_invI)
  have ext: "gh_extends g (g\<lparr>gh_bnd := b\<rparr>)" using assms(4) by (simp add: gh_extends_def)
  show "seen (g\<lparr>gh_bnd := b\<rparr>) ver x" if "os_files s' ver = Some x" for ver x
    using store_invD(1) [OF assms(1), of ver x] that assms(2) seen_extends [OF _ ext] by simp
  show "first_created (g\<lparr>gh_bnd := b\<rparr>) ver = None \<or> ver \<le> gh_bnd (g\<lparr>gh_bnd := b\<rparr>)" if "os_files s' ver = None" for ver
    using store_invD(2) [OF assms(1), of ver] that assms(2,4) by (auto simp: first_created_def)
qed (simp add: assms(3) bound_of_def)

lemma chain_boundary [simp]: "chain (g\<lparr>gh_bnd := b\<rparr>) = chain g"
  by (simp add: chain_def follows_version_def authentic_def first_created_def)

lemma chain_add:
  assumes "chain g" "permitted codec ge content_of g (CreateFile ver b)"
  shows "chain (add_created ver b k g)"
proof -
  have ext: "gh_extends g (add_created ver b k g)" by (simp add: gh_extends_def add_created_def)
  show ?thesis unfolding chain_def
  proof (intro allI impI)
    fix n b' i assume "first_created (add_created ver b k g) n = Some (b', i)"
    then have "n = ver \<and> b' = b \<and> first_created g ver = None \<or> first_created g n = Some (b', i)"
      by (auto simp: first_created_add split: if_splits)
    then have "(\<exists>v. oc_decode codec b' = Inr v) \<and> follows_version codec ge g n b'"
      using assms by (auto simp: chain_def)
    with ext show "(\<exists>v. oc_decode codec b' = Inr v) \<and> follows_version codec ge (add_created ver b k g) n b'"
      by (blast intro: vo.follows_version_extends)
  qed
qed

lemma store_inv_add:
  assumes "store_inv g s" "os_files s ver = None" "os_files s' = (os_files s)(ver \<mapsto> b)" "os_boundary s' = os_boundary s"
  shows "store_inv (add_created ver b k g) s'"
proof (rule store_invI)
  have ext: "gh_extends g (add_created ver b k g)" by (simp add: gh_extends_def add_created_def)
  show "seen (add_created ver b k g) n x" if "os_files s' n = Some x" for n x
  proof (cases "n = ver")
    case True
    with that assms(3) store_invD(2) [OF assms(1,2)] show ?thesis
      by (auto simp: seen_def first_created_add) (auto simp: add_created_def)
  next
    case False
    with that assms(3) have "os_files s n = Some x" by simp
    from seen_extends [OF store_invD(1) [OF assms(1) this] ext] show ?thesis .
  qed
  show "first_created (add_created ver b k g) n = None \<or> n \<le> gh_bnd (add_created ver b k g)" if "os_files s' n = None" for n
    using store_invD(2) [OF assms(1), of n] that assms(3)
    by (cases "n = ver") (auto simp: first_created_add, auto simp: add_created_def)
  show "gh_bnd (add_created ver b k g) = bound_of s'"
    using store_invD(3) [OF assms(1)] assms(4) by (simp add: add_created_def bound_of_def)
qed

lemma store_inv_delete:
  assumes "store_inv g s" "ver \<le> gh_bnd g" "os_files s' = (os_files s)(ver := None)" "os_boundary s' = os_boundary s"
  shows "store_inv g s'"
proof (rule store_invI)
  show "seen g n x" if "os_files s' n = Some x" for n x
    using store_invD(1) [OF assms(1), of n x] that assms(3) by (simp split: if_splits)
  show "first_created g n = None \<or> n \<le> gh_bnd g" if "os_files s' n = None" for n
    using store_invD(2) [OF assms(1), of n] that assms(2,3) by (cases "n = ver") simp_all
  show "gh_bnd g = bound_of s'" using store_invD(3) [OF assms(1)] assms(4) by (simp add: bound_of_def)
qed

definition served :: "nat \<Rightarrow> ghost \<Rightarrow> store_request \<Rightarrow> store_response \<Rightarrow> 'os \<Rightarrow> ghost \<Rightarrow> bool" where
  "served k g q r s' g' \<longleftrightarrow> answers content_of k g q r g' \<and> store_inv g' s' \<and> chain g'
     \<and> (\<forall>ver b i. first_created g' ver = Some (b, i) \<longrightarrow> first_created g ver = Some (b, i) \<or> q = CreateFile ver b)"

lemma current_boundary: "store_inv g s \<Longrightarrow> os_boundary s = Some (b, version) \<Longrightarrow> gh_bnd g = b \<and> content_of version = b"
  using content_of by (auto simp: store_inv_def bound_of_def)

lemma boundary_stored:
  assumes I: "store_inv g s" "chain g" and bnd: "gh_bnd g \<le> b"
    and stored: "os_files s' = os_files s" "os_boundary s' = Some (b, version)" "\<forall>version'. r = Stored version' \<longrightarrow> version' = version"
    and q: "q = CreateBoundary b \<and> gh_bnd g = 0 \<or> (\<exists>expected. q = UpdateBoundary expected b \<and> content_of expected = gh_bnd g)"
  shows "served k g q r s' (g\<lparr>gh_bnd := b\<rparr>)"
  using q stored(3) content_of [OF stored(2)] store_inv_boundary [OF I(1) stored(1,2) bnd] I(2) unfolding served_def
  by (auto simp: first_created_def)

lemma store_call:
  assumes I: "store_inv g s" "chain g" and q: "permitted codec ge content_of g q" and call: "os_call s q r s'"
  shows "\<exists>g'. served k g q r s' g'"
proof -
  have same: "\<exists>g'. served k g q r s' g'" if "s' = s" "answers content_of k g q r g"
    using that I by (auto simp: served_def)
  show ?thesis
  proof (cases q)
    case (GetFile ver)
    with get_file call I(1) show ?thesis by (intro same) (auto simp: store_inv_def)
  next
    case (CreateFile ver b)
    from create_file [OF call [unfolded CreateFile]] show ?thesis
    proof (elim disjE conjE)
      assume new: "os_files s ver = None" "os_files s' = (os_files s)(ver \<mapsto> b)" "os_boundary s' = os_boundary s"
      then have "first_created g ver = None \<or> ver \<le> gh_bnd g" using I(1) unfolding store_inv_def by blast
      then have "served k g q r s' (add_created ver b k g)"
        using store_inv_add [OF I(1) new] chain_add [OF I(2) q [unfolded CreateFile]] unfolding served_def CreateFile
        by (auto simp: first_created_add split: if_splits)
      then show ?thesis ..
    qed (intro same, simp_all add: CreateFile)
  next
    case (DeleteFile ver)
    from delete_file [OF call [unfolded DeleteFile]] show ?thesis
    proof (elim disjE conjE)
      assume del: "os_files s' = (os_files s)(ver := None)" "os_boundary s' = os_boundary s"
      have "store_inv g s'" by (rule store_inv_delete [OF I(1) _ del]) (use q DeleteFile in simp)
      then have "served k g q r s' g" using I(2) by (auto simp: served_def DeleteFile)
      then show ?thesis ..
    qed (intro same, simp_all add: DeleteFile)
  next
    case ListFiles
    with list_calls [OF call [unfolded ListFiles]] show ?thesis by (intro same) simp_all
  next
    case (GetBoundary tag)
    from get_boundary [OF call [unfolded GetBoundary]] show ?thesis
      using current_boundary [OF I(1)] I(1) by (intro same) (auto simp: GetBoundary store_inv_def bound_of_def)
  next
    case (CreateBoundary b)
    from create_boundary [OF call [unfolded CreateBoundary]] show ?thesis
    proof (elim disjE conjE exE)
      fix version assume new: "os_boundary s = None" "os_files s' = os_files s" "os_boundary s' = Some (b, version)"
        "\<forall>version'. r = Stored version' \<longrightarrow> version' = version"
      from new(1) I(1) have "gh_bnd g = 0" by (simp add: store_inv_def bound_of_def)
      with boundary_stored [OF I _ new(2-4)] CreateBoundary show ?thesis by auto
    qed (intro same, simp_all add: CreateBoundary)
  next
    case (UpdateBoundary expected b)
    from update_boundary [OF call [unfolded UpdateBoundary]] show ?thesis
    proof (elim disjE conjE exE)
      fix b0 current version assume new: "os_files s' = os_files s" "os_boundary s' = Some (b, version)"
        "\<forall>version'. r = Stored version' \<longrightarrow> version' = version"
        and old: "os_boundary s = Some (b0, current)" "uv_e_tag expected \<noteq> None" "uv_e_tag current = uv_e_tag expected"
      have "content_of expected = gh_bnd g"
        using current_boundary [OF I(1) old(1)] same_e_tag [of expected current] old(2,3) by simp
      with boundary_stored [OF I _ new] UpdateBoundary q show ?thesis by auto
    qed (intro same, simp_all add: UpdateBoundary)
  qed
qed

text \<open>The invariant holds in every state of every run.\<close>

lemma client_inv_extends: "client_inv g x \<Longrightarrow> gh_extends g g' \<Longrightarrow> client_inv g' x"
  by (cases x) (auto simp: client_inv_def intro: vo.client_ok_extends vo.extends_trans)

lemma cluster_inv_step:
  assumes "cluster_step os_call codec ge se c c'" "cluster_inv g c"
  shows "\<exists>g'. cluster_inv g' c'"
proof -
  from assms(2) have clients: "client_inv g (cl_clients c i)" for i by (simp add: cluster_inv_def)
  from assms(1) show ?thesis
  proof cases
    case (start i st op)
    from clients [of i] have "vo.client_ok g st" using start by (simp add: client_inv_def)
    from vo.run_operation_safe [OF this start(3)]
    have "client_inv g (Running (cl_started c) (run_operation codec ge se op st))"
      by (auto simp: client_inv_def intro: vo.extends_refl)
    with assms(2) start have "cluster_inv g c'" by (auto simp: cluster_inv_def)
    then show ?thesis ..
  next
    case (tau i k p)
    from clients [of i] have "client_inv g (Running k p)" using tau by (auto simp: client_inv_def elim: vo.safe_TauE)
    with assms(2) tau have "cluster_inv g c'" by (auto simp: cluster_inv_def)
    then show ?thesis ..
  next
    case (call i k q f r s)
    from clients [of i] have p: "permitted codec ge content_of g q"
      and f: "\<And>g'. answers content_of k g q r g' \<Longrightarrow> vo.safe k (vo.outcome_ok k) g' (f r)"
      using call by (auto simp: client_inv_def elim: vo.safe_CallE)
    from assms(2) have I: "store_inv g (cl_store c)" "chain g" by (auto simp: cluster_inv_def)
    from store_call [OF I p call(3), of k] obtain g' where g': "served k g q r s g'" by blast
    then have ext: "gh_extends g g'" using p by (auto simp: served_def intro: vo.answers_extend)
    from g' f have "client_inv g' (Running k (f r))" by (auto simp: client_inv_def served_def intro: vo.extends_refl)
    moreover have "client_inv g' (cl_clients c j)" for j
      using assms(2) ext by (auto simp: cluster_inv_def intro: client_inv_extends)
    moreover have "vo.event_ok k g' ev" if "(k, ev) \<in> set (cl_log c)" for k ev
      using assms(2) that ext by (auto simp: cluster_inv_def intro: vo.event_ok_extends)
    moreover have "sent (cl_requests c @ [q]) g'"
      using assms(2) g' by (fastforce simp: cluster_inv_def sent_def served_def)
    ultimately have "cluster_inv g' c'" using g' call by (auto simp: cluster_inv_def served_def)
    then show ?thesis ..
  next
    case (finish i k events st)
    from clients [of i] obtain g0 where "gh_extends g0 g" "vo.outcome_ok k g0 (events, st)"
      using finish by (auto simp: client_inv_def elim: vo.safe_RetE)
    then have "vo.client_ok g st" "\<forall>ev \<in> set events. vo.event_ok k g ev"
      by (auto simp: vo.outcome_ok_def intro: vo.client_ok_extends vo.event_ok_extends)
    with assms(2) finish have "cluster_inv g c'" by (auto simp: cluster_inv_def client_inv_def)
    then show ?thesis ..
  next
    case (crash i)
    have "client_inv g (Idle (Unloaded protocol_new))" by (simp add: client_inv_def vo.proto_ok_def protocol_new_def)
    with assms(2) crash have "cluster_inv g c'" by (auto simp: cluster_inv_def)
    then show ?thesis ..
  qed
qed

lemma cluster_inv_reachable:
  assumes "(cluster_step os_call codec ge se)\<^sup>*\<^sup>* (cluster_init s0) c" "os_files s0 = Map.empty" "os_boundary s0 = None"
  shows "\<exists>g. cluster_inv g c"
  using assms(1)
proof (induction rule: rtranclp_induct)
  case base
  have "cluster_inv \<lparr>gh_created = [], gh_bnd = 0\<rparr> (cluster_init s0)"
    using assms(2,3)
    by (simp add: cluster_inv_def cluster_init_def store_inv_def bound_of_def chain_def sent_def client_inv_def first_created_def
        vo.proto_ok_def protocol_new_def)
  then show ?case ..
next
  case (step c c')
  then show ?case using cluster_inv_step by blast
qed

subsection \<open>The chain of versions\<close>

lemma version_value_unique: "vo.version_value g ver v \<Longrightarrow> vo.version_value g ver v' \<Longrightarrow> v' = v"
  by (auto simp: vo.version_value_def authentic_def)

lemma linkedD:
  assumes "vo.linked k g n v0 v"
  shows "vo.version_value g n v0" "vo.version_value g (next_id n) v" "first_created g (next_id n) = Some (oc_encode codec v, k)"
  using assms vo.mine_value by (auto simp: vo.linked_def vo.mine_def)

lemma claimedE:
  assumes "vo.claimed k g e ver"
  obtains n v0 v where "ver = next_id n" "vo.version_value g n v0" "vo.version_value g ver v"
    "first_created g ver = Some (oc_encode codec v, k)" "ge v = e" "ge v0 < e \<or> ge v0 = - 1"
proof -
  from assms obtain n v0 v where "ver = next_id n" "vo.linked k g n v0 v" "ge v = e" "ge v0 < e \<or> ge v0 = - 1"
    unfolding vo.claimed_def by blast
  with linkedD [OF this(2)] that show thesis by simp
qed

lemma updatedE:
  assumes "vo.updated k g e ver m v"
  obtains n v0 where "ver = next_id n" "vo.version_value g n v0" "vo.version_value g ver v"
    "first_created g ver = Some (oc_encode codec v, k)" "v = m v0" "ge v = ge v0" "\<And>x. e = Some x \<Longrightarrow> ge v0 = x"
proof -
  from assms obtain n v0 where "ver = next_id n" "vo.linked k g n v0 v" "v = m v0" "ge v = ge v0" "\<And>x. e = Some x \<Longrightarrow> ge v0 = x"
    unfolding vo.updated_def by blast
  with linkedD [OF this(2)] that show thesis by simp
qed

definition unexhausted :: "ghost \<Rightarrow> bool" where
  "unexhausted g \<longleftrightarrow> (\<forall>ver v. vo.version_value g ver v \<longrightarrow> ver \<noteq> - 1 \<and> ge v \<noteq> - 1)"

lemma unexhausted_run: "cluster_inv g c \<Longrightarrow> not_exhausted codec ge c \<Longrightarrow> unexhausted g"
  by (fastforce simp: cluster_inv_def not_exhausted_def unexhausted_def sent_def vo.version_value_def authentic_def)

lemma next_id_less: "n \<noteq> - 1 \<Longrightarrow> n < next_id n"
  unfolding next_id_def using inc_less_eq_triv_imp linorder_not_less by blast

lemma less_next_id: "a < next_id n \<Longrightarrow> a \<le> n"
  unfolding next_id_def using inc_le [of n a] by (meson not_le)

lemma predecessor:
  assumes "chain g" "vo.version_value g ver v"
  shows "ver = initial_id \<or> (\<exists>n v0. ver = next_id n \<and> vo.version_value g n v0 \<and> (ge v0 \<le> ge v \<or> ge v0 = - 1))"
proof -
  from assms obtain b i where b: "first_created g ver = Some (b, i)" "oc_decode codec b = Inr v"
    by (auto simp: vo.version_value_def authentic_def)
  with assms(1) have "follows_version codec ge g ver b" unfolding chain_def by blast
  with b(2) show ?thesis by (auto simp: follows_version_def follows_def vo.version_value_def)
qed

lemma epochs_ordered:
  assumes "chain g" "unexhausted g" "vo.version_value g a v"
  shows "vo.version_value g ver w \<Longrightarrow> a \<le> ver \<Longrightarrow> ge v \<le> ge w"
proof (induction ver arbitrary: w rule: less_induct)
  case (less ver)
  show ?case
  proof (cases "a = ver")
    case True
    then show ?thesis using less.prems(1) assms(3) version_value_unique by blast
  next
    case False
    with less.prems(2) have lt: "a < ver" by simp
    have "ver \<noteq> initial_id"
    proof
      assume "ver = initial_id"
      with lt have "a = 0" by (simp add: initial_id_def)
      with predecessor [OF assms(1,3)] assms(2) show False
        by (auto simp: initial_id_def next_id_def unexhausted_def dest!: max_word_wrap)
    qed
    with predecessor [OF assms(1) less.prems(1)] obtain n v0 where n: "ver = next_id n" "vo.version_value g n v0"
      "ge v0 \<le> ge w \<or> ge v0 = - 1" by blast
    with assms(2) have "n \<noteq> - 1" "ge v0 \<noteq> - 1" by (auto simp: unexhausted_def)
    with n lt have "n < ver" "a \<le> n" "ge v0 \<le> ge w" by (auto intro: next_id_less less_next_id)
    with less.IH [OF _ n(2)] show ?thesis by (auto intro: order_trans)
  qed
qed

lemma update_before_claim:
  assumes "chain g" "unexhausted g" "vo.claimed k g e ver" "vo.updated k' g (Some e') ver' m v" "e' < e"
  shows "ver' < ver"
proof (rule ccontr)
  assume "\<not> ver' < ver"
  from assms(3) obtain w where w: "vo.version_value g ver w" "ge w = e" by (rule claimedE)
  from assms(4) obtain n v0 where n: "ver' = next_id n" "vo.version_value g n v0" "vo.version_value g ver' v" "ge v = ge v0" "ge v0 = e'"
    by (rule updatedE) simp
  show False
  proof (cases "ver = ver'")
    case True
    with version_value_unique [OF w(1)] n have "v = w" by simp
    with w n assms(5) show False by simp
  next
    case False
    with \<open>\<not> ver' < ver\<close> n(1) have "ver \<le> n" by (intro less_next_id) simp
    from epochs_ordered [OF assms(1,2) w(1) n(2) this] w n assms(5) show False by simp
  qed
qed

lemma claim_order:
  assumes "chain g" "unexhausted g" "vo.claimed k g e ver" "vo.claimed k' g e ver'"
  shows "\<not> ver < ver'"
proof
  assume lt: "ver < ver'"
  from assms(3) obtain w where w: "vo.version_value g ver w" "ge w = e" by (rule claimedE)
  from assms(4) obtain n v0 where n: "ver' = next_id n" "vo.version_value g n v0" "ge v0 < e \<or> ge v0 = - 1"
    by (rule claimedE)
  from n lt have "ver \<le> n" by (simp add: less_next_id)
  from epochs_ordered [OF assms(1,2) w(1) n(2) this] w n assms(2) show False by (auto simp: unexhausted_def)
qed

lemma claims_unique:
  assumes "chain g" "unexhausted g" "vo.claimed k g e ver" "vo.claimed k' g e ver'"
  shows "k' = k \<and> ver' = ver"
proof -
  from claim_order [OF assms] claim_order [OF assms(1,2,4,3)] have "ver' = ver" by simp
  moreover from assms(3) obtain b where "first_created g ver = Some (b, k)" by (rule claimedE)
  moreover from assms(4) obtain b' where "first_created g ver' = Some (b', k')" by (rule claimedE)
  ultimately show ?thesis by simp
qed

lemma updated_value:
  assumes "vo.updated k g e (next_id n) m v"
  shows "vo.version_value g n v0 \<Longrightarrow> v = m v0"
    and "vo.version_value g (next_id n) v' \<Longrightarrow> v' = v"
    and "vo.updated k' g e' (next_id n) m' v' \<Longrightarrow> k' = k"
    and "vo.claimed k' g e'' (next_id n) \<Longrightarrow> k' = k"
proof -
  from assms obtain u where u: "vo.version_value g n u" "vo.version_value g (next_id n) v"
    "first_created g (next_id n) = Some (oc_encode codec v, k)" "v = m u"
    by (rule updatedE) (simp add: next_id_def)
  show "v = m v0" if "vo.version_value g n v0" using u version_value_unique [OF u(1) that] by simp
  show "v' = v" if "vo.version_value g (next_id n) v'" using version_value_unique [OF u(2) that] .
  show "k' = k" if "vo.updated k' g e' (next_id n) m' v'" using that by (rule updatedE) (use u in simp)
  show "k' = k" if "vo.claimed k' g e'' (next_id n)" using that by (rule claimedE) (use u in simp)
qed

lemma cluster_inv_events:
  assumes "cluster_inv g c"
  shows "chain g"
    and "(k, ClaimedEpoch e ver) \<in> set (cl_log c) \<Longrightarrow> vo.claimed k g e ver"
    and "(k, Updated e' ver m v) \<in> set (cl_log c) \<Longrightarrow> vo.updated k g e' ver m v"
    and "(k, Observed ver v) \<in> set (cl_log c) \<Longrightarrow> vo.version_value g ver v"
  using assms by (fastforce simp: cluster_inv_def)+

end

subsection \<open>An object store in memory\<close>

text \<open>
  A store that keeps the laws, in which any call may also fail, before or after it took effect. An entity tag is
  as long as the boundary it stands for.
\<close>

record memory_store =
  ms_files :: "(u64 \<times> bytes) list"
  ms_boundary :: "u64 option"

definition boundary_tag :: "u64 \<Rightarrow> update_version" where
  "boundary_tag b = \<lparr>uv_e_tag = Some (replicate (unat b) CHR ''b''), uv_version = None\<rparr>"

definition tag_content :: "update_version \<Rightarrow> u64" where
  "tag_content version = (case uv_e_tag version of Some tag \<Rightarrow> of_nat (length tag) | None \<Rightarrow> 0)"

definition memory_files :: "memory_store \<Rightarrow> u64 \<rightharpoonup> bytes" where
  "memory_files s = map_of (ms_files s)"

definition memory_boundary :: "memory_store \<Rightarrow> (u64 \<times> update_version) option" where
  "memory_boundary s = map_option (\<lambda>b. (b, boundary_tag b)) (ms_boundary s)"

fun memory_answer :: "memory_store \<Rightarrow> store_request \<Rightarrow> store_response \<times> memory_store" where
  "memory_answer s (GetFile ver) = (case map_of (ms_files s) ver of Some b \<Rightarrow> Found b | None \<Rightarrow> NotFound, s)"
| "memory_answer s (CreateFile ver b) =
     (case map_of (ms_files s) ver of Some _ \<Rightarrow> (AlreadyExists, s) | None \<Rightarrow> (Created, s\<lparr>ms_files := (ver, b) # ms_files s\<rparr>))"
| "memory_answer s (DeleteFile ver) = (Deleted, s\<lparr>ms_files := filter (\<lambda>(n, _). n \<noteq> ver) (ms_files s)\<rparr>)"
| "memory_answer s ListFiles = (Listed (map fst (ms_files s)), s)"
| "memory_answer s (GetBoundary tag) =
     (case ms_boundary s of
        None \<Rightarrow> NotFound
      | Some b \<Rightarrow> if tag \<noteq> None \<and> uv_e_tag (boundary_tag b) = tag then NotModified else BoundaryAt b (boundary_tag b), s)"
| "memory_answer s (CreateBoundary b) =
     (case ms_boundary s of
        None \<Rightarrow> (Stored (boundary_tag b), s\<lparr>ms_boundary := Some b\<rparr>)
      | Some _ \<Rightarrow> (AlreadyExists, s))"
| "memory_answer s (UpdateBoundary expected b) =
     (case ms_boundary s of
        None \<Rightarrow> (Precondition, s)
      | Some b0 \<Rightarrow>
          if uv_e_tag (boundary_tag b0) = uv_e_tag expected then (Stored (boundary_tag b), s\<lparr>ms_boundary := Some b\<rparr>)
          else (Precondition, s))"

definition memory_call :: "memory_store \<Rightarrow> store_request \<Rightarrow> store_response \<Rightarrow> memory_store \<Rightarrow> bool" where
  "memory_call s q r s' \<longleftrightarrow> (r, s') = memory_answer s q \<or> r = StoreError \<and> (s' = s \<or> s' = snd (memory_answer s q))"

lemma tag_content_boundary_tag: "tag_content (boundary_tag b) = b"
  by (simp add: tag_content_def boundary_tag_def)

lemma map_of_delete: "map_of (filter (\<lambda>(n, _). n \<noteq> k) xs) = (map_of xs)(k := None)"
  by (induction xs) auto

interpretation memory: object_store memory_files memory_boundary memory_call tag_content
proof
  fix s s' :: memory_store and r ver tag b bytes expected version version'
  show "memory_call s (GetFile ver) r s' \<Longrightarrow> s' = s \<and> (\<forall>bytes. r = Found bytes \<longrightarrow> memory_files s ver = Some bytes)"
    by (auto simp: memory_call_def memory_files_def split: option.splits)
  show "memory_call s (CreateFile ver bytes) r s' \<Longrightarrow> s' = s \<and> r \<noteq> Created
      \<or> memory_files s ver = None \<and> memory_files s' = (memory_files s)(ver \<mapsto> bytes) \<and> memory_boundary s' = memory_boundary s"
    by (auto simp: memory_call_def memory_files_def memory_boundary_def split: option.splits)
  show "memory_call s (DeleteFile ver) r s' \<Longrightarrow> s' = s
      \<or> memory_files s' = (memory_files s)(ver := None) \<and> memory_boundary s' = memory_boundary s"
    by (auto simp: memory_call_def memory_files_def memory_boundary_def map_of_delete)
  show "memory_call s ListFiles r s' \<Longrightarrow> s' = s" by (auto simp: memory_call_def)
  show "memory_call s (GetBoundary tag) r s' \<Longrightarrow> s' = s
      \<and> (\<forall>b version. r = BoundaryAt b version \<longrightarrow> memory_boundary s = Some (b, version))
      \<and> (r = NotModified \<longrightarrow> (\<exists>b version. memory_boundary s = Some (b, version) \<and> tag \<noteq> None \<and> uv_e_tag version = tag))
      \<and> (r = NotFound \<longrightarrow> memory_boundary s = None)"
    by (auto simp: memory_call_def memory_boundary_def split: option.splits if_splits)
  show "memory_call s (CreateBoundary b) r s' \<Longrightarrow> s' = s \<and> (\<forall>version. r \<noteq> Stored version)
      \<or> memory_boundary s = None \<and> memory_files s' = memory_files s
        \<and> (\<exists>version. memory_boundary s' = Some (b, version) \<and> (\<forall>version'. r = Stored version' \<longrightarrow> version' = version))"
    by (auto simp: memory_call_def memory_files_def memory_boundary_def split: option.splits)
  show "memory_call s (UpdateBoundary expected b) r s' \<Longrightarrow> s' = s \<and> (\<forall>version. r \<noteq> Stored version)
      \<or> (\<exists>b0 current. memory_boundary s = Some (b0, current) \<and> uv_e_tag expected \<noteq> None \<and> uv_e_tag current = uv_e_tag expected)
        \<and> memory_files s' = memory_files s
        \<and> (\<exists>version. memory_boundary s' = Some (b, version) \<and> (\<forall>version'. r = Stored version' \<longrightarrow> version' = version))"
    by (auto simp: memory_call_def memory_files_def memory_boundary_def boundary_tag_def split: option.splits if_splits)
  show "memory_boundary s = Some (b, version) \<Longrightarrow> tag_content version = b"
    by (auto simp: memory_boundary_def tag_content_boundary_tag)
  show "uv_e_tag version = uv_e_tag version' \<Longrightarrow> uv_e_tag version \<noteq> None \<Longrightarrow> tag_content version = tag_content version'"
    by (simp add: tag_content_def)
qed

text \<open>An object that holds an epoch and a number, each in eight bytes.\<close>

definition counter_codec :: "(u64 \<times> u64) object_codec" where
  "counter_codec = \<lparr>oc_encode = (\<lambda>(e, x). put_u64 e @ put_u64 x),
     oc_decode = (\<lambda>bytes.
       case get_u64 bytes of
         Inl _ \<Rightarrow> Inl ''epoch''
       | Inr (e, bytes) \<Rightarrow> (case get_u64 bytes of Inr (x, []) \<Rightarrow> Inr (e, x) | _ \<Rightarrow> Inl ''number''))\<rparr>"

definition set_counter_epoch :: "u64 \<times> u64 \<Rightarrow> u64 \<Rightarrow> u64 \<times> u64" where
  "set_counter_epoch v e = (e, snd v)"

lemma get_put_last [simp]: "get_u64 (put_u64 x) = Inr (x, [])"
  using get_put_words(4) [of x "[]"] by simp

lemma counter_round_trip [simp]: "oc_decode counter_codec (oc_encode counter_codec v) = Inr v"
  by (cases v) (simp add: counter_codec_def)

interpretation counter: cluster_laws memory_files memory_boundary memory_call tag_content counter_codec fst set_counter_epoch
  by unfold_locales (auto simp: counter_round_trip set_counter_epoch_def)

text \<open>A run of this cluster in which one process after the other does an operation.\<close>

type_synonym counter_cluster = "(memory_store, u64 \<times> u64) cluster"

definition advance_client :: "nat \<Rightarrow> counter_cluster \<Rightarrow> counter_cluster" where
  "advance_client i c =
     (case cl_clients c i of
        Idle _ \<Rightarrow> c
      | Running k (Ret (events, st)) \<Rightarrow> set_client i (Idle st) c\<lparr>cl_log := cl_log c @ map (Pair k) events\<rparr>
      | Running k (Tau p) \<Rightarrow> set_client i (Running k p) c
      | Running k (Call q f) \<Rightarrow>
          (case memory_answer (cl_store c) q of (r, s) \<Rightarrow>
            set_client i (Running k (f r)) c\<lparr>cl_store := s, cl_requests := cl_requests c @ [q]\<rparr>))"

definition run_to_end :: "nat \<Rightarrow> nat \<Rightarrow> (u64 \<times> u64) operation \<Rightarrow> counter_cluster \<Rightarrow> counter_cluster" where
  "run_to_end n i op c =
     (case cl_clients c i of
        Idle st \<Rightarrow>
          (advance_client i ^^ n)
            (set_client i (Running (cl_started c) (run_operation counter_codec fst set_counter_epoch op st)) c\<lparr>cl_started := Suc (cl_started c)\<rparr>)
      | _ \<Rightarrow> c)"

abbreviation counter_step :: "counter_cluster \<Rightarrow> counter_cluster \<Rightarrow> bool" where
  "counter_step \<equiv> cluster_step memory_call counter_codec fst set_counter_epoch"

lemma advance_client_steps: "counter_step\<^sup>*\<^sup>* c (advance_client i c)"
proof (cases "cl_clients c i")
  case (Running k p)
  show ?thesis
  proof (cases p)
    case (Ret out)
    with Running cluster_step.finish [of c i k "fst out" "snd out"] show ?thesis
      by (auto simp: advance_client_def split: prod.split intro!: r_into_rtranclp)
  next
    case (Tau p')
    with Running cluster_step.tau [of c i k p'] show ?thesis
      by (auto simp: advance_client_def intro!: r_into_rtranclp)
  next
    case (Call q f)
    obtain r s where rs: "memory_answer (cl_store c) q = (r, s)" by fastforce
    then have "memory_call (cl_store c) q r s" by (simp add: memory_call_def)
    with cluster_step.call [of c i k q f memory_call r s] Running Call rs show ?thesis
      by (auto simp: advance_client_def intro!: r_into_rtranclp)
  qed
qed (simp add: advance_client_def)

lemma run_to_end_steps:
  assumes "keeps_epoch fst op"
  shows "counter_step\<^sup>*\<^sup>* c (run_to_end n i op c)"
proof -
  have many: "counter_step\<^sup>*\<^sup>* c' ((advance_client i ^^ n) c')" for c'
    by (induction n) (auto intro: rtranclp_trans advance_client_steps)
  show ?thesis
  proof (cases "cl_clients c i")
    case (Idle st)
    from cluster_step.start [OF Idle assms] have
      "counter_step c (set_client i (Running (cl_started c) (run_operation counter_codec fst set_counter_epoch op st)) c\<lparr>cl_started := Suc (cl_started c)\<rparr>)" .
    with many Idle show ?thesis unfolding run_to_end_def by (simp add: converse_rtranclp_into_rtranclp)
  qed (simp add: run_to_end_def)
qed

definition add_one :: "u64 \<times> u64 \<Rightarrow> u64 \<times> u64" where
  "add_one v = (fst v, snd v + 1)"

definition counter_run :: counter_cluster where
  "counter_run =
     (run_to_end 4 1 Claim \<circ> run_to_end 4 1 Load \<circ> run_to_end 4 0 (Update add_one) \<circ> run_to_end 4 0 Claim \<circ> run_to_end 4 0 (Create (0, 7)))
       (cluster_init \<lparr>ms_files = [], ms_boundary = None\<rparr>)"

lemma counter_run_steps: "counter_step\<^sup>*\<^sup>* (cluster_init \<lparr>ms_files = [], ms_boundary = None\<rparr>) counter_run"
  unfolding counter_run_def comp_def
  by (rule rtranclp_trans [OF rtranclp_trans [OF rtranclp_trans [OF rtranclp_trans]]];
      rule run_to_end_steps; simp add: add_one_def)


lemma bind_ok_apply: "bind_ok m f s = prog_bind (m s) (\<lambda>(r, s). case r of Inl e \<Rightarrow> Ret (Inl e, s) | Inr a \<Rightarrow> f a s)"
  unfolding bind_ok_def attempt_def
  by (rule arg_cong [where f = "prog_bind (m s)"]) (auto simp: fun_eq_iff fail_def split: sum.split)

lemma four_times: "(f ^^ 4) x = f (f (f (f x)))"
  by (simp add: numeral_eq_Suc)

lemma word_order:
  "\<not> (2 :: u64) \<le> 1" "\<not> (3 :: u64) \<le> 1" "\<not> (3 :: u64) \<le> 2" "(1 :: u64) \<le> 2" "(1 :: u64) \<le> 3" "(2 :: u64) \<le> 3"
  by (simp_all add: word_le_nat_alt)

text \<open>The simplifier evaluates a program up to its next call, and not what follows a call.\<close>

lemma weak_congs:
  "q = q' \<Longrightarrow> Call q f = Call q' f"
  "p = p' \<Longrightarrow> prog_bind p h = prog_bind p' h"
  "p2 = p2' \<Longrightarrow> iterate_from body p2 = iterate_from body p2'"
  "s = s' \<Longrightarrow> bind_ok m k s = bind_ok m k s'"
  "s = s' \<Longrightarrow> attempt m k2 s = attempt m k2 s'"
  "x2 = x2' \<Longrightarrow> iterate body x2 = iterate body x2'"
  "s = s' \<Longrightarrow> loop b x s = loop b x s'"
  "s = s' \<Longrightarrow> await q k3 s = await q k3 s'"
  "s = s' \<Longrightarrow> finally_do m e s = finally_do m e s'"
  by simp_all

lemmas run_defs = run_to_end_def advance_client_def cluster_init_def four_times word_order is_sequenced_write_conflict_def Let_def
  finally_do_def action_simps attempt_def bind_ok_apply get_state_def loop_def iterate_def on_part_def on_ops_def on_delegate_def
  simple_init_def protocol_new_def protocol_write_def write_unchecked_def initial_id_def next_id_def maybe_cache_latest_def
  check_def boundary_check_def read_boundary_def check_boundary_def
  load_def try_load_def try_read_latest_def try_read_latest_unchecked_def list_latest_def list_files_def try_read_bytes_unchecked_def decoded_def in_bounds_def
  fence_init_def update_def prepare_dirty_def update_fenced_def fence_prepare_dirty_def fence_update_def check_epoch_def mutate_def
  loaded_end_def claimed_end_def fenced_end_def settle_def set_counter_epoch_def add_one_def



lemma counter_run_history:
  "cl_log counter_run =
     [(0, Observed 1 (0, 7)), (1, ClaimedEpoch 1 2), (1, Observed 2 (1, 7)), (2, Updated (Some 1) 3 add_one (1, 8)),
      (2, Observed 3 (1, 8)), (3, Observed 3 (1, 8)), (4, ClaimedEpoch 2 4), (4, Observed 4 (2, 8))]"
  "cl_requests counter_run =
     [CreateFile 1 (oc_encode counter_codec (0, 7)), GetBoundary None,
      CreateFile 2 (oc_encode counter_codec (1, 7)), GetBoundary None,
      CreateFile 3 (oc_encode counter_codec (1, 8)), GetBoundary None,
      ListFiles, GetFile 3, GetBoundary None,
      CreateFile 4 (oc_encode counter_codec (2, 8)), GetBoundary None]"
  by (simp_all add: counter_run_def run_defs cong: weak_congs)

lemma counter_run_not_exhausted: "not_exhausted counter_codec fst counter_run"
  by (auto simp: not_exhausted_def counter_run_history)

lemma memory_empty:
  "memory_files \<lparr>ms_files = [], ms_boundary = None\<rparr> = Map.empty"
  "memory_boundary \<lparr>ms_files = [], ms_boundary = None\<rparr> = None"
  by (simp_all add: memory_files_def memory_boundary_def)

lemma set_counter_epoch: "\<forall>v e. fst (set_counter_epoch v e) = e"
  by (simp add: set_counter_epoch_def)

subsection \<open>The theorems\<close>

lemma cluster_lawsI:
  assumes "object_store os_files os_boundary os_call content_of"
    and "\<forall>v. oc_decode codec (oc_encode codec v) = Inr v" "\<forall>v e. ge (se v e) = e"
  shows "cluster_laws os_files os_boundary os_call content_of codec ge se"
  using assms by (intro cluster_laws.intro cluster_laws_axioms.intro) auto

text \<open>
  C6: Fencing holds: in every run of any number of processes over an object store that keeps its
  laws, with crashes at any point, the updates accepted for a process with a lower epoch come before the version in which an
  epoch was claimed, and no two operations claim the same epoch.
\<close>

theorem fencing:
  assumes store: "object_store os_files os_boundary os_call content_of" "os_files s0 = Map.empty" "os_boundary s0 = None"
    and codec: "\<forall>v. oc_decode codec (oc_encode codec v) = Inr v"
    and epoch: "\<forall>v e. ge (se v e) = e"
    and run: "(cluster_step os_call codec ge se)\<^sup>*\<^sup>* (cluster_init s0) c" "not_exhausted codec ge c"
    and claim: "(k, ClaimedEpoch e ver) \<in> set (cl_log c)"
  shows "(\<forall>k' e' ver' m v. (k', Updated (Some e') ver' m v) \<in> set (cl_log c) \<and> e' < e \<longrightarrow> ver' < ver)
    \<and> (\<forall>k' ver'. (k', ClaimedEpoch e ver') \<in> set (cl_log c) \<longrightarrow> k' = k \<and> ver' = ver)"
proof -
  note laws = cluster_lawsI [OF store(1) codec epoch]
  from cluster_laws.cluster_inv_reachable [OF laws run(1) store(2,3)] obtain g where
    I: "cluster_laws.cluster_inv os_files os_boundary content_of codec ge g c" by blast
  from cluster_laws.unexhausted_run [OF laws I run(2)] have ex: "cluster_laws.unexhausted codec ge g" .
  from cluster_laws.cluster_inv_events [OF laws I] have ch: "cluster_laws.chain codec ge g"
    and ev: "\<And>k e ver. (k, ClaimedEpoch e ver) \<in> set (cl_log c) \<Longrightarrow> versioned_object.claimed codec ge k g e ver"
      "\<And>k e ver m v. (k, Updated e ver m v) \<in> set (cl_log c) \<Longrightarrow> versioned_object.updated codec ge k g e ver m v"
    by blast+
  show ?thesis
    using cluster_laws.update_before_claim [OF laws ch ex ev(1) [OF claim] ev(2)]
      cluster_laws.claims_unique [OF laws ch ex ev(1) [OF claim] ev(1)] by blast
qed

text \<open>Witness of C6: two processes that claim one after the other, the first updating in between.\<close>

theorem fencing_witness:
  "(2, Updated (Some 1) 3 add_one (1, 8)) \<in> set (cl_log counter_run) \<and> (4, ClaimedEpoch 2 4) \<in> set (cl_log counter_run)
   \<and> (3 :: u64) < 4"
proof (intro conjI)
  show upd: "(2, Updated (Some 1) 3 add_one (1, 8)) \<in> set (cl_log counter_run)" by (simp add: counter_run_history)
  show claim: "(4, ClaimedEpoch 2 4) \<in> set (cl_log counter_run)" by (simp add: counter_run_history)
  have "(1 :: u64) < 2" by simp
  with upd fencing [OF memory.object_store_axioms memory_empty allI [OF counter_round_trip] set_counter_epoch
      counter_run_steps counter_run_not_exhausted claim]
  show "(3 :: u64) < 4" by blast
qed

text \<open>
  C7: No update is lost: the value that an accepted update wrote is the mutation of the value of the version
  before it, as everybody saw that version, everybody sees this value as the new
  version, and no other operation got this version accepted.
\<close>

theorem accepted_update:
  assumes store: "object_store os_files os_boundary os_call content_of" "os_files s0 = Map.empty" "os_boundary s0 = None"
    and codec: "\<forall>v. oc_decode codec (oc_encode codec v) = Inr v"
    and epoch: "\<forall>v e. ge (se v e) = e"
    and run: "(cluster_step os_call codec ge se)\<^sup>*\<^sup>* (cluster_init s0) c"
    and upd: "(k, Updated e (next_id n) m v) \<in> set (cl_log c)"
  shows "(\<forall>k' v0. (k', Observed n v0) \<in> set (cl_log c) \<longrightarrow> v = m v0)
    \<and> (\<forall>k' v'. (k', Observed (next_id n) v') \<in> set (cl_log c) \<longrightarrow> v' = v)
    \<and> (\<forall>k' e' m' v'. (k', Updated e' (next_id n) m' v') \<in> set (cl_log c) \<longrightarrow> k' = k)
    \<and> (\<forall>k' e'. (k', ClaimedEpoch e' (next_id n)) \<in> set (cl_log c) \<longrightarrow> k' = k)"
proof -
  note laws = cluster_lawsI [OF store(1) codec epoch]
  from cluster_laws.cluster_inv_reachable [OF laws run store(2,3)] obtain g where
    I: "cluster_laws.cluster_inv os_files os_boundary content_of codec ge g c" by blast
  note ev = cluster_laws.cluster_inv_events [OF laws I]
  note val = cluster_laws.updated_value [OF laws ev(3) [OF upd]]
  show ?thesis using val(1) [OF ev(4)] val(2) [OF ev(4)] val(3) [OF ev(3)] val(4) [OF ev(2)] by blast
qed

text \<open>Witness of C7: the update of the first process in the same run.\<close>

theorem accepted_update_witness:
  "(2, Updated (Some 1) (next_id 2) add_one (1, 8)) \<in> set (cl_log counter_run) \<and> (1, Observed 2 (1, 7)) \<in> set (cl_log counter_run)
   \<and> (1, 8) = add_one (1, 7)"
proof (intro conjI)
  show upd: "(2, Updated (Some 1) (next_id 2) add_one (1, 8)) \<in> set (cl_log counter_run)"
    by (simp add: counter_run_history next_id_def)
  show before: "(1, Observed 2 (1, 7)) \<in> set (cl_log counter_run)" by (simp add: counter_run_history)
  with accepted_update [OF memory.object_store_axioms memory_empty allI [OF counter_round_trip] set_counter_epoch
      counter_run_steps upd]
  show "(1, 8) = add_one (1, 7)" by blast
qed

end
