(* ===== verification/Spec2Isabelle.thy ===== *)
theory Spec2Isabelle
  imports KeyRange RowCodec Block PartitionedKeyspace MergeIterator SeqTracker MemTable ReadPath Retention Progress Fencing
begin

text \<open>
  A verification of SlateDB, an embedded log-structured key-value store over object storage
  (the crates \<open>slatedb\<close> and \<open>slatedb-txn-obj\<close>).

  \<^bold>\<open>The program.\<close> A client puts, deletes and merges keys, alone or in a transaction. Its operations
  are collected in a write batch; one writer task assigns the batch a sequence number, checks it for
  conflicts, appends it to the write-ahead log, inserts its rows into the active memtable and records
  the commit. A memtable that has grown is frozen and later written to an SST of data blocks. A
  read merges the rows of the transaction's batch, the memtables and the SSTs, keeps those that its
  snapshot sees, resolves merge operands, and returns the visible entries in key order. The processes
  that share a database agree on its manifest through a transactional object in object
  storage, whose epoch fences off a process that was replaced.

  \<^bold>\<open>Theories.\<close> From the bottom up:

  \<^item> \<open>Prelude\<close>: result and error types, words, lists. \<open>Types\<close>: rows (\<open>types.rs\<close>).
  \<^item> \<open>KeyRange\<close>: \<open>comparable_range.rs\<close>, \<open>bytes_range.rs\<close>. The range algebra computes intersection
    and union of key sets; a prefix has exactly the range of its extensions.
  \<^item> \<open>RowCodec\<close>: \<open>format/row.rs\<close>, \<open>format/row_codec_v2.rs\<close> and varints. Decoding inverts encoding, on
    a stream with more data behind; sizes are exact.
  \<^item> \<open>Iter\<close>: the iterator trait (\<open>iter.rs\<close>) and the locales of its contract: what \<open>next\<close> returns
    (\<open>row_iterator\<close>), what \<open>seek\<close> skips (\<open>seekable_iterator\<close>, \<open>forward_iterator\<close>), and what
    initialisation makes of a source (\<open>row_source\<close>).
  \<^item> \<open>Block\<close>: \<open>format/block.rs\<close>, \<open>block_iterator.rs\<close>. A block returns the rows its builder was given, in
    either order, and its binary search finds the first row at or after a key.
  \<^item> \<open>PartitionedKeyspace\<close>: \<open>partitioned_keyspace.rs\<close> and index keys. The selected partitions hold
    every key of a range.
  \<^item> \<open>BitCodec\<close>, \<open>SeqTracker\<close>: bit streams of \<open>utils.rs\<close>, \<open>seq_tracker.rs\<close>. The Gorilla encoding
    loses nothing, and lookups in either direction agree with the list of recorded pairs.
  \<^item> \<open>MergeIterator\<close>, \<open>ReadIterators\<close>, \<open>MergeOperator\<close>: \<open>merge_iterator.rs\<close>,
    \<open>filter_iterator.rs\<close>, \<open>merge_operator.rs\<close>. A merge of sorted sources is the sorted union of their
    rows; batched merging equals merging one operand after the other.
  \<^item> \<open>OrderedMap\<close>, \<open>MemTable\<close>: \<open>mem_table.rs\<close> over the contract of an ordered map (locales
    \<open>ordered_map\<close>, \<open>skip_map\<close>), which the sorted association list of \<open>OrderedMap\<close> meets.
  \<^item> \<open>Batch\<close>: \<open>batch.rs\<close>. The rows of a batch are the operations applied in order, key by key.
  \<^item> \<open>Visible\<close>, \<open>DbIter\<close>, \<open>ReadPath\<close>: \<open>db_iter.rs\<close>. \<open>Visible\<close> specifies the entries a reader at a
    snapshot sees of a set of rows; scans, lookups and seeks return exactly those.
  \<^item> \<open>Retention\<close>: \<open>retention_iterator.rs\<close>. The versions kept by a flush or compaction give every snapshot
    that is still possible the value it would read from all versions.
  \<^item> \<open>Transactions\<close>: \<open>oracle.rs\<close>, \<open>snapshot_manager.rs\<close>, \<open>transaction_manager.rs\<close>. In every
    history the conflict check over the recycled queue agrees with one against all commits.
  \<^item> \<open>WritePath\<close>: \<open>batch_write.rs\<close>, with what it uses of \<open>db_state.rs\<close>, \<open>manifest/mod.rs\<close>, \<open>db.rs\<close>.
  \<^item> \<open>Isolation\<close>, \<open>Serializability\<close>: \<open>db_transaction.rs\<close> and the interleaving of clients with the writer as
    a step relation, one step for what happens between two waits. In every
    interleaving no update is lost, snapshots are stable, and the reads of serializable transactions are
    those of a serial execution in commit order.
  \<^item> \<open>Progress\<close>: in every fair run each commit that was handed to the writer is decided.
  \<^item> \<open>StoreProgram\<close>: programs that call an object store, as a codatatype, and a rely-guarantee logic for them
    (locale \<open>rely\<close>). \<open>TxnObject\<close>: \<open>slatedb-txn-obj/src/lib.rs\<close> and \<open>object_store.rs\<close>, each function a program.
  \<^item> \<open>Cluster\<close>: the laws of the object store (locale \<open>object_store\<close>), and processes that run operations on one
    object as a step relation, with crashes and calls that fail after they took effect. \<open>ObjectSpecs\<close> (locale
    \<open>versioned_object\<close>): what each operation guarantees whatever the others do. \<open>Fencing\<close>
    (locale \<open>cluster_laws\<close>): accepted updates form one chain of versions, and a claimed
    epoch excludes later updates with a lower one. The locales are
    interpreted on a store in memory.

  \<^bold>\<open>Conventions.\<close> A struct is a record, an enum a datatype; integers keep their width as words, lengths and
  indices are natural numbers. A function that may fail or panic returns a \<open>result\<close>, the panic being the
  error \<open>Panic\<close>. A loop is a structural recursion where it counts, and a \<open>partial_function\<close> into
  \<open>option\<close> where its end depends on the iterator below, the theorems then stating that it returns.
  No definition takes fuel. Futures are the functions they compute: a wait matters only in \<open>Isolation\<close>
  and \<open>TxnObject\<close>, where it is a point at which others may act. A retry loop of \<open>TxnObject\<close> may run forever; its
  theorems are about what happens when an operation ends, at whatever call it is.

  \<^bold>\<open>Parameters.\<close> Code outside the repository, or behind a trait, is an argument: the concurrent skip list
  (its laws are those of \<open>skip_map\<close>), the binary heap (\<open>heap_law\<close>: it returns a least element), the
  user's merge operator (\<open>merge_operator\<close>: merging a batch is merging its operands in turn), prefix
  extractors, the WAL writer, clocks, the iterators over SSTs, the object store and the codec below a
  transactional object. Each law has an instance in the
  development, on which the theorems that assume it are evaluated.

  \<^bold>\<open>Not modelled.\<close> What is mainly a sequence of calls to object storage, other than transactional objects (table
  store, manifest store, WAL files, memtable flush, compaction tasks, garbage collection, checkpoints,
  clones), caches, generated serialisation code, filters, metrics, tracing, configuration files, command
  line and language bindings. Crashes are modelled for transactional objects only; recovery of a
  database and the wait for durability are out of scope. In \<open>TxnObject\<close> the names of the files and the text
  form of the boundary are left out, and the caches belong to one process.
\<close>

end
